(* ===== verification/Prelude.thy ===== *)
theory Prelude
  imports "HOL-Library.Word"
begin

text \<open>
  Shared vocabulary of the development: the machine integers of the Rust sources as fixed-width
  words, Rust's checked and saturating arithmetic, results as sums with the error on the left,
  single-bit tests on words, and list facts the component theories use.
\<close>

unbundle bit_operations_syntax

text \<open>Checked arithmetic read as facts about natural numbers, for proofs of sizes and offsets.\<close>

named_theorems checked_arith

type_synonym u8 = "8 word"
type_synonym u16 = "16 word"
type_synonym u32 = "32 word"
type_synonym u64 = "64 word"
type_synonym i32 = int

text \<open>
  \<open>Result<T, E>\<close> is \<open>'e + 'a\<close> with \<open>Inl\<close> the error. \<open>and_then\<close> is the \<open>?\<close> operator on a
  pure result. An operation on \<open>&mut self\<close> returns the pair of its result and the new state,
  because a Rust method that answers \<open>Err\<close> may already have written to \<open>self\<close>.
\<close>

definition and_then :: "'e + 'a \<Rightarrow> ('a \<Rightarrow> 'e + 'b) \<Rightarrow> 'e + 'b" where
  "and_then r f = (case r of Inl e \<Rightarrow> Inl e | Inr x \<Rightarrow> f x)"

definition ok_or :: "'a option \<Rightarrow> 'e \<Rightarrow> 'e + 'a" where
  "ok_or x e = (case x of None \<Rightarrow> Inl e | Some v \<Rightarrow> Inr v)"

definition is_ok :: "'e + 'a \<Rightarrow> bool" where
  "is_ok r = (case r of Inl _ \<Rightarrow> False | Inr _ \<Rightarrow> True)"

lemma and_then_simps [simp]:
  "and_then (Inl e) f = Inl e"
  "and_then (Inr x) f = f x"
  by (simp_all add: and_then_def)

lemma and_then_Inr_iff: "and_then r f = Inr y \<longleftrightarrow> (\<exists>x. r = Inr x \<and> f x = Inr y)"
  by (cases r) auto

lemma and_then_Inl_iff:
  "and_then r f = Inl e \<longleftrightarrow> r = Inl e \<or> (\<exists>x. r = Inr x \<and> f x = Inl e)"
  by (cases r) auto

lemma ok_or_simps [simp]:
  "ok_or None e = Inl e"
  "ok_or (Some v) e = Inr v"
  by (simp_all add: ok_or_def)

lemma ok_or_Inr_iff: "ok_or x e = Inr v \<longleftrightarrow> x = Some v"
  by (cases x) auto

lemma ok_or_Inl_iff: "ok_or x e = Inl e' \<longleftrightarrow> x = None \<and> e = e'"
  by (cases x) auto

lemma is_ok_simps [simp]:
  "\<not> is_ok (Inl e)"
  "is_ok (Inr x)"
  by (simp_all add: is_ok_def)

lemma is_ok_iff: "is_ok r \<longleftrightarrow> (\<exists>x. r = Inr x)"
  by (cases r) auto

text \<open>The question mark inside a method on \<open>&mut self\<close>: the rest runs on the state the call left.\<close>

definition try_then :: "('e + 'a) \<times> 's \<Rightarrow> ('a \<Rightarrow> 's \<Rightarrow> ('e + 'b) \<times> 's) \<Rightarrow> ('e + 'b) \<times> 's" where
  "try_then r f = (case r of (Inl e, s) \<Rightarrow> (Inl e, s) | (Inr x, s) \<Rightarrow> f x s)"

lemma try_then_simps [simp]:
  "try_then (Inl e, s) f = (Inl e, s)"
  "try_then (Inr x, s) f = f x s"
  by (simp_all add: try_then_def)

lemma try_then_Inr:
  assumes "try_then r f = (Inr y, s')"
  obtains x s where "r = (Inr x, s)" "f x s = (Inr y, s')"
  using assms by (cases r; cases "fst r") auto

subsection \<open>Rust's arithmetic on machine integers\<close>

text \<open>
  \<open>+\<close> and \<open>-\<close> on words wrap, as the release profile's operators do. The named operations of
  the standard library are written out: the largest value of a width is \<open>- 1\<close>.
\<close>

definition saturating_add :: "'a::len word \<Rightarrow> 'a word \<Rightarrow> 'a word" where
  "saturating_add a b = (if unat a + unat b < 2 ^ LENGTH('a) then a + b else - 1)"

definition saturating_sub :: "'a::len word \<Rightarrow> 'a word \<Rightarrow> 'a word" where
  "saturating_sub a b = (if b \<le> a then a - b else 0)"

definition checked_add :: "'a::len word \<Rightarrow> 'a word \<Rightarrow> 'a word option" where
  "checked_add a b = (if unat a + unat b < 2 ^ LENGTH('a) then Some (a + b) else None)"

definition checked_sub :: "'a::len word \<Rightarrow> 'a word \<Rightarrow> 'a word option" where
  "checked_sub a b = (if b \<le> a then Some (a - b) else None)"

definition checked_mul :: "'a::len word \<Rightarrow> 'a word \<Rightarrow> 'a word option" where
  "checked_mul a b = (if unat a * unat b < 2 ^ LENGTH('a) then Some (a * b) else None)"

lemma checked_mul_Some_iff [checked_arith]:
  "checked_mul a b = Some c \<longleftrightarrow> unat a * unat b < 2 ^ LENGTH('a) \<and> unat c = unat a * unat b"
  for a b :: "'a::len word"
  by (auto simp: checked_mul_def unat_word_ariths word_unat_eq_iff)

lemma unat_saturating_add:
  "unat (saturating_add a b) = min (unat a + unat b) (2 ^ LENGTH('a) - 1)"
  for a b :: "'a::len word"
  by (auto simp: saturating_add_def unat_word_ariths unsigned_minus_1_eq_mask mask_eq_exp_minus_1
      min_def)

lemma unat_sub_le: "b \<le> a \<Longrightarrow> unat (a - b) = unat a - unat b"
  for a b :: "'a::len word"
  by (simp add: unat_sub)

lemma checked_sub_unat_iff [checked_arith]:
  "checked_sub a b = Some c \<longleftrightarrow> unat b \<le> unat a \<and> unat c = unat a - unat b"
  for a b :: "'a::len word"
  by (auto simp: checked_sub_def word_le_nat_alt unat_sub_le word_unat_eq_iff)

lemma unat_saturating_sub: "unat (saturating_sub a b) = unat a - unat b"
  for a b :: "'a::len word"
  by (auto simp: saturating_sub_def unat_sub word_le_nat_alt)

lemma saturating_add_mono: "a \<le> saturating_add a b"
  for a b :: "'a::len word"
proof -
  have "unat a < 2 ^ LENGTH('a)" by (rule unsigned_less)
  then have "unat a \<le> 2 ^ LENGTH('a) - 1" by linarith
  then show ?thesis by (simp add: word_le_nat_alt unat_saturating_add)
qed

lemma checked_add_Some_iff:
  "checked_add a b = Some c \<longleftrightarrow> unat a + unat b < 2 ^ LENGTH('a) \<and> c = a + b"
  for a b :: "'a::len word"
  by (auto simp: checked_add_def)

lemma checked_add_unat_iff [checked_arith]:
  "checked_add a b = Some c \<longleftrightarrow> unat a + unat b < 2 ^ LENGTH('a) \<and> unat c = unat a + unat b"
  for a b :: "'a::len word"
  by (auto simp: checked_add_def unat_word_ariths word_unat_eq_iff)

lemma unat_add_no_wrap: "unat a + unat b < 2 ^ LENGTH('a) \<Longrightarrow> unat (a + b) = unat a + unat b"
  for a b :: "'a::len word"
  by (simp add: unat_word_ariths)

subsection \<open>Single bits\<close>

text \<open>\<open>word & (1 << n) != 0\<close> is the bit test of the library.\<close>

lemma and_exp_ne_0_iff: "w AND 2 ^ n \<noteq> 0 \<longleftrightarrow> bit w n"
  for w :: "'a::len word"
proof
  assume "w AND 2 ^ n \<noteq> 0"
  then obtain k where "bit (w AND 2 ^ n) k" by (auto simp: bit_eq_iff)
  then have "bit w k \<and> k = n" by (auto simp: bit_and_iff bit_exp_iff)
  then show "bit w n" by blast
next
  assume "bit w n"
  then have "bit (w AND 2 ^ n) n"
    by (simp add: bit_and_iff bit_exp_iff bit_imp_le_length)
  then show "w AND 2 ^ n \<noteq> 0" by (metis bit_0_eq bot_apply bot_bool_def)
qed

lemma and_push_bit_ne_0_iff: "w AND push_bit n 1 \<noteq> 0 \<longleftrightarrow> bit w n"
  for w :: "'a::len word"
  by (simp add: and_exp_ne_0_iff)

lemma and_push_bit_eq_0_iff: "w AND push_bit n 1 = 0 \<longleftrightarrow> \<not> bit w n"
  for w :: "'a::len word"
  using and_push_bit_ne_0_iff [of w n] by blast

lemma and_exp_eq_0_iff: "w AND 2 ^ n = 0 \<longleftrightarrow> \<not> bit w n"
  for w :: "'a::len word"
  using and_exp_ne_0_iff [of w n] by blast

lemma bit_or_push_bit_1: "bit (w OR push_bit n 1) m \<longleftrightarrow> bit w m \<or> (m = n \<and> n < LENGTH('a))"
  for w :: "'a::len word"
  by (auto simp: bit_or_iff bit_exp_iff)

lemma and_eq_self_iff: "a AND b = b \<longleftrightarrow> (\<forall>n. bit b n \<longrightarrow> bit a n)"
  for a b :: "'a::len word"
proof
  assume eq: "a AND b = b"
  show "\<forall>n. bit b n \<longrightarrow> bit a n"
  proof (intro allI impI)
    fix n assume "bit b n"
    then have "bit (a AND b) n" by (simp only: eq)
    then show "bit a n" by (simp add: bit_and_iff)
  qed
next
  assume "\<forall>n. bit b n \<longrightarrow> bit a n"
  then show "a AND b = b" by (intro bit_eqI) (auto simp: bit_and_iff)
qed

lemma and_not_eq_0_iff: "b AND NOT a = 0 \<longleftrightarrow> (\<forall>n. bit b n \<longrightarrow> bit a n)"
  for a b :: "'a::len word"
proof
  assume eq: "b AND NOT a = 0"
  show "\<forall>n. bit b n \<longrightarrow> bit a n"
  proof (intro allI impI)
    fix n assume b: "bit b n"
    have "\<not> bit (b AND NOT a) n" by (simp only: eq bit_0_eq bot_apply) simp
    with b show "bit a n" by (simp add: bit_and_iff bit_not_iff bit_imp_le_length)
  qed
next
  assume "\<forall>n. bit b n \<longrightarrow> bit a n"
  then show "b AND NOT a = 0"
    by (intro bit_eqI) (auto simp: bit_and_iff bit_not_iff)
qed

subsection \<open>Lists\<close>

text \<open>\<open>slice.get(i)\<close>: the element, or nothing past the end.\<close>

definition get_at :: "'a list \<Rightarrow> nat \<Rightarrow> 'a option" where
  "get_at xs i = (if i < length xs then Some (xs ! i) else None)"

lemma get_at_Some_iff: "get_at xs i = Some x \<longleftrightarrow> i < length xs \<and> xs ! i = x"
  by (auto simp: get_at_def)

lemma get_at_None_iff: "get_at xs i = None \<longleftrightarrow> length xs \<le> i"
  by (auto simp: get_at_def)

lemma get_at_update:
  "get_at (xs[i := x]) j = (if i = j \<and> j < length xs then Some x else get_at xs j)"
  by (auto simp: get_at_def)

lemma find_upt_None_iff: "List.find P [0..<n] = None \<longleftrightarrow> (\<forall>i<n. \<not> P i)"
  by (auto simp: find_None_iff)

lemma find_upt_Some_iff:
  "List.find P [0..<n] = Some i \<longleftrightarrow> i < n \<and> P i \<and> (\<forall>j<i. \<not> P j)"
proof
  assume "List.find P [0..<n] = Some i"
  then show "i < n \<and> P i \<and> (\<forall>j<i. \<not> P j)"
    by (auto simp: find_Some_iff)
next
  assume "i < n \<and> P i \<and> (\<forall>j<i. \<not> P j)"
  then show "List.find P [0..<n] = Some i"
    by (auto simp: find_Some_iff intro!: exI [where x = i])
qed

end
