(* ===== verification/Abi_Cap.thy ===== *)
theory Abi_Cap
  imports Prelude
begin

text \<open>
  Wire vocabulary of a capability (\<open>src/abi/src/cap.rs\<close>), packed error codes (\<open>mod error\<close> of
  \<open>src/abi/src/lib.rs\<close>), and the handles a component names capabilities with. The lemmas give
  the round trips of every encoding and the algebra of rights.
\<close>

subsection \<open>Capability types\<close>

datatype CapType = Untyped | Frame | AddressSpace | Channel | Endpoint | Irq | BufferSet

definition CapType_from_wire :: "u8 \<Rightarrow> CapType option" where
  "CapType_from_wire v =
     (if v = 1 then Some Untyped
      else if v = 2 then Some Frame
      else if v = 3 then Some AddressSpace
      else if v = 4 then Some Channel
      else if v = 5 then Some Endpoint
      else if v = 6 then Some Irq
      else if v = 7 then Some BufferSet
      else None)"

fun CapType_to_wire :: "CapType \<Rightarrow> u8" where
  "CapType_to_wire Untyped = 1"
| "CapType_to_wire Frame = 2"
| "CapType_to_wire AddressSpace = 3"
| "CapType_to_wire Channel = 4"
| "CapType_to_wire Endpoint = 5"
| "CapType_to_wire Irq = 6"
| "CapType_to_wire BufferSet = 7"

fun CapType_label :: "CapType \<Rightarrow> string" where
  "CapType_label Untyped = ''untyped''"
| "CapType_label Frame = ''frame''"
| "CapType_label AddressSpace = ''space''"
| "CapType_label Channel = ''channel''"
| "CapType_label Endpoint = ''endpoint''"
| "CapType_label Irq = ''irq''"
| "CapType_label BufferSet = ''bufset''"

lemma from_wire_to_wire [simp]: "CapType_from_wire (CapType_to_wire k) = Some k"
  by (cases k) (simp_all add: CapType_from_wire_def)

lemma to_wire_from_wire: "CapType_from_wire v = Some k \<Longrightarrow> CapType_to_wire k = v"
  by (auto simp: CapType_from_wire_def split: if_splits)

lemma from_wire_0 [simp]: "CapType_from_wire 0 = None"
  by (simp add: CapType_from_wire_def)

subsection \<open>Rights\<close>

definition rights_READ :: u8 where "rights_READ = push_bit 0 1"
definition rights_WRITE :: u8 where "rights_WRITE = push_bit 1 1"
definition rights_EXECUTE :: u8 where "rights_EXECUTE = push_bit 2 1"
definition rights_DERIVE :: u8 where "rights_DERIVE = push_bit 3 1"
definition rights_REVOKE :: u8 where "rights_REVOKE = push_bit 4 1"
definition rights_GRANT :: u8 where "rights_GRANT = push_bit 5 1"

definition rights_ALL :: u8 where
  "rights_ALL = rights_READ OR rights_WRITE OR rights_EXECUTE OR rights_DERIVE
     OR rights_REVOKE OR rights_GRANT"

definition rights_NONE :: u8 where "rights_NONE = 0"

definition rights_holds :: "u8 \<Rightarrow> u8 \<Rightarrow> bool" where
  "rights_holds held asked \<longleftrightarrow> held AND asked = asked"

definition rights_narrows :: "u8 \<Rightarrow> u8 \<Rightarrow> bool" where
  "rights_narrows parent child \<longleftrightarrow> child AND NOT parent = 0"

definition rights_unknown :: "u8 \<Rightarrow> bool" where
  "rights_unknown bits \<longleftrightarrow> bits AND NOT rights_ALL \<noteq> 0"

lemmas rights_consts = rights_READ_def rights_WRITE_def rights_EXECUTE_def rights_DERIVE_def
  rights_REVOKE_def rights_GRANT_def rights_ALL_def rights_NONE_def

lemma rights_holds_iff: "rights_holds h a \<longleftrightarrow> (\<forall>n. bit a n \<longrightarrow> bit h n)"
  by (simp add: rights_holds_def and_eq_self_iff)

lemma rights_narrows_iff: "rights_narrows p c \<longleftrightarrow> (\<forall>n. bit c n \<longrightarrow> bit p n)"
  by (simp add: rights_narrows_def and_not_eq_0_iff)

text \<open>The two questions asked of a pair of rights are one relation read in two directions.\<close>

lemma rights_holds_narrows: "rights_holds h a \<longleftrightarrow> rights_narrows h a"
  by (simp add: rights_holds_iff rights_narrows_iff)

lemma rights_narrows_refl [simp]: "rights_narrows r r"
  by (simp add: rights_narrows_iff)

lemma rights_narrows_trans: "rights_narrows a b \<Longrightarrow> rights_narrows b c \<Longrightarrow> rights_narrows a c"
  by (simp add: rights_narrows_iff)

lemma rights_narrows_none [simp]: "rights_narrows p rights_NONE"
  by (simp add: rights_narrows_def rights_NONE_def)

lemma rights_holds_narrows_trans:
  "rights_narrows p c \<Longrightarrow> rights_holds c asked \<Longrightarrow> rights_holds p asked"
  by (simp add: rights_holds_iff rights_narrows_iff)

subsection \<open>Handles\<close>

datatype Handle = Handle (Handle_bits: u32)

definition Handle_NULL :: Handle where "Handle_NULL = Handle 0"
definition Handle_FIRST_GENERATION :: u16 where "Handle_FIRST_GENERATION = 1"
definition Handle_RETIRED_GENERATION :: u16 where "Handle_RETIRED_GENERATION = - 1"

definition Handle_new :: "u16 \<Rightarrow> u16 \<Rightarrow> Handle" where
  "Handle_new index generation = Handle (push_bit 16 (ucast generation) OR ucast index)"

definition Handle_from_bits :: "u32 \<Rightarrow> Handle" where
  "Handle_from_bits bits = Handle bits"

definition Handle_index :: "Handle \<Rightarrow> u16" where
  "Handle_index h = ucast (Handle_bits h AND 0xFFFF)"

definition Handle_generation :: "Handle \<Rightarrow> u16" where
  "Handle_generation h = ucast (drop_bit 16 (Handle_bits h))"

definition Handle_is_issuable :: "Handle \<Rightarrow> bool" where
  "Handle_is_issuable h \<longleftrightarrow> Handle_generation h \<noteq> 0"

text \<open>The order derived on the newtype is the order of the packed bits.\<close>

instantiation Handle :: linorder
begin

definition less_eq_Handle :: "Handle \<Rightarrow> Handle \<Rightarrow> bool" where
  "less_eq_Handle a b \<longleftrightarrow> Handle_bits a \<le> Handle_bits b"

definition less_Handle :: "Handle \<Rightarrow> Handle \<Rightarrow> bool" where
  "less_Handle a b \<longleftrightarrow> Handle_bits a < Handle_bits b"

instance
  by standard (auto simp: less_eq_Handle_def less_Handle_def intro: Handle.expand)

end

lemma mask_0xFFFF: "(0xFFFF :: u32) = mask 16"
  by (simp add: mask_eq_exp_minus_1)

lemma Handle_index_new [simp]: "Handle_index (Handle_new i g) = i"
  by (rule bit_eqI)
     (auto simp: Handle_index_def Handle_new_def mask_0xFFFF bit_simps dest: bit_imp_le_length)

lemma Handle_generation_new [simp]: "Handle_generation (Handle_new i g) = g"
  by (rule bit_eqI)
     (auto simp: Handle_generation_def Handle_new_def bit_simps dest: bit_imp_le_length)

lemma Handle_new_index_generation [simp]: "Handle_new (Handle_index h) (Handle_generation h) = h"
  by (rule Handle.expand, rule bit_eqI)
     (auto simp: Handle_index_def Handle_generation_def Handle_new_def mask_0xFFFF bit_simps)

lemma Handle_eq_iff:
  "h = h' \<longleftrightarrow> Handle_index h = Handle_index h' \<and> Handle_generation h = Handle_generation h'"
  by (metis Handle_new_index_generation)

lemma Handle_new_eq_iff [simp]: "Handle_new i g = Handle_new i' g' \<longleftrightarrow> i = i' \<and> g = g'"
  by (metis Handle_index_new Handle_generation_new)

lemma Handle_from_bits_bits [simp]: "Handle_from_bits (Handle_bits h) = h"
  by (simp add: Handle_from_bits_def)

lemma Handle_NULL_generation [simp]: "Handle_generation Handle_NULL = 0"
  by (simp add: Handle_NULL_def Handle_generation_def)

lemma Handle_NULL_not_issuable [simp]: "\<not> Handle_is_issuable Handle_NULL"
  by (simp add: Handle_is_issuable_def)

subsection \<open>Packed errors\<close>

definition error_AUTHORITY :: u8 where "error_AUTHORITY = 1"
definition error_ADMISSION :: u8 where "error_ADMISSION = 2"
definition error_RESOURCE :: u8 where "error_RESOURCE = 3"
definition error_PEER :: u8 where "error_PEER = 4"
definition error_ARGUMENT :: u8 where "error_ARGUMENT = 5"
definition error_DEVICE :: u8 where "error_DEVICE = 6"

definition authority_NO_SUCH_CAP :: u16 where "authority_NO_SUCH_CAP = 1"
definition authority_RIGHT_NOT_HELD :: u16 where "authority_RIGHT_NOT_HELD = 2"
definition authority_REVOKED :: u16 where "authority_REVOKED = 3"
definition authority_WRONG_TYPE :: u16 where "authority_WRONG_TYPE = 4"
definition admission_NOT_SCHEDULABLE :: u16 where "admission_NOT_SCHEDULABLE = 1"
definition admission_NO_CORE :: u16 where "admission_NO_CORE = 2"
definition admission_NO_BANDWIDTH :: u16 where "admission_NO_BANDWIDTH = 3"
definition admission_NOT_HELD :: u16 where "admission_NOT_HELD = 4"
definition admission_MEMORY :: u16 where "admission_MEMORY = 5"
definition resource_QUOTA_EXHAUSTED :: u16 where "resource_QUOTA_EXHAUSTED = 1"
definition resource_DEVICE_FULL :: u16 where "resource_DEVICE_FULL = 2"
definition argument_MALFORMED_HEADER :: u16 where "argument_MALFORMED_HEADER = 1"
definition argument_UNKNOWN_OPCODE :: u16 where "argument_UNKNOWN_OPCODE = 2"
definition argument_UNKNOWN_FLAG :: u16 where "argument_UNKNOWN_FLAG = 3"
definition argument_RESERVED_NOT_ZERO :: u16 where "argument_RESERVED_NOT_ZERO = 4"
definition argument_BAD_ADDRESS :: u16 where "argument_BAD_ADDRESS = 5"
definition argument_BAD_CLASS :: u16 where "argument_BAD_CLASS = 8"

lemmas error_consts = error_AUTHORITY_def error_ADMISSION_def error_RESOURCE_def error_PEER_def
  error_ARGUMENT_def error_DEVICE_def authority_NO_SUCH_CAP_def authority_RIGHT_NOT_HELD_def
  authority_REVOKED_def authority_WRONG_TYPE_def admission_NOT_SCHEDULABLE_def
  admission_NO_CORE_def admission_NO_BANDWIDTH_def admission_NOT_HELD_def admission_MEMORY_def
  resource_QUOTA_EXHAUSTED_def resource_DEVICE_FULL_def argument_MALFORMED_HEADER_def argument_UNKNOWN_OPCODE_def argument_UNKNOWN_FLAG_def
  argument_RESERVED_NOT_ZERO_def argument_BAD_ADDRESS_def argument_BAD_CLASS_def

definition error_pack :: "u8 \<Rightarrow> u16 \<Rightarrow> i32" where
  "error_pack domain code = - (push_bit 16 (uint domain) OR uint code)"

definition error_unpack :: "i32 \<Rightarrow> (u8 \<times> u16) option" where
  "error_unpack result =
     (if result \<ge> 0 then None
      else let raw = (of_int \<bar>result\<bar> :: u32)
           in Some (ucast (drop_bit 16 raw AND 0xFF), ucast (raw AND 0xFFFF)))"

lemma error_pack_arith: "error_pack d c = - (uint d * 65536 + uint c)"
proof -
  have small: "n < 16" if "bit (uint c) n" for n
    using that by (simp add: bit_uint_iff)
  have "push_bit 16 (uint d) AND uint c = 0"
  proof (rule bit_eqI)
    fix n
    show "bit (push_bit 16 (uint d) AND uint c) n = bit (0 :: int) n"
      using small [of n] by (auto simp: bit_and_iff bit_push_bit_iff)
  qed
  then have "push_bit 16 (uint d) OR uint c = push_bit 16 (uint d) + uint c"
    by (simp add: disjunctive_add_eq_or)
  then show ?thesis by (simp add: error_pack_def push_bit_eq_mult)
qed

lemma error_pack_inject: "error_pack d c = error_pack d' c' \<longleftrightarrow> d = d' \<and> c = c'"
proof
  assume "error_pack d c = error_pack d' c'"
  then have eq: "uint d * 65536 + uint c = uint d' * 65536 + uint c'"
    by (simp add: error_pack_arith)
  have b: "0 \<le> uint c" "uint c < 65536" "0 \<le> uint c'" "uint c' < 65536"
    using uint_lt2p [of c] uint_lt2p [of c'] by auto
  from eq b have "uint d = uint d'" by linarith
  with eq show "d = d' \<and> c = c'" by (simp add: word_uint_eq_iff)
qed simp

lemma error_pack_neg: "d \<noteq> 0 \<Longrightarrow> error_pack d c < 0"
proof -
  assume "d \<noteq> 0"
  then have "uint d \<noteq> 0" by (simp add: uint_0_iff)
  moreover have "0 \<le> uint d" "0 \<le> uint c" by simp_all
  ultimately have "0 < uint d * 65536 + uint c" by linarith
  then show ?thesis by (simp add: error_pack_arith)
qed

lemma mask_0xFF: "(0xFF :: u32) = mask 8"
  by (simp add: mask_eq_exp_minus_1)

lemma unpack_pack:
  assumes "d \<noteq> 0"
  shows "error_unpack (error_pack d c) = Some (d, c) \<and> error_pack d c < 0"
proof -
  have neg: "error_pack d c < 0" using assms by (rule error_pack_neg)
  let ?raw = "of_int \<bar>error_pack d c\<bar> :: u32"
  have "\<bar>error_pack d c\<bar> = push_bit 16 (uint d) OR uint c"
    using neg by (simp add: error_pack_def)
  then have raw: "?raw = of_int (push_bit 16 (uint d) OR uint c)" by simp
  have "ucast (drop_bit 16 ?raw AND 0xFF) = d"
    unfolding raw mask_0xFF by (rule bit_eqI) (auto simp: bit_simps dest: bit_imp_le_length)
  moreover have "ucast (?raw AND 0xFFFF) = c"
    unfolding raw mask_0xFFFF by (rule bit_eqI) (auto simp: bit_simps dest: bit_imp_le_length)
  ultimately show ?thesis using neg by (simp add: error_unpack_def Let_def)
qed

text \<open>
  An error code survives the register it travels in: unpacking a packed domain and code gives
  both back, and no packed error reads as success.
\<close>

theorem error_round_trip:
  assumes "d \<noteq> 0"
  shows "error_unpack (error_pack d c) = Some (d, c) \<and> error_pack d c < 0"
  using assms by (rule unpack_pack)

theorem error_round_trip_witness:
  "error_unpack (error_pack error_AUTHORITY authority_REVOKED) = Some (error_AUTHORITY, authority_REVOKED)"
  using error_round_trip [of error_AUTHORITY authority_REVOKED] by (simp add: error_AUTHORITY_def)

end
