(* ===== verification/Control.thy ===== *)
theory Control
  imports Abi_Cap
begin

text \<open>
  The control channel's state machines (\<open>src/abi/src/control.rs\<close>): what the frame owes a
  component about a capability slot (\<open>Pending\<close>), a deadline that may only move earlier
  (\<open>Promise\<close>), a value of which only the latest matters (\<open>Grade\<close>), and the completion entries
  a notice is published as. The main result is that a coalesced \<open>Pending\<close> is always exactly
  the difference between what a component has been told and what is true.
\<close>

definition NO_DEADLINE :: u64 where "NO_DEADLINE = 0"

record Cqe =
  cqe_user_data :: u64
  cqe_result :: i32
  cqe_flags :: u32
  cqe_timestamp :: u64
  cqe_ext :: u64

definition cflags_MORE :: u32 where "cflags_MORE = push_bit 0 1"
definition cflags_CANCELLED :: u32 where "cflags_CANCELLED = push_bit 1 1"
definition cflags_SHORTFALL :: u32 where "cflags_SHORTFALL = push_bit 2 1"
definition cflags_NOTICE :: u32 where "cflags_NOTICE = push_bit 3 1"

subsection \<open>Operations, notices and causes\<close>

definition op_known :: "u8 \<Rightarrow> bool" where
  "op_known opcode \<longleftrightarrow>
     opcode = 0x10 \<or> opcode = 0x11 \<or> opcode = 0x12 \<or> opcode = 0x13 \<or> opcode = 0x14
     \<or> opcode = 0x15 \<or> opcode = 0x16 \<or> opcode = 0x17 \<or> opcode = 0x18 \<or> opcode = 0x19"

definition notice_GRANTED :: i32 where "notice_GRANTED = 1"
definition notice_REVOKED :: i32 where "notice_REVOKED = 2"
definition notice_PEER_GONE :: i32 where "notice_PEER_GONE = 3"
definition notice_STOP :: i32 where "notice_STOP = 4"
definition notice_RECLAIM :: i32 where "notice_RECLAIM = 5"
definition notice_PRESSURE :: i32 where "notice_PRESSURE = 6"
definition notice_GENERATION :: i32 where "notice_GENERATION = 7"

lemmas notice_consts = notice_GRANTED_def notice_REVOKED_def notice_PEER_GONE_def
  notice_STOP_def notice_RECLAIM_def notice_PRESSURE_def notice_GENERATION_def

definition notice_known :: "i32 \<Rightarrow> bool" where
  "notice_known kind \<longleftrightarrow>
     kind = notice_GRANTED \<or> kind = notice_REVOKED \<or> kind = notice_PEER_GONE \<or> kind = notice_STOP
     \<or> kind = notice_RECLAIM \<or> kind = notice_PRESSURE \<or> kind = notice_GENERATION"

definition at_once :: "u64 \<Rightarrow> u64" where
  "at_once now = (if now = NO_DEADLINE then 1 else now)"

definition cause_FAULT :: u64 where "cause_FAULT = 1"
definition cause_EXIT :: u64 where "cause_EXIT = 2"
definition cause_STOPPED :: u64 where "cause_STOPPED = 3"
definition cause_RETIRED :: u64 where "cause_RETIRED = 4"
definition cause_TIMEDOUT :: u64 where "cause_TIMEDOUT = 5"

lemmas cause_consts = cause_FAULT_def cause_EXIT_def cause_STOPPED_def cause_RETIRED_def
  cause_TIMEDOUT_def

definition cause_pack :: "u64 \<Rightarrow> u64 \<Rightarrow> u64" where
  "cause_pack cause detail = push_bit 32 detail OR (cause AND 0xFFFFFFFF)"

definition cause_of :: "u64 \<Rightarrow> u64" where
  "cause_of packed = packed AND 0xFFFFFFFF"

definition cause_detail :: "u64 \<Rightarrow> u64" where
  "cause_detail packed = drop_bit 32 packed"

definition cause_known :: "u64 \<Rightarrow> bool" where
  "cause_known cause \<longleftrightarrow> cause = cause_FAULT \<or> cause = cause_EXIT \<or> cause = cause_STOPPED
     \<or> cause = cause_RETIRED \<or> cause = cause_TIMEDOUT"

definition cause_named_above :: "u64 \<Rightarrow> bool" where
  "cause_named_above cause \<longleftrightarrow> cause = cause_TIMEDOUT"

lemma mask_0xFFFFFFFF: "(0xFFFFFFFF :: u64) = mask 32"
  by (simp add: mask_eq_exp_minus_1)

lemma take_bit_32_u64: "x < 0x100000000 \<Longrightarrow> take_bit 32 x = x" for x :: u64
proof -
  assume "x < 0x100000000"
  then have "uint x < 2 ^ 32" by (simp add: word_less_def)
  then have "uint (take_bit 32 x) = uint x"
    by (simp add: unsigned_take_bit_eq take_bit_int_eq_self)
  then show ?thesis by (simp add: word_uint_eq_iff)
qed

lemma cause_of_pack: "cause < 0x100000000 \<Longrightarrow> cause_of (cause_pack cause detail) = cause"
proof -
  assume "cause < 0x100000000"
  then have "take_bit 32 cause = cause"
    by (simp add: take_bit_32_u64)
  moreover have "cause_of (cause_pack cause detail) = take_bit 32 cause"
    unfolding cause_of_def cause_pack_def mask_0xFFFFFFFF
    by (rule bit_eqI) (auto simp: bit_simps)
  ultimately show ?thesis by simp
qed

lemma cause_detail_pack: "detail < 0x100000000 \<Longrightarrow> cause_detail (cause_pack cause detail) = detail"
proof -
  assume "detail < 0x100000000"
  then have "take_bit 32 detail = detail"
    by (simp add: take_bit_32_u64)
  moreover have "cause_detail (cause_pack cause detail) = take_bit 32 detail"
    unfolding cause_detail_def cause_pack_def mask_0xFFFFFFFF
    by (rule bit_eqI) (auto simp: bit_simps)
  ultimately show ?thesis by simp
qed

subsection \<open>What is owed about one slot\<close>

datatype Pending = Quiet | Granted | Revoked | PeerGone | GrantedThenPeerGone

fun Pending_to_wire :: "Pending \<Rightarrow> u8" where
  "Pending_to_wire Quiet = 0"
| "Pending_to_wire Granted = 1"
| "Pending_to_wire Revoked = 2"
| "Pending_to_wire PeerGone = 3"
| "Pending_to_wire GrantedThenPeerGone = 4"

definition Pending_from_wire :: "u8 \<Rightarrow> Pending option" where
  "Pending_from_wire v =
     (if v = 0 then Some Quiet
      else if v = 1 then Some Granted
      else if v = 2 then Some Revoked
      else if v = 3 then Some PeerGone
      else if v = 4 then Some GrantedThenPeerGone
      else None)"

fun Pending_is_quiet :: "Pending \<Rightarrow> bool" where
  "Pending_is_quiet Quiet = True"
| "Pending_is_quiet _ = False"

fun Pending_granted :: "Pending \<Rightarrow> Pending" where
  "Pending_granted Quiet = Granted"
| "Pending_granted other = other"

fun Pending_revoked :: "Pending \<Rightarrow> Pending" where
  "Pending_revoked Granted = Quiet"
| "Pending_revoked GrantedThenPeerGone = Quiet"
| "Pending_revoked _ = Revoked"

fun Pending_peer_gone :: "Pending \<Rightarrow> Pending" where
  "Pending_peer_gone Granted = GrantedThenPeerGone"
| "Pending_peer_gone GrantedThenPeerGone = GrantedThenPeerGone"
| "Pending_peer_gone Revoked = Revoked"
| "Pending_peer_gone _ = PeerGone"

fun Pending_drain :: "Pending \<Rightarrow> i32 option \<times> Pending" where
  "Pending_drain Quiet = (None, Quiet)"
| "Pending_drain Granted = (Some notice_GRANTED, Quiet)"
| "Pending_drain GrantedThenPeerGone = (Some notice_GRANTED, PeerGone)"
| "Pending_drain PeerGone = (Some notice_PEER_GONE, Quiet)"
| "Pending_drain Revoked = (Some notice_REVOKED, Quiet)"

fun Pending_owed :: "Pending \<Rightarrow> nat" where
  "Pending_owed Quiet = 0"
| "Pending_owed GrantedThenPeerGone = 2"
| "Pending_owed _ = 1"

lemma Pending_from_to_wire [simp]: "Pending_from_wire (Pending_to_wire p) = Some p"
  by (cases p) (simp_all add: Pending_from_wire_def)

lemma Pending_to_wire_small: "Pending_to_wire p < 8"
  by (cases p) simp_all

lemma Pending_is_quiet_iff [simp]: "Pending_is_quiet p \<longleftrightarrow> p = Quiet"
  by (cases p) simp_all

text \<open>Draining until nothing is owed; \<open>Pending_owed\<close> drains are enough.\<close>

fun drain_list :: "nat \<Rightarrow> Pending \<Rightarrow> i32 list" where
  "drain_list 0 p = []"
| "drain_list (Suc n) p =
     (case Pending_drain p of (None, _) \<Rightarrow> [] | (Some k, q) \<Rightarrow> k # drain_list n q)"

lemma drain_owed: "Pending_drain p = (Some k, q) \<Longrightarrow> Pending_owed p = Suc (Pending_owed q)"
  by (cases p) auto

lemma drain_none: "Pending_drain p = (None, q) \<longleftrightarrow> p = Quiet \<and> q = Quiet"
  by (cases p) auto

lemma length_drain_list: "Pending_owed p \<le> n \<Longrightarrow> length (drain_list n p) = Pending_owed p"
proof (induction n arbitrary: p)
  case 0
  then show ?case by (cases p) auto
next
  case (Suc n)
  show ?case
  proof (cases "Pending_drain p")
    case (Pair k q)
    then show ?thesis
      using Suc by (cases k) (auto simp: drain_none dest: drain_owed)
  qed
qed

subsection \<open>What a component has been told, and what is true\<close>

text \<open>
  A slot as the frame sees it, beside what the component holding it has been told: whether a
  capability is there, whether a peer has ended since it was placed and the component was not told
  of it yet, and whether the notices taken so far say that the component holds the slot.
\<close>

record slot_view =
  sv_pending :: Pending
  sv_held :: bool
  sv_widowed :: bool
  sv_believed :: bool

text \<open>The frame's events on a slot, with the conditions under which the frame makes them.\<close>

inductive slot_step :: "slot_view \<Rightarrow> slot_view \<Rightarrow> bool" where
  place: "\<not> sv_held s \<Longrightarrow> Pending_is_quiet (sv_pending s) \<Longrightarrow>
    slot_step s (s\<lparr>sv_pending := Pending_granted (sv_pending s), sv_held := True, sv_widowed := False\<rparr>)"
| clear: "sv_held s \<Longrightarrow>
    slot_step s (s\<lparr>sv_pending := Pending_revoked (sv_pending s), sv_held := False, sv_widowed := False\<rparr>)"
| widow: "sv_held s \<Longrightarrow>
    slot_step s (s\<lparr>sv_pending := Pending_peer_gone (sv_pending s), sv_widowed := True\<rparr>)"
| deliver: "Pending_drain (sv_pending s) = (Some k, q) \<Longrightarrow>
    slot_step s (s\<lparr>sv_pending := q,
      sv_believed := (if k = notice_GRANTED then True else if k = notice_REVOKED then False else sv_believed s),
      sv_widowed := (if k = notice_PEER_GONE then False else sv_widowed s)\<rparr>)"

inductive slot_reachable :: "slot_view \<Rightarrow> bool" where
  start: "slot_reachable \<lparr>sv_pending = Quiet, sv_held = False, sv_widowed = False, sv_believed = False\<rparr>"
| step: "slot_reachable s \<Longrightarrow> slot_step s t \<Longrightarrow> slot_reachable t"

text \<open>
  What is owed, from the events alone. A component that was never told it holds a slot is told
  nothing of its loss; one that holds it is told of the grant before it is told of a peer's end;
  one that was told, and holds it no more, is told exactly that.
\<close>

definition notices_due :: "bool \<Rightarrow> bool \<Rightarrow> bool \<Rightarrow> i32 list" where
  "notices_due held widowed believed =
     (if held then (if believed then [] else [notice_GRANTED]) @ (if widowed then [notice_PEER_GONE] else [])
      else if believed then [notice_REVOKED] else [])"

definition slot_inv :: "slot_view \<Rightarrow> bool" where
  "slot_inv s \<longleftrightarrow>
     drain_list 2 (sv_pending s) = notices_due (sv_held s) (sv_widowed s) (sv_believed s)
     \<and> (sv_widowed s \<longrightarrow> sv_held s)"

lemma drain_list_simps [simp]:
  "drain_list 2 Quiet = []"
  "drain_list 2 Granted = [notice_GRANTED]"
  "drain_list 2 Revoked = [notice_REVOKED]"
  "drain_list 2 PeerGone = [notice_PEER_GONE]"
  "drain_list 2 GrantedThenPeerGone = [notice_GRANTED, notice_PEER_GONE]"
  by (simp_all add: numeral_2_eq_2)

lemma slot_step_inv: "slot_step s t \<Longrightarrow> slot_inv s \<Longrightarrow> slot_inv t"
proof (induction rule: slot_step.induct)
  case (place s)
  then show ?case by (auto simp: slot_inv_def notices_due_def split: if_splits)
next
  case (clear s)
  then show ?case
    by (cases "sv_pending s") (auto simp: slot_inv_def notices_due_def notice_consts split: if_splits)
next
  case (widow s)
  then show ?case
    by (cases "sv_pending s") (auto simp: slot_inv_def notices_due_def notice_consts split: if_splits)
next
  case (deliver s k q)
  then show ?case
    by (cases "sv_pending s") (auto simp: slot_inv_def notices_due_def notice_consts split: if_splits)
qed

lemma slot_reachable_inv: "slot_reachable s \<Longrightarrow> slot_inv s"
proof (induction rule: slot_reachable.induct)
  case start
  show ?case by (simp add: slot_inv_def notices_due_def)
next
  case (step s t)
  then show ?case by (blast intro: slot_step_inv)
qed

text \<open>
  C9: Coalescing loses nothing and invents nothing. However placements, revocations, peer deaths
  and deliveries interleave on a slot, the notices that draining it delivers are exactly those due:
  the grant, if the component holds the slot and was not told; after it the end of a peer, if one
  ended since and was not told; the revocation alone, if the component was told of a grant and
  holds it no more; nothing about a grant revoked before it was told. They are as many as \<open>owed\<close>
  says.
\<close>

theorem notices_tell_the_truth:
  assumes "slot_reachable s"
  shows "drain_list 2 (sv_pending s) = notices_due (sv_held s) (sv_widowed s) (sv_believed s)
    \<and> length (notices_due (sv_held s) (sv_widowed s) (sv_believed s)) = Pending_owed (sv_pending s)"
proof -
  have "Pending_owed (sv_pending s) \<le> 2" by (cases "sv_pending s") auto
  from length_drain_list [OF this] slot_reachable_inv [OF assms] show ?thesis by (simp add: slot_inv_def)
qed

lemma widowed_reachable:
  "slot_reachable \<lparr>sv_pending = Pending_peer_gone (Pending_granted Quiet), sv_held = True, sv_widowed = True,
     sv_believed = False\<rparr>"
proof -
  let ?s = "\<lparr>sv_pending = Quiet, sv_held = False, sv_widowed = False, sv_believed = False\<rparr>"
  have "slot_reachable (?s\<lparr>sv_pending := Pending_granted Quiet, sv_held := True, sv_widowed := False\<rparr>)"
    (is "slot_reachable ?t")
    using slot_reachable.step [OF slot_reachable.start slot_step.place [of ?s]] by simp
  from slot_reachable.step [OF this slot_step.widow [of ?t]] show ?thesis by simp
qed

theorem notices_tell_the_truth_witness:
  "drain_list 2 (Pending_peer_gone (Pending_granted Quiet)) = [notice_GRANTED, notice_PEER_GONE]
    \<and> Pending_owed (Pending_peer_gone (Pending_granted Quiet)) = 2"
  using notices_tell_the_truth [OF widowed_reachable] by (simp add: notices_due_def)

subsection \<open>Promises and grades\<close>

record Promise =
  promise_deadline :: u64
  promise_owed :: bool

definition Promise_NONE :: Promise where
  "Promise_NONE = \<lparr>promise_deadline = NO_DEADLINE, promise_owed = False\<rparr>"

definition Promise_promise :: "Promise \<Rightarrow> u64 \<Rightarrow> bool \<times> Promise" where
  "Promise_promise p deadline =
     (if promise_deadline p \<noteq> NO_DEADLINE \<and> deadline \<ge> promise_deadline p then (False, p)
      else (True, p\<lparr>promise_deadline := deadline, promise_owed := True\<rparr>))"

definition Promise_deadline :: "Promise \<Rightarrow> u64 option" where
  "Promise_deadline p = (if promise_deadline p = NO_DEADLINE then None else Some (promise_deadline p))"

definition Promise_drain :: "Promise \<Rightarrow> u64 option \<times> Promise" where
  "Promise_drain p =
     (if \<not> promise_owed p then (None, p)
      else (Some (promise_deadline p), p\<lparr>promise_owed := False\<rparr>))"

definition Promise_is_owed :: "Promise \<Rightarrow> bool" where
  "Promise_is_owed p = promise_owed p"

record Grade =
  grade_value :: u64
  grade_owed :: bool

definition Grade_NONE :: Grade where
  "Grade_NONE = \<lparr>grade_value = 0, grade_owed = False\<rparr>"

definition Grade_set :: "Grade \<Rightarrow> u64 \<Rightarrow> bool \<times> Grade" where
  "Grade_set g value =
     (if grade_value g = value \<and> \<not> grade_owed g then (False, g)
      else (grade_value g \<noteq> value, g\<lparr>grade_value := value, grade_owed := True\<rparr>))"

definition Grade_value :: "Grade \<Rightarrow> u64" where
  "Grade_value g = grade_value g"

definition Grade_drain :: "Grade \<Rightarrow> u64 option \<times> Grade" where
  "Grade_drain g =
     (if \<not> grade_owed g then (None, g) else (Some (grade_value g), g\<lparr>grade_owed := False\<rparr>))"

definition Grade_is_owed :: "Grade \<Rightarrow> bool" where
  "Grade_is_owed g = grade_owed g"

text \<open>
  A run of promises and publications on a promise that starts as \<open>NONE\<close>. The word \<open>NO_DEADLINE\<close> is
  also what an unset promise holds, so asking for it withdraws whatever stood; what is in force is
  the earliest of the deadlines asked for since.
\<close>

datatype promise_op = Ask u64 | Publish

fun promise_step :: "promise_op \<Rightarrow> Promise \<Rightarrow> Promise" where
  "promise_step (Ask d) p = snd (Promise_promise p d)"
| "promise_step Publish p = snd (Promise_drain p)"

definition promise_run :: "promise_op list \<Rightarrow> Promise" where
  "promise_run ops = fold promise_step ops Promise_NONE"

fun standing :: "promise_op list \<Rightarrow> u64 set \<Rightarrow> u64 set" where
  "standing [] D = D"
| "standing (Publish # ops) D = standing ops D"
| "standing (Ask d # ops) D = standing ops (if d = NO_DEADLINE then {} else insert d D)"

definition in_force :: "u64 set \<Rightarrow> u64 option" where
  "in_force D = (if D = {} then None else Some (Min D))"

lemma in_force_insert:
  "finite D \<Longrightarrow> in_force (insert d D) = Some (case in_force D of None \<Rightarrow> d | Some s \<Rightarrow> min d s)"
  by (simp add: in_force_def)

lemma promise_step_deadline:
  assumes "finite D" "Promise_deadline p = in_force D"
  shows "Promise_deadline (promise_step (Ask d) p) = in_force (if d = NO_DEADLINE then {} else insert d D)"
    "Promise_deadline (promise_step Publish p) = in_force D"
  using assms(2) [symmetric] in_force_insert [OF assms(1), of d]
  by (auto simp: Promise_promise_def Promise_drain_def Promise_deadline_def NO_DEADLINE_def in_force_def [of "{}"]
      min_def split: if_splits)

lemma promise_fold_deadline:
  "finite D \<Longrightarrow> Promise_deadline p = in_force D \<Longrightarrow>
   Promise_deadline (fold promise_step ops p) = in_force (standing ops D)"
proof (induction ops arbitrary: p D)
  case (Cons op ops)
  show ?case
  proof (cases op)
    case (Ask d)
    then show ?thesis
      using Cons.IH [OF _ promise_step_deadline(1) [OF Cons.prems, of d]] Cons.prems(1) by simp
  next
    case Publish
    then show ?thesis using Cons.IH [OF Cons.prems(1) promise_step_deadline(2) [OF Cons.prems]] by simp
  qed
qed simp

text \<open>
  From nothing promised and over any interleaving of promises with publications, the deadline in
  force is the earliest asked for since the last ask for \<open>NO_DEADLINE\<close>, which withdraws what stood;
  an ask is answered as moved exactly when nothing stood or it is earlier than what stood, and then
  the next publication carries it; a publication leaves the deadline in force and owes nothing.
\<close>

theorem promise_earliest:
  "Promise_deadline (promise_run ops) = in_force (standing ops {})
    \<and> (fst (Promise_promise (promise_run ops) d) \<longleftrightarrow>
         (case in_force (standing ops {}) of None \<Rightarrow> True | Some s \<Rightarrow> d < s))
    \<and> (fst (Promise_promise (promise_run ops) d) \<longrightarrow>
         fst (Promise_drain (promise_run (ops @ [Ask d]))) = Some d)
    \<and> Promise_deadline (promise_run (ops @ [Publish])) = Promise_deadline (promise_run ops)
    \<and> \<not> Promise_is_owed (promise_run (ops @ [Publish]))"
proof -
  have "Promise_deadline (promise_run ops) = in_force (standing ops {})"
    unfolding promise_run_def
    by (rule promise_fold_deadline) (simp_all add: Promise_deadline_def Promise_NONE_def in_force_def)
  moreover from this have "fst (Promise_promise (promise_run ops) d) \<longleftrightarrow>
      (case in_force (standing ops {}) of None \<Rightarrow> True | Some s \<Rightarrow> d < s)"
    by (auto simp: Promise_promise_def Promise_deadline_def not_le split: if_splits option.splits)
  ultimately show ?thesis
    by (auto simp: promise_run_def Promise_promise_def Promise_drain_def Promise_deadline_def Promise_is_owed_def
        split: if_splits)
qed

text \<open>An ask for \<open>NO_DEADLINE\<close> takes a standing deadline away, and says that it moved.\<close>

lemma no_deadline_withdraws:
  assumes "Promise_deadline p = Some s"
  shows "Promise_promise p NO_DEADLINE = (True, p\<lparr>promise_deadline := NO_DEADLINE, promise_owed := True\<rparr>)
    \<and> Promise_deadline (snd (Promise_promise p NO_DEADLINE)) = None"
proof -
  have "promise_deadline p \<noteq> NO_DEADLINE" using assms by (simp add: Promise_deadline_def split: if_splits)
  then have "\<not> NO_DEADLINE \<ge> promise_deadline p" by (simp add: NO_DEADLINE_def)
  then show ?thesis by (simp add: Promise_promise_def Promise_deadline_def)
qed

subsection \<open>Completion entries that are notices\<close>

definition control_entry :: "i32 \<Rightarrow> u64 \<Rightarrow> u64 \<Rightarrow> u64 \<Rightarrow> Cqe" where
  "control_entry kind handle ext timestamp =
     \<lparr>cqe_user_data = handle, cqe_result = kind, cqe_flags = cflags_NOTICE,
      cqe_timestamp = timestamp, cqe_ext = ext\<rparr>"

definition is_notice :: "Cqe \<Rightarrow> bool" where
  "is_notice cqe \<longleftrightarrow> cqe_flags cqe AND cflags_NOTICE \<noteq> 0"

definition reclaim_entry :: "u32 \<Rightarrow> u64 \<Rightarrow> u64 \<Rightarrow> Cqe" where
  "reclaim_entry core deadline timestamp =
     control_entry notice_RECLAIM (ucast core) deadline timestamp"

definition reclaim_core :: "Cqe \<Rightarrow> u32 option" where
  "reclaim_core cqe =
     (if \<not> is_notice cqe \<or> cqe_result cqe \<noteq> notice_RECLAIM then None
      else Some (ucast (cqe_user_data cqe)))"

definition reclaim_deadline :: "Cqe \<Rightarrow> u64 option" where
  "reclaim_deadline cqe =
     (if \<not> is_notice cqe \<or> cqe_result cqe \<noteq> notice_RECLAIM then None
      else Some (cqe_ext cqe))"

lemma is_notice_entry [simp]: "is_notice (control_entry k h e t)"
  by (simp add: is_notice_def control_entry_def cflags_NOTICE_def)

lemma reclaim_round_trip:
  "reclaim_core (reclaim_entry core deadline t) = Some core
   \<and> reclaim_deadline (reclaim_entry core deadline t) = Some deadline"
proof -
  have "ucast (ucast core :: u64) = core"
    by (rule bit_eqI) (auto simp: bit_simps)
  then show ?thesis
    by (simp add: reclaim_core_def reclaim_deadline_def reclaim_entry_def control_entry_def
        is_notice_def cflags_NOTICE_def)
qed

end
