(* ===== verification/Watermark.thy ===== *)
theory Watermark
  imports Prelude
begin

text \<open>
  An untyped account's watermark (\<open>src/kernel/src/watermark.rs\<close>): whether a frame may be carved,
  carving one, and giving bytes back. \<open>object + extent\<close>, read as a number rather than as a wrapped
  word, is the top of the account and never moves.
\<close>

definition carvable :: "u64 \<Rightarrow> u64 \<Rightarrow> u64 \<Rightarrow> bool" where
  "carvable object extent frame \<longleftrightarrow> extent \<ge> frame \<and> object \<le> - 1 - frame"

definition carved :: "u64 \<Rightarrow> u64 \<Rightarrow> u64 \<Rightarrow> (u64 \<times> u64) option" where
  "carved object extent frame =
     (if extent < frame then None
      else if object > - 1 - frame then None
      else Some (object + frame, extent - frame))"

definition refunded :: "u64 \<Rightarrow> u64 \<Rightarrow> u64 \<Rightarrow> u64 \<Rightarrow> (u64 \<times> u64) option" where
  "refunded object extent bytes floor =
     (if floor > - 1 - bytes then None
      else if object < floor + bytes then None
      else if extent > - 1 - bytes then None
      else Some (object - bytes, extent + bytes))"

lemma unat_max_minus: "unat (- 1 - x) = 2 ^ 64 - 1 - unat x" for x :: u64
proof -
  have "x \<le> - 1" by simp
  then show ?thesis
    by (simp add: unat_sub unsigned_minus_1_eq_mask mask_eq_exp_minus_1)
qed

lemma le_max_minus_iff: "a \<le> - 1 - b \<longleftrightarrow> unat a + unat b < 2 ^ 64" for a b :: u64
proof -
  have "unat b < 2 ^ 64" using unsigned_less [of b, where ?'a = nat] by simp
  then show ?thesis
    unfolding word_le_nat_alt unat_max_minus by linarith
qed

lemma gt_max_minus_iff: "- 1 - b < a \<longleftrightarrow> \<not> unat a + unat b < 2 ^ 64" for a b :: u64
  by (simp only: le_max_minus_iff [symmetric] not_le)

lemma carvable_iff: "carvable object extent frame \<longleftrightarrow> carved object extent frame \<noteq> None"
  by (auto simp: carvable_def carved_def not_le not_less)

lemma carved_Some_iff:
  "carved object extent frame = Some (base, left) \<longleftrightarrow>
     unat frame \<le> unat extent \<and> unat object + unat frame < 2 ^ 64
     \<and> base = object + frame \<and> left = extent - frame"
  unfolding carved_def gt_max_minus_iff
  by (auto simp: not_less word_le_nat_alt word_less_nat_alt)

lemma carved_conserves:
  assumes "carved object extent frame = Some (base, left)"
  shows "unat base = unat object + unat frame"
    and "unat left + unat frame = unat extent"
    and "unat base + unat left = unat object + unat extent"
proof -
  from assms have le: "unat frame \<le> unat extent" and lt: "unat object + unat frame < 2 ^ 64"
    and eqs: "base = object + frame" "left = extent - frame"
    by (auto simp: carved_Some_iff)
  from lt show b: "unat base = unat object + unat frame"
    unfolding eqs by (intro unat_add_no_wrap) simp
  from le show l: "unat left + unat frame = unat extent"
    unfolding eqs by (simp add: unat_sub word_le_nat_alt)
  from b l show "unat base + unat left = unat object + unat extent" by linarith
qed

lemma refunded_Some_iff:
  "refunded object extent bytes floor = Some (base, left) \<longleftrightarrow>
     unat floor + unat bytes < 2 ^ 64 \<and> unat floor + unat bytes \<le> unat object
     \<and> unat extent + unat bytes < 2 ^ 64 \<and> base = object - bytes \<and> left = extent + bytes"
proof (cases "unat floor + unat bytes < 2 ^ 64")
  case True
  then have "unat (floor + bytes) = unat floor + unat bytes"
    by (intro unat_add_no_wrap) simp
  with True show ?thesis
    unfolding refunded_def gt_max_minus_iff
    by (auto simp: not_less word_le_nat_alt word_less_nat_alt)
next
  case False
  then show ?thesis by (simp add: refunded_def gt_max_minus_iff)
qed

end
