(* ===== verification/Cap_Table.thy ===== *)
theory Cap_Table
  imports Control Watermark
begin

text \<open>
  One process's capability table (\<open>src/kernel/src/cap.rs\<close>): slots, bought pages of slots, the
  lookup every use of a capability goes through, granting, deriving, growing, and revoking in
  its three steps. This theory holds the operations; \<open>Cap_Invariant\<close>, \<open>Cap_Revocation\<close> and
  \<open>Cap_Authority\<close> hold what they keep and what they promise.

  A bought page is memory reached through a raw address. The field \<open>tbl_ram\<close> is that memory: it
  gives the slots stored at each base address, so that two pages at one address would alias here
  as they would in the kernel. Counters whose type is wider than any value the code can give them
  (\<open>grown\<close>, indices, the counts the reporting methods answer) are natural numbers.
\<close>

subsection \<open>Slots\<close>

definition FRAME_SIZE :: u64 where "FRAME_SIZE = 4096"
definition TABLE_SLOTS :: nat where "TABLE_SLOTS = 32"
definition MAX_PAGES :: nat where "MAX_PAGES = 4"

text \<open>A slot is thirty-two bytes: one, one, two, four, and three times eight.\<close>

definition SLOTS_PER_PAGE :: nat where
  "SLOTS_PER_PAGE = unat FRAME_SIZE div (1 + 1 + 2 + 4 + 8 + 8 + 8)"

definition MAX_SLOTS :: nat where
  "MAX_SLOTS = TABLE_SLOTS + MAX_PAGES * SLOTS_PER_PAGE"

definition MARK_WORDS :: nat where
  "MARK_WORDS = (MAX_SLOTS + 63) div 64"

lemma SLOTS_PER_PAGE_eq [simp, code]: "SLOTS_PER_PAGE = 128"
  by (simp add: SLOTS_PER_PAGE_def FRAME_SIZE_def)

lemma MAX_SLOTS_eq [simp, code]: "MAX_SLOTS = 544"
  by (simp add: MAX_SLOTS_def TABLE_SLOTS_def MAX_PAGES_def)

lemma MARK_WORDS_eq [simp, code]: "MARK_WORDS = 9"
  by (simp add: MARK_WORDS_def)

record Found =
  found_kind :: CapType
  found_rights :: u8
  found_object :: u64
  found_extent :: u64

record Slot =
  slot_kind :: u8
  slot_rights :: u8
  slot_generation :: u16
  slot_parent :: u32
  slot_object :: u64
  slot_extent :: u64
  slot_mapped :: u64

definition NOT_MAPPED :: u64 where "NOT_MAPPED = - 1"
definition KIND_BITS :: nat where "KIND_BITS = 5"
definition KIND_MASK :: u8 where "KIND_MASK = push_bit KIND_BITS 1 - 1"

definition Slot_fresh :: "u16 \<Rightarrow> Slot" where
  "Slot_fresh generation =
     \<lparr>slot_kind = 0, slot_rights = rights_NONE, slot_generation = generation,
      slot_parent = Handle_bits Handle_NULL, slot_object = 0, slot_extent = 0,
      slot_mapped = NOT_MAPPED\<rparr>"

definition Slot_EMPTY :: Slot where
  "Slot_EMPTY = Slot_fresh Handle_FIRST_GENERATION"

definition Slot_occupied :: "Slot \<Rightarrow> bool" where
  "Slot_occupied s \<longleftrightarrow> slot_kind s AND KIND_MASK \<noteq> 0"

definition Slot_cap_kind :: "Slot \<Rightarrow> CapType option" where
  "Slot_cap_kind s = CapType_from_wire (slot_kind s AND KIND_MASK)"

definition Slot_notice :: "Slot \<Rightarrow> Pending" where
  "Slot_notice s =
     (case Pending_from_wire (drop_bit KIND_BITS (slot_kind s)) of
        Some pending \<Rightarrow> pending | None \<Rightarrow> Quiet)"

definition Slot_set_notice :: "Pending \<Rightarrow> Slot \<Rightarrow> Slot" where
  "Slot_set_notice pending s =
     s\<lparr>slot_kind := (slot_kind s AND KIND_MASK) OR push_bit KIND_BITS (Pending_to_wire pending)\<rparr>"

definition Slot_set_kind :: "u8 \<Rightarrow> Slot \<Rightarrow> Slot" where
  "Slot_set_kind kind s =
     s\<lparr>slot_kind := (slot_kind s AND NOT KIND_MASK) OR (kind AND KIND_MASK)\<rparr>"

subsection \<open>The marks of a revocation\<close>

record Condemned =
  cond_words :: "u64 list"
  cond_cursor :: nat

definition Condemned_NONE :: Condemned where
  "Condemned_NONE = \<lparr>cond_words = replicate MARK_WORDS 0, cond_cursor = 0\<rparr>"

definition Condemned_holds :: "Condemned \<Rightarrow> nat \<Rightarrow> bool" where
  "Condemned_holds c index =
     (case get_at (cond_words c) (index div 64) of
        None \<Rightarrow> False
      | Some word \<Rightarrow> word AND push_bit (index mod 64) 1 \<noteq> 0)"

definition Condemned_mark :: "nat \<Rightarrow> Condemned \<Rightarrow> Condemned" where
  "Condemned_mark index c =
     (case get_at (cond_words c) (index div 64) of
        None \<Rightarrow> c
      | Some word \<Rightarrow>
          c\<lparr>cond_words := (cond_words c)[index div 64 := word OR push_bit (index mod 64) 1]\<rparr>)"

subsection \<open>The table and its slots\<close>

record Table =
  tbl_slots :: "Slot list"
  tbl_pages :: "u64 list"
  tbl_grown :: nat
  tbl_floor :: u16
  tbl_posts_notices :: bool
  tbl_stop :: Promise
  tbl_pressure :: Grade
  tbl_generation :: Grade
  tbl_ram :: "u64 \<Rightarrow> Slot list"

definition Table_EMPTY :: "(u64 \<Rightarrow> Slot list) \<Rightarrow> Table" where
  "Table_EMPTY ram =
     \<lparr>tbl_slots = replicate TABLE_SLOTS Slot_EMPTY, tbl_pages = replicate MAX_PAGES 0,
      tbl_grown = 0, tbl_floor = Handle_FIRST_GENERATION, tbl_posts_notices = False,
      tbl_stop = Promise_NONE, tbl_pressure = Grade_NONE, tbl_generation = Grade_NONE,
      tbl_ram = ram\<rparr>"

definition Table_capacity :: "Table \<Rightarrow> nat" where
  "Table_capacity t = TABLE_SLOTS + tbl_grown t * SLOTS_PER_PAGE"

definition Table_at :: "Table \<Rightarrow> nat \<Rightarrow> Slot option" where
  "Table_at t index =
     (if index < TABLE_SLOTS then get_at (tbl_slots t) index
      else
        let above = index - TABLE_SLOTS; page = above div SLOTS_PER_PAGE in
        if page \<ge> tbl_grown t then None
        else case get_at (tbl_pages t) page of
               None \<Rightarrow> None
             | Some base \<Rightarrow> get_at (tbl_ram t base) (above mod SLOTS_PER_PAGE))"

text \<open>
  Writing a slot through \<open>at_mut\<close>. Where \<open>at_mut\<close> answers \<open>None\<close> its callers do not write, and
  neither does this.
\<close>

definition Table_at_mut :: "nat \<Rightarrow> Slot \<Rightarrow> Table \<Rightarrow> Table" where
  "Table_at_mut index s t =
     (if index < TABLE_SLOTS then t\<lparr>tbl_slots := (tbl_slots t)[index := s]\<rparr>
      else
        let above = index - TABLE_SLOTS; page = above div SLOTS_PER_PAGE in
        if page \<ge> tbl_grown t then t
        else case get_at (tbl_pages t) page of
               None \<Rightarrow> t
             | Some base \<Rightarrow>
                 t\<lparr>tbl_ram := (tbl_ram t)
                     (base := (tbl_ram t base)[above mod SLOTS_PER_PAGE := s])\<rparr>)"

definition no_such :: i32 where
  "no_such = error_pack error_AUTHORITY authority_NO_SUCH_CAP"

definition exhausted :: i32 where
  "exhausted = error_pack error_RESOURCE resource_QUOTA_EXHAUSTED"

definition revoked :: i32 where
  "revoked = error_pack error_AUTHORITY authority_REVOKED"

definition wrong_type :: i32 where
  "wrong_type = error_pack error_AUTHORITY authority_WRONG_TYPE"

definition right_not_held :: i32 where
  "right_not_held = error_pack error_AUTHORITY authority_RIGHT_NOT_HELD"

definition unknown_flag :: i32 where
  "unknown_flag = error_pack error_ARGUMENT argument_UNKNOWN_FLAG"

definition bad_address :: i32 where
  "bad_address = error_pack error_ARGUMENT argument_BAD_ADDRESS"

lemmas cap_errors = no_such_def exhausted_def revoked_def wrong_type_def right_not_held_def
  unknown_flag_def bad_address_def

subsection \<open>Looking a handle up\<close>

definition Table_slot :: "Table \<Rightarrow> nat \<Rightarrow> i32 + Slot" where
  "Table_slot t index = ok_or (Table_at t index) no_such"

definition Table_resolve_at :: "Table \<Rightarrow> nat \<Rightarrow> Handle \<Rightarrow> i32 + nat" where
  "Table_resolve_at t index handle =
     and_then (Table_slot t index) (\<lambda>s.
       if Handle_generation handle \<noteq> slot_generation s then
         Inl (if Handle_generation handle < slot_generation s then revoked else no_such)
       else if \<not> Slot_occupied s then Inl no_such
       else Inr index)"

definition Table_resolve :: "Table \<Rightarrow> Handle \<Rightarrow> i32 + nat" where
  "Table_resolve t handle =
     (if \<not> Handle_is_issuable handle then Inl no_such
      else
        let index = unat (Handle_index handle) in
        if index \<ge> Table_capacity t then Inl no_such
        else Table_resolve_at t index handle)"

definition Table_inspect :: "Table \<Rightarrow> Handle \<Rightarrow> i32 + Found" where
  "Table_inspect t handle =
     and_then (Table_resolve t handle) (\<lambda>index.
     and_then (Table_slot t index) (\<lambda>s.
     and_then (ok_or (Slot_cap_kind s) no_such) (\<lambda>kind.
       Inr \<lparr>found_kind = kind, found_rights = slot_rights s, found_object = slot_object s,
            found_extent = slot_extent s\<rparr>)))"

definition Table_invoke :: "Table \<Rightarrow> Handle \<Rightarrow> CapType \<Rightarrow> u8 \<Rightarrow> i32 + Found" where
  "Table_invoke t handle kind asked =
     and_then (Table_inspect t handle) (\<lambda>found.
       if found_kind found \<noteq> kind then Inl wrong_type
       else if \<not> rights_holds (found_rights found) asked then Inl right_not_held
       else Inr found)"

definition Table_invoke_any :: "Table \<Rightarrow> Handle \<Rightarrow> u8 \<Rightarrow> i32 + Found" where
  "Table_invoke_any t handle asked =
     and_then (Table_inspect t handle) (\<lambda>found.
       if \<not> rights_holds (found_rights found) asked then Inl right_not_held
       else Inr found)"

definition Table_used :: "Table \<Rightarrow> nat" where
  "Table_used t =
     length (filter (\<lambda>index. case Table_at t index of None \<Rightarrow> False | Some s \<Rightarrow> Slot_occupied s)
       [0..<Table_capacity t])"

definition Table_retired :: "Table \<Rightarrow> nat" where
  "Table_retired t =
     length (filter (\<lambda>index. case Table_at t index of
         None \<Rightarrow> False
       | Some s \<Rightarrow> \<not> Slot_occupied s \<and> slot_generation s = Handle_RETIRED_GENERATION)
       [0..<Table_capacity t])"

subsection \<open>Placing a capability\<close>

definition Table_vacancy :: "Table \<Rightarrow> nat option" where
  "Table_vacancy t =
     List.find (\<lambda>index. case Table_at t index of
         None \<Rightarrow> False
       | Some s \<Rightarrow> \<not> Slot_occupied s \<and> slot_generation s \<noteq> Handle_RETIRED_GENERATION
           \<and> Pending_is_quiet (Slot_notice s))
       [0..<Table_capacity t]"

definition Slot_place :: "bool \<Rightarrow> CapType \<Rightarrow> u8 \<Rightarrow> u64 \<Rightarrow> u64 \<Rightarrow> Handle \<Rightarrow> Slot \<Rightarrow> Slot" where
  "Slot_place owes kind rights object extent parent s =
     (let s1 = (Slot_set_kind (CapType_to_wire kind) s)
            \<lparr>slot_rights := rights, slot_object := object, slot_extent := extent,
             slot_parent := Handle_bits parent, slot_mapped := NOT_MAPPED\<rparr>
      in if owes then Slot_set_notice (Pending_granted (Slot_notice s1)) s1 else s1)"

definition Table_place ::
  "CapType \<Rightarrow> u8 \<Rightarrow> u64 \<Rightarrow> u64 \<Rightarrow> Handle \<Rightarrow> Table \<Rightarrow> (i32 + Handle) \<times> Table" where
  "Table_place kind rights object extent parent t =
     (case Table_vacancy t of
        None \<Rightarrow> (Inl exhausted, t)
      | Some index \<Rightarrow>
          (case Table_at t index of
             None \<Rightarrow> (Inl exhausted, t)
           | Some s \<Rightarrow>
               (Inr (Handle_new (of_nat index) (slot_generation s)),
                Table_at_mut index
                  (Slot_place (tbl_posts_notices t) kind rights object extent parent s) t)))"

definition Table_grant :: "CapType \<Rightarrow> u8 \<Rightarrow> u64 \<Rightarrow> u64 \<Rightarrow> Table \<Rightarrow> (i32 + Handle) \<times> Table" where
  "Table_grant kind rights object extent t =
     Table_place kind rights object extent Handle_NULL t"

subsection \<open>Growing and deriving\<close>

definition account_of :: "Table \<Rightarrow> nat \<Rightarrow> bool" where
  "account_of t index =
     (case Table_at t index of
        None \<Rightarrow> False
      | Some s \<Rightarrow> Slot_occupied s \<and> Slot_cap_kind s = Some Untyped
          \<and> rights_holds (slot_rights s) rights_DERIVE
          \<and> carvable (slot_object s) (slot_extent s) FRAME_SIZE)"

definition Table_write_page :: "u64 \<Rightarrow> Table \<Rightarrow> Table" where
  "Table_write_page base t =
     t\<lparr>tbl_ram := (tbl_ram t)(base := replicate SLOTS_PER_PAGE (Slot_fresh (tbl_floor t)))\<rparr>"

definition Table_charge :: "nat \<Rightarrow> Table \<Rightarrow> Table" where
  "Table_charge account t =
     (case Table_at t account of
        None \<Rightarrow> t
      | Some s \<Rightarrow>
          (case carved (slot_object s) (slot_extent s) FRAME_SIZE of
             None \<Rightarrow> t
           | Some (next, left) \<Rightarrow>
               Table_at_mut account (s\<lparr>slot_object := next, slot_extent := left\<rparr>) t))"

definition Table_grow :: "(u64 \<Rightarrow> u64 option) \<Rightarrow> Table \<Rightarrow> (i32 + unit) \<times> Table" where
  "Table_grow reach t =
     (let page = tbl_grown t in
      if page \<ge> MAX_PAGES then (Inl exhausted, t)
      else case List.find (account_of t) [0..<Table_capacity t] of
        None \<Rightarrow> (Inl exhausted, t)
      | Some account \<Rightarrow>
          (case Table_at t account of
             None \<Rightarrow> (Inl exhausted, t)
           | Some s \<Rightarrow>
               (case reach (slot_object s) of
                  None \<Rightarrow> (Inl exhausted, t)
                | Some base \<Rightarrow>
                    let t1 = Table_write_page base t in
                    if page \<ge> length (tbl_pages t1) then (Inl exhausted, t1)
                    else
                      let t2 = t1\<lparr>tbl_pages := (tbl_pages t1)[page := base],
                                  tbl_grown := min 255 (tbl_grown t1 + 1)\<rparr>
                      in (Inr (), Table_charge account t2))))"

definition Table_retype :: "Handle \<Rightarrow> Table \<Rightarrow> (i32 + (CapType \<times> u64 \<times> u64)) \<times> Table" where
  "Table_retype handle t =
     (case Table_resolve t handle of
        Inl e \<Rightarrow> (Inl e, t)
      | Inr index \<Rightarrow>
          (case Table_at t index of
             None \<Rightarrow> (Inl no_such, t)
           | Some s \<Rightarrow>
               (case Slot_cap_kind s of
                  None \<Rightarrow> (Inl no_such, t)
                | Some kind \<Rightarrow>
                    if kind \<noteq> Untyped then (Inr (kind, slot_object s, slot_extent s), t)
                    else
                      (case carved (slot_object s) (slot_extent s) FRAME_SIZE of
                         None \<Rightarrow> (Inl exhausted, t)
                       | Some (next, left) \<Rightarrow>
                           (Inr (Frame, slot_object s, FRAME_SIZE),
                            Table_at_mut index (s\<lparr>slot_object := next, slot_extent := left\<rparr>) t)))))"

definition Table_derive ::
  "Handle \<Rightarrow> u8 \<Rightarrow> (u64 \<Rightarrow> u64 option) \<Rightarrow> Table \<Rightarrow> (i32 + Handle) \<times> Table" where
  "Table_derive handle asked reach t =
     (if rights_unknown asked then (Inl unknown_flag, t)
      else case Table_invoke_any t handle rights_DERIVE of
        Inl e \<Rightarrow> (Inl e, t)
      | Inr parent \<Rightarrow>
          if \<not> rights_narrows (found_rights parent) asked then (Inl right_not_held, t)
          else
            (case (if Table_vacancy t = None then Table_grow reach t else (Inr (), t)) of
               (Inl e, t1) \<Rightarrow> (Inl e, t1)
             | (Inr _, t1) \<Rightarrow>
                 (case Table_retype handle t1 of
                    (Inl e, t2) \<Rightarrow> (Inl e, t2)
                  | (Inr (kind, object, extent), t2) \<Rightarrow>
                      Table_place kind asked object extent handle t2)))"

subsection \<open>Revoking: condemn, read the mappings, sweep\<close>

definition Table_marked_parent :: "Table \<Rightarrow> Handle \<Rightarrow> Condemned \<Rightarrow> bool" where
  "Table_marked_parent t parent doomed =
     (let index = unat (Handle_index parent) in
      if \<not> Condemned_holds doomed index then False
      else case Table_at t index of
             None \<Rightarrow> False
           | Some s \<Rightarrow> slot_generation s = Handle_generation parent)"

fun descendants_pass ::
  "Table \<Rightarrow> Handle \<Rightarrow> nat list \<Rightarrow> Condemned \<times> bool \<Rightarrow> Condemned \<times> bool" where
  "descendants_pass t handle [] (doomed, found) = (doomed, found)"
| "descendants_pass t handle (index # rest) (doomed, found) =
     (if Condemned_holds doomed index then descendants_pass t handle rest (doomed, found)
      else case Table_at t index of
        None \<Rightarrow> descendants_pass t handle rest (doomed, found)
      | Some s \<Rightarrow>
          if \<not> Slot_occupied s then descendants_pass t handle rest (doomed, found)
          else
            let parent = Handle_from_bits (slot_parent s) in
            if \<not> Handle_is_issuable parent then descendants_pass t handle rest (doomed, found)
            else if parent = handle \<or> Table_marked_parent t parent doomed then
              descendants_pass t handle rest (Condemned_mark index doomed, True)
            else descendants_pass t handle rest (doomed, found))"

text \<open>
  The loop of \<open>descendants\<close> repeats the pass until one finds nothing. It ends because every
  repeating pass has set a bit; the condition that the bitmap has a bit for every slot holds of
  every table the kernel can build (\<open>MAX_SLOTS\<close> bits, by the assertions beside the constants), and
  \<open>descendants_loop_unfold\<close> in \<open>Cap_Revocation\<close> gives the source's equation for those.
\<close>

definition bitmap_covers :: "Table \<Rightarrow> Condemned \<Rightarrow> bool" where
  "bitmap_covers t c \<longleftrightarrow> Table_capacity t \<le> 64 * length (cond_words c)"

lemma Condemned_holds_mark:
  "Condemned_holds (Condemned_mark i c) j \<longleftrightarrow>
     Condemned_holds c j \<or> (j = i \<and> i < 64 * length (cond_words c))"
proof (cases "get_at (cond_words c) (i div 64)")
  case None
  then have "64 * length (cond_words c) \<le> i"
    by (simp add: get_at_None_iff less_eq_div_iff_mult_less_eq mult.commute)
  with None show ?thesis by (auto simp: Condemned_mark_def)
next
  case (Some w)
  then have bound: "i div 64 < length (cond_words c)" and w: "cond_words c ! (i div 64) = w"
    by (simp_all add: get_at_Some_iff)
  have lt: "i < 64 * length (cond_words c)"
    using bound by (simp add: div_less_iff_less_mult mult.commute)
  have same: "j div 64 = i div 64 \<and> j mod 64 = i mod 64 \<longleftrightarrow> j = i"
    by (metis div_mult_mod_eq)
  show ?thesis
    using Some bound w lt same
    by (cases "j div 64 = i div 64")
       (auto simp: Condemned_holds_def Condemned_mark_def get_at_update get_at_def
        and_push_bit_ne_0_iff bit_or_push_bit_1 nth_list_update simp del: push_bit_of_1)
qed

lemma length_words_mark [simp]: "length (cond_words (Condemned_mark i c)) = length (cond_words c)"
  by (simp add: Condemned_mark_def split: option.splits)

lemma descendants_pass_length [simp]:
  "length (cond_words (fst (descendants_pass t h is (c, b)))) = length (cond_words c)"
  by (induction t h "is" "(c, b)" arbitrary: c b rule: descendants_pass.induct)
     (auto simp: Let_def split: option.splits)

lemma descendants_pass_mono:
  "Condemned_holds c j \<Longrightarrow> Condemned_holds (fst (descendants_pass t h is (c, b))) j"
  by (induction t h "is" "(c, b)" arbitrary: c b rule: descendants_pass.induct)
     (auto simp: Let_def Condemned_holds_mark split: option.splits)

lemma descendants_pass_found:
  assumes "snd (descendants_pass t h is (c, False))"
  shows "\<exists>i \<in> set is. \<not> Condemned_holds c i
    \<and> (i < 64 * length (cond_words c) \<longrightarrow> Condemned_holds (fst (descendants_pass t h is (c, False))) i)"
  using assms
proof (induction "is" arbitrary: c)
  case Nil
  then show ?case by simp
next
  case (Cons i "is")
  show ?case
  proof (cases "descendants_pass t h (i # is) (c, False) = descendants_pass t h is (c, False)")
    case True
    with Cons show ?thesis by auto
  next
    case False
    then have "\<not> Condemned_holds c i" and
      eq: "descendants_pass t h (i # is) (c, False) = descendants_pass t h is (Condemned_mark i c, True)"
      by (auto simp: Let_def split: option.splits if_splits)
    then show ?thesis
      by (auto simp: Condemned_holds_mark intro!: descendants_pass_mono)
  qed
qed

function descendants_loop :: "Table \<Rightarrow> Handle \<Rightarrow> Condemned \<Rightarrow> Condemned" where
  "descendants_loop t handle doomed =
     (let (doomed', found) = descendants_pass t handle [0..<Table_capacity t] (doomed, False) in
      if \<not> found \<or> \<not> bitmap_covers t doomed then doomed'
      else descendants_loop t handle doomed')"
  by pat_completeness auto
termination
proof (relation "measure (\<lambda>(t, h, c). card {i. i < Table_capacity t \<and> \<not> Condemned_holds c i})")
  show "wf (measure (\<lambda>(t, h :: Handle, c). card {i. i < Table_capacity t \<and> \<not> Condemned_holds c i}))"
    by simp
next
  fix t h c x c' found
  assume x: "x = descendants_pass t h [0..<Table_capacity t] (c, False)"
    and pair: "(c', found) = x" and go: "\<not> (\<not> found \<or> \<not> bitmap_covers t c)"
  have c': "c' = fst (descendants_pass t h [0..<Table_capacity t] (c, False))"
    using x pair by (metis fst_conv)
  have "snd (descendants_pass t h [0..<Table_capacity t] (c, False))"
    using x pair go by (metis snd_conv)
  then obtain i where i: "i < Table_capacity t" "\<not> Condemned_holds c i" "Condemned_holds c' i"
    using go descendants_pass_found [of t h "[0..<Table_capacity t]" c]
    by (auto simp: c' bitmap_covers_def)
  have "{i. i < Table_capacity t \<and> \<not> Condemned_holds c' i}
      \<subset> {i. i < Table_capacity t \<and> \<not> Condemned_holds c i}"
    using i descendants_pass_mono [of c _ t h "[0..<Table_capacity t]" False] c' by blast
  then show "((t, h, c'), t, h, c)
      \<in> measure (\<lambda>(t, h, c). card {i. i < Table_capacity t \<and> \<not> Condemned_holds c i})"
    by (simp add: psubset_card_mono)
qed

declare descendants_loop.simps [simp del]

definition Table_descendants :: "Table \<Rightarrow> Handle \<Rightarrow> Condemned" where
  "Table_descendants t handle = descendants_loop t handle Condemned_NONE"

definition Table_condemn :: "Table \<Rightarrow> Handle \<Rightarrow> i32 + Condemned" where
  "Table_condemn t handle =
     and_then (Table_invoke_any t handle rights_REVOKE) (\<lambda>_. Inr (Table_descendants t handle))"

definition Table_condemn_own :: "Table \<Rightarrow> Handle \<Rightarrow> i32 + Condemned" where
  "Table_condemn_own t handle =
     and_then (Table_condemn t handle) (\<lambda>condemned.
     and_then (Table_resolve t handle) (\<lambda>index. Inr (Condemned_mark index condemned)))"

text \<open>The walk over the condemned mappings, as a loop on the cursor up to the capacity.\<close>

function next_mapping_loop :: "Table \<Rightarrow> Condemned \<Rightarrow> u64 option \<times> Condemned" where
  "next_mapping_loop t c =
     (if cond_cursor c < Table_capacity t then
        let index = cond_cursor c; c1 = c\<lparr>cond_cursor := cond_cursor c + 1\<rparr> in
        if \<not> Condemned_holds c1 index then next_mapping_loop t c1
        else case Table_at t index of
               None \<Rightarrow> next_mapping_loop t c1
             | Some s \<Rightarrow>
                 if slot_mapped s \<noteq> NOT_MAPPED then (Some (slot_mapped s), c1)
                 else next_mapping_loop t c1
      else (None, c))"
  by pat_completeness auto
termination
  by (relation "measure (\<lambda>(t, c). Table_capacity t - cond_cursor c)") auto

declare next_mapping_loop.simps [simp del]

definition Table_next_mapping :: "Table \<Rightarrow> Condemned \<Rightarrow> u64 option \<times> Condemned" where
  "Table_next_mapping t c = next_mapping_loop t c"

definition Slot_clear :: "bool \<Rightarrow> Slot \<Rightarrow> Slot" where
  "Slot_clear owes s =
     (let s1 = (if owes then Slot_set_notice (Pending_revoked (Slot_notice s)) s else s)
      in (Slot_set_kind 0 s1)
           \<lparr>slot_rights := rights_NONE, slot_object := 0, slot_extent := 0,
            slot_parent := Handle_bits Handle_NULL, slot_mapped := NOT_MAPPED,
            slot_generation := saturating_add (slot_generation s1) 1\<rparr>)"

definition Table_clear :: "nat \<Rightarrow> Table \<Rightarrow> Table" where
  "Table_clear index t =
     (case Table_at t index of
        None \<Rightarrow> t
      | Some s \<Rightarrow> Table_at_mut index (Slot_clear (tbl_posts_notices t) s) t)"

fun sweep_loop :: "Condemned \<Rightarrow> nat list \<Rightarrow> nat \<times> Table \<Rightarrow> nat \<times> Table" where
  "sweep_loop c [] (count, t) = (count, t)"
| "sweep_loop c (index # rest) (count, t) =
     (if Condemned_holds c index then sweep_loop c rest (count + 1, Table_clear index t)
      else sweep_loop c rest (count, t))"

definition Table_sweep :: "Condemned \<Rightarrow> Table \<Rightarrow> nat \<times> Table" where
  "Table_sweep c t = sweep_loop c [0..<Table_capacity t] (0, t)"

definition Table_relinquish :: "Handle \<Rightarrow> Table \<Rightarrow> (i32 + nat) \<times> Table" where
  "Table_relinquish handle t =
     (case Table_condemn t handle of
        Inl e \<Rightarrow> (Inl e, t)
      | Inr condemned \<Rightarrow>
          (case Table_resolve t handle of
             Inl e \<Rightarrow> (Inl e, t)
           | Inr index \<Rightarrow>
               let (count, t1) = Table_sweep (Condemned_mark index condemned) t
               in (Inr count, t1)))"

subsection \<open>The remaining operations\<close>

definition Table_refund :: "Handle \<Rightarrow> u64 \<Rightarrow> u64 \<Rightarrow> Table \<Rightarrow> (i32 + unit) \<times> Table" where
  "Table_refund handle bytes floor t =
     (case Table_resolve t handle of
        Inl e \<Rightarrow> (Inl e, t)
      | Inr index \<Rightarrow>
          (case Table_at t index of
             None \<Rightarrow> (Inl no_such, t)
           | Some s \<Rightarrow>
               if Slot_cap_kind s \<noteq> Some Untyped then (Inl wrong_type, t)
               else
                 (case refunded (slot_object s) (slot_extent s) bytes floor of
                    None \<Rightarrow> (Inl bad_address, t)
                  | Some (object, extent) \<Rightarrow>
                      (Inr (), Table_at_mut index
                         (s\<lparr>slot_object := object, slot_extent := extent\<rparr>) t))))"

definition Table_note_mapping :: "Handle \<Rightarrow> u64 \<Rightarrow> Table \<Rightarrow> (i32 + unit) \<times> Table" where
  "Table_note_mapping handle virt t =
     (case Table_resolve t handle of
        Inl e \<Rightarrow> (Inl e, t)
      | Inr index \<Rightarrow>
          (case Table_at t index of
             None \<Rightarrow> (Inl no_such, t)
           | Some s \<Rightarrow>
               if slot_mapped s \<noteq> NOT_MAPPED then (Inl bad_address, t)
               else (Inr (), Table_at_mut index (s\<lparr>slot_mapped := virt\<rparr>) t)))"

definition Table_note_peer_gone :: "Handle \<Rightarrow> Table \<Rightarrow> (i32 + unit) \<times> Table" where
  "Table_note_peer_gone handle t =
     (case Table_resolve t handle of
        Inl e \<Rightarrow> (Inl e, t)
      | Inr index \<Rightarrow>
          (case Table_at t index of
             None \<Rightarrow> (Inl no_such, t)
           | Some s \<Rightarrow>
               (Inr (),
                if tbl_posts_notices t
                then Table_at_mut index (Slot_set_notice (Pending_peer_gone (Slot_notice s)) s) t
                else t)))"

definition Table_owes_notices :: "Table \<Rightarrow> Table" where
  "Table_owes_notices t = t\<lparr>tbl_posts_notices := True\<rparr>"

definition Table_owes :: "Table \<Rightarrow> nat" where
  "Table_owes t =
     of_bool (Promise_is_owed (tbl_stop t)) + of_bool (Grade_is_owed (tbl_pressure t))
     + of_bool (Grade_is_owed (tbl_generation t))
     + (\<Sum>index\<leftarrow>[0..<Table_capacity t].
          case Table_at t index of None \<Rightarrow> 0 | Some s \<Rightarrow> Pending_owed (Slot_notice s))"

definition Table_stop_by :: "u64 \<Rightarrow> Table \<Rightarrow> bool \<times> Table" where
  "Table_stop_by deadline t =
     (case Promise_promise (tbl_stop t) deadline of (moved, p) \<Rightarrow> (moved, t\<lparr>tbl_stop := p\<rparr>))"

definition Table_stop_deadline :: "Table \<Rightarrow> u64 option" where
  "Table_stop_deadline t = Promise_deadline (tbl_stop t)"

definition Table_pressure_is :: "u64 \<Rightarrow> Table \<Rightarrow> bool \<times> Table" where
  "Table_pressure_is grade t =
     (case Grade_set (tbl_pressure t) grade of (changed, g) \<Rightarrow> (changed, t\<lparr>tbl_pressure := g\<rparr>))"

definition Table_generation_is :: "u64 \<Rightarrow> Table \<Rightarrow> bool \<times> Table" where
  "Table_generation_is generation t =
     (case Grade_set (tbl_generation t) generation of
        (changed, g) \<Rightarrow> (changed, t\<lparr>tbl_generation := g\<rparr>))"

fun next_slot_notice_loop :: "u64 \<Rightarrow> nat list \<Rightarrow> Table \<Rightarrow> Cqe option \<times> Table" where
  "next_slot_notice_loop timestamp [] t = (None, t)"
| "next_slot_notice_loop timestamp (index # rest) t =
     (case Table_at t index of
        None \<Rightarrow> (None, t)
      | Some s \<Rightarrow>
          (case Pending_drain (Slot_notice s) of
             (None, _) \<Rightarrow> next_slot_notice_loop timestamp rest t
           | (Some kind, next) \<Rightarrow>
               (Some (control_entry kind
                  (ucast (Handle_bits (Handle_new (of_nat index) (slot_generation s)))) 0 timestamp),
                Table_at_mut index (Slot_set_notice next s) t)))"

definition Table_next_slot_notice :: "u64 \<Rightarrow> Table \<Rightarrow> Cqe option \<times> Table" where
  "Table_next_slot_notice timestamp t =
     next_slot_notice_loop timestamp [0..<Table_capacity t] t"

definition Table_next_stop_notice :: "Handle \<Rightarrow> u64 \<Rightarrow> Table \<Rightarrow> Cqe option \<times> Table" where
  "Table_next_stop_notice ring timestamp t =
     (case Promise_drain (tbl_stop t) of
        (Some deadline, p) \<Rightarrow>
          (Some (control_entry notice_STOP (ucast (Handle_bits ring)) deadline timestamp),
           t\<lparr>tbl_stop := p\<rparr>)
      | (None, p) \<Rightarrow> (None, t\<lparr>tbl_stop := p\<rparr>))"

definition Table_next_grade_notice :: "u64 \<Rightarrow> Table \<Rightarrow> Cqe option \<times> Table" where
  "Table_next_grade_notice timestamp t =
     (case Grade_drain (tbl_pressure t) of
        (Some grade, g) \<Rightarrow>
          (Some (control_entry notice_PRESSURE 0 grade timestamp), t\<lparr>tbl_pressure := g\<rparr>)
      | (None, g) \<Rightarrow>
          (let t1 = t\<lparr>tbl_pressure := g\<rparr> in
           case Grade_drain (tbl_generation t1) of
             (Some generation, g') \<Rightarrow>
               (Some (control_entry notice_GENERATION 0 generation timestamp),
                t1\<lparr>tbl_generation := g'\<rparr>)
           | (None, g') \<Rightarrow> (None, t1\<lparr>tbl_generation := g'\<rparr>)))"

fun clear_occupied :: "nat list \<Rightarrow> Table \<Rightarrow> Table" where
  "clear_occupied [] t = t"
| "clear_occupied (index # rest) t =
     clear_occupied rest
       (if (case Table_at t index of None \<Rightarrow> False | Some s \<Rightarrow> Slot_occupied s)
        then Table_clear index t else t)"

fun raise_floor :: "nat list \<Rightarrow> Table \<Rightarrow> Table" where
  "raise_floor [] t = t"
| "raise_floor (index # rest) t =
     raise_floor rest
       (t\<lparr>tbl_floor := max (tbl_floor t)
            (case Table_at t index of None \<Rightarrow> tbl_floor t | Some s \<Rightarrow> slot_generation s)\<rparr>)"

definition Table_clear_all :: "Table \<Rightarrow> Table" where
  "Table_clear_all t =
     (let t1 = clear_occupied [0..<Table_capacity t] t;
          t2 = raise_floor [TABLE_SLOTS..<Table_capacity t1] t1;
          t3 = t2\<lparr>tbl_pages := replicate MAX_PAGES 0, tbl_grown := 0\<rparr>
      in t3\<lparr>tbl_slots := map (Slot_set_notice Quiet) (take TABLE_SLOTS (tbl_slots t3))
                         @ drop TABLE_SLOTS (tbl_slots t3),
            tbl_posts_notices := False, tbl_stop := Promise_NONE,
            tbl_pressure := Grade_NONE, tbl_generation := Grade_NONE\<rparr>)"

end
