(* ===== verification/Cap_Invariant.thy ===== *)
theory Cap_Invariant
  imports Cap_Table
begin

text \<open>
  What every operation of the capability table keeps: the shape of the table and of its pages,
  slots that are never issued at the null or the retired generation, and the relation \<open>evolves\<close>,
  which says that generations only go up and that a capability's type, rights and parent never
  change while its generation stands.
\<close>

subsection \<open>The packed type byte\<close>

lemma KIND_MASK_eq: "KIND_MASK = mask 5"
  by (simp add: KIND_MASK_def KIND_BITS_def mask_eq_exp_minus_1)

lemma kind_bits_set_kind:
  "slot_kind (Slot_set_kind k s) AND KIND_MASK = k AND KIND_MASK"
  "drop_bit KIND_BITS (slot_kind (Slot_set_kind k s)) = drop_bit KIND_BITS (slot_kind s)"
  by (rule bit_eqI; auto simp: Slot_set_kind_def KIND_MASK_eq KIND_BITS_def bit_simps
      dest: bit_imp_le_length)+

lemma Pending_wire_bits: "bit (Pending_to_wire p) n \<Longrightarrow> n < 3"
proof -
  assume b: "bit (Pending_to_wire p) n"
  have "Pending_to_wire p = take_bit 3 (Pending_to_wire p)"
    by (cases p) (simp_all add: take_bit_eq_mask mask_eq_exp_minus_1)
  with b have "bit (take_bit 3 (Pending_to_wire p)) n" by metis
  then show ?thesis by (simp add: bit_take_bit_iff)
qed

lemma kind_bits_set_notice:
  "slot_kind (Slot_set_notice p s) AND KIND_MASK = slot_kind s AND KIND_MASK"
  "drop_bit KIND_BITS (slot_kind (Slot_set_notice p s)) = Pending_to_wire p"
proof -
  show "slot_kind (Slot_set_notice p s) AND KIND_MASK = slot_kind s AND KIND_MASK"
    by (rule bit_eqI) (auto simp: Slot_set_notice_def KIND_MASK_eq KIND_BITS_def bit_simps)
  show "drop_bit KIND_BITS (slot_kind (Slot_set_notice p s)) = Pending_to_wire p"
    by (rule bit_eqI)
       (auto simp: Slot_set_notice_def KIND_MASK_eq KIND_BITS_def bit_simps
        dest: Pending_wire_bits)
qed

lemma wire_AND_mask: "CapType_to_wire k AND KIND_MASK = CapType_to_wire k"
  by (cases k) (simp_all add: KIND_MASK_def KIND_BITS_def)

lemma set_kind_simps [simp]:
  "Slot_cap_kind (Slot_set_kind (CapType_to_wire k) s) = Some k"
  "Slot_occupied (Slot_set_kind (CapType_to_wire k) s)"
  "\<not> Slot_occupied (Slot_set_kind 0 s)"
  "Slot_notice (Slot_set_kind k' s) = Slot_notice s"
  by (simp_all add: Slot_cap_kind_def Slot_occupied_def Slot_notice_def kind_bits_set_kind
      wire_AND_mask) (cases k; simp)

lemma set_notice_simps [simp]:
  "Slot_cap_kind (Slot_set_notice p s) = Slot_cap_kind s"
  "Slot_occupied (Slot_set_notice p s) = Slot_occupied s"
  "Slot_notice (Slot_set_notice p s) = p"
  by (simp_all add: Slot_cap_kind_def Slot_occupied_def Slot_notice_def kind_bits_set_notice)

lemma set_kind_fields [simp]:
  "slot_rights (Slot_set_kind k s) = slot_rights s"
  "slot_generation (Slot_set_kind k s) = slot_generation s"
  "slot_parent (Slot_set_kind k s) = slot_parent s"
  "slot_object (Slot_set_kind k s) = slot_object s"
  "slot_extent (Slot_set_kind k s) = slot_extent s"
  "slot_mapped (Slot_set_kind k s) = slot_mapped s"
  by (simp_all add: Slot_set_kind_def)

lemma set_notice_fields [simp]:
  "slot_rights (Slot_set_notice p s) = slot_rights s"
  "slot_generation (Slot_set_notice p s) = slot_generation s"
  "slot_parent (Slot_set_notice p s) = slot_parent s"
  "slot_object (Slot_set_notice p s) = slot_object s"
  "slot_extent (Slot_set_notice p s) = slot_extent s"
  "slot_mapped (Slot_set_notice p s) = slot_mapped s"
  by (simp_all add: Slot_set_notice_def)

text \<open>The type and the notice of a slot read only its first byte.\<close>

lemma slot_reads_kind [simp]:
  "Slot_occupied (s\<lparr>slot_rights := r\<rparr>) = Slot_occupied s"
  "Slot_occupied (s\<lparr>slot_generation := g\<rparr>) = Slot_occupied s"
  "Slot_occupied (s\<lparr>slot_parent := p\<rparr>) = Slot_occupied s"
  "Slot_occupied (s\<lparr>slot_object := ob\<rparr>) = Slot_occupied s"
  "Slot_occupied (s\<lparr>slot_extent := e\<rparr>) = Slot_occupied s"
  "Slot_occupied (s\<lparr>slot_mapped := m\<rparr>) = Slot_occupied s"
  "Slot_cap_kind (s\<lparr>slot_rights := r\<rparr>) = Slot_cap_kind s"
  "Slot_cap_kind (s\<lparr>slot_generation := g\<rparr>) = Slot_cap_kind s"
  "Slot_cap_kind (s\<lparr>slot_parent := p\<rparr>) = Slot_cap_kind s"
  "Slot_cap_kind (s\<lparr>slot_object := ob\<rparr>) = Slot_cap_kind s"
  "Slot_cap_kind (s\<lparr>slot_extent := e\<rparr>) = Slot_cap_kind s"
  "Slot_cap_kind (s\<lparr>slot_mapped := m\<rparr>) = Slot_cap_kind s"
  "Slot_notice (s\<lparr>slot_rights := r\<rparr>) = Slot_notice s"
  "Slot_notice (s\<lparr>slot_generation := g\<rparr>) = Slot_notice s"
  "Slot_notice (s\<lparr>slot_parent := p\<rparr>) = Slot_notice s"
  "Slot_notice (s\<lparr>slot_object := ob\<rparr>) = Slot_notice s"
  "Slot_notice (s\<lparr>slot_extent := e\<rparr>) = Slot_notice s"
  "Slot_notice (s\<lparr>slot_mapped := m\<rparr>) = Slot_notice s"
  by (simp_all add: Slot_occupied_def Slot_cap_kind_def Slot_notice_def)

lemma Slot_fresh_simps [simp]:
  "\<not> Slot_occupied (Slot_fresh g)"
  "Slot_notice (Slot_fresh g) = Quiet"
  "slot_generation (Slot_fresh g) = g"
  by (simp_all add: Slot_occupied_def Slot_notice_def Slot_fresh_def Pending_from_wire_def)

lemma Slot_place_simps [simp]:
  "Slot_cap_kind (Slot_place owes k r ob e p s) = Some k"
  "Slot_occupied (Slot_place owes k r ob e p s)"
  "slot_rights (Slot_place owes k r ob e p s) = r"
  "slot_generation (Slot_place owes k r ob e p s) = slot_generation s"
  "slot_parent (Slot_place owes k r ob e p s) = Handle_bits p"
  "slot_object (Slot_place owes k r ob e p s) = ob"
  "slot_extent (Slot_place owes k r ob e p s) = e"
  "slot_mapped (Slot_place owes k r ob e p s) = NOT_MAPPED"
  by (simp_all add: Slot_place_def Let_def)

lemma Slot_place_notice:
  "Slot_notice (Slot_place owes k r ob e p s) =
     (if owes then Pending_granted (Slot_notice s) else Slot_notice s)"
  by (simp add: Slot_place_def Let_def)

lemma Slot_clear_simps [simp]:
  "\<not> Slot_occupied (Slot_clear owes s)"
  "slot_rights (Slot_clear owes s) = rights_NONE"
  "slot_generation (Slot_clear owes s) = saturating_add (slot_generation s) 1"
  "slot_parent (Slot_clear owes s) = Handle_bits Handle_NULL"
  "slot_mapped (Slot_clear owes s) = NOT_MAPPED"
  by (simp_all add: Slot_clear_def Let_def)

lemma Slot_clear_notice:
  "Slot_notice (Slot_clear owes s) =
     (if owes then Pending_revoked (Slot_notice s) else Slot_notice s)"
  by (simp add: Slot_clear_def Let_def)

subsection \<open>Reading and writing slots\<close>

definition Table_shape :: "Table \<Rightarrow> bool" where
  "Table_shape t \<longleftrightarrow>
     length (tbl_slots t) = TABLE_SLOTS \<and> length (tbl_pages t) = MAX_PAGES
     \<and> tbl_grown t \<le> MAX_PAGES \<and> distinct (take (tbl_grown t) (tbl_pages t))
     \<and> (\<forall>base \<in> set (take (tbl_grown t) (tbl_pages t)). length (tbl_ram t base) = SLOTS_PER_PAGE)"

lemma page_in_set:
  assumes "Table_shape t" and "page < tbl_grown t"
  shows "tbl_pages t ! page \<in> set (take (tbl_grown t) (tbl_pages t))"
    and "page < length (tbl_pages t)"
  using assms by (auto simp: Table_shape_def in_set_conv_nth)

lemma Table_at_page:
  assumes "Table_shape t" and "\<not> i < TABLE_SLOTS"
  shows "Table_at t i =
    (let page = (i - TABLE_SLOTS) div SLOTS_PER_PAGE in
     if page < tbl_grown t
     then Some (tbl_ram t (tbl_pages t ! page) ! ((i - TABLE_SLOTS) mod SLOTS_PER_PAGE)) else None)"
  using assms page_in_set [OF assms(1)]
  by (auto simp: Table_at_def Let_def get_at_def Table_shape_def split: option.splits)

lemma page_lt_iff:
  "\<not> i < TABLE_SLOTS \<Longrightarrow> (i - TABLE_SLOTS) div SLOTS_PER_PAGE < tbl_grown t \<longleftrightarrow> i < Table_capacity t"
  by (simp add: Table_capacity_def div_less_iff_less_mult) linarith

lemma Table_at_Some_iff: "Table_shape t \<Longrightarrow> (\<exists>s. Table_at t i = Some s) \<longleftrightarrow> i < Table_capacity t"
proof (cases "i < TABLE_SLOTS")
  case True
  assume "Table_shape t"
  with True show ?thesis
    by (simp add: Table_at_def Table_capacity_def get_at_def Table_shape_def)
next
  case False
  assume "Table_shape t"
  with False show ?thesis
    by (simp add: Table_at_page Let_def page_lt_iff del: SLOTS_PER_PAGE_eq)
qed

lemma Table_at_None_iff: "Table_shape t \<Longrightarrow> Table_at t i = None \<longleftrightarrow> Table_capacity t \<le> i"
  using Table_at_Some_iff [of t i] by (metis linorder_not_less not_None_eq option.exhaust)

lemma Table_at_lt: "Table_shape t \<Longrightarrow> Table_at t i = Some s \<Longrightarrow> i < Table_capacity t"
  using Table_at_Some_iff by blast

lemma capacity_bound: "Table_shape t \<Longrightarrow> Table_capacity t \<le> MAX_SLOTS"
  by (auto simp: Table_shape_def Table_capacity_def MAX_PAGES_def TABLE_SLOTS_def)

lemma index_eq_iff:
  assumes "\<not> i < TABLE_SLOTS" and "\<not> j < TABLE_SLOTS"
  shows "(i - TABLE_SLOTS) div SLOTS_PER_PAGE = (j - TABLE_SLOTS) div SLOTS_PER_PAGE
    \<and> (i - TABLE_SLOTS) mod SLOTS_PER_PAGE = (j - TABLE_SLOTS) mod SLOTS_PER_PAGE \<longleftrightarrow> i = j"
  using assms by (metis div_mult_mod_eq le_add_diff_inverse linorder_not_less)

lemma at_mut_fields [simp]:
  "tbl_grown (Table_at_mut i s t) = tbl_grown t"
  "tbl_pages (Table_at_mut i s t) = tbl_pages t"
  "tbl_floor (Table_at_mut i s t) = tbl_floor t"
  "tbl_posts_notices (Table_at_mut i s t) = tbl_posts_notices t"
  "Table_capacity (Table_at_mut i s t) = Table_capacity t"
  by (simp_all add: Table_at_mut_def Table_capacity_def Let_def split: option.splits)

lemma at_mut_shape: "Table_shape t \<Longrightarrow> Table_shape (Table_at_mut i s t)"
  by (auto simp: Table_shape_def Table_at_mut_def Let_def split: option.splits)

text \<open>The law of slots: a write is read back at its own index and at no other.\<close>

definition page_of :: "nat \<Rightarrow> nat" where
  "page_of i = (i - TABLE_SLOTS) div SLOTS_PER_PAGE"

definition offset_of :: "nat \<Rightarrow> nat" where
  "offset_of i = (i - TABLE_SLOTS) mod SLOTS_PER_PAGE"

lemma page_offset_eq_iff:
  "\<not> i < TABLE_SLOTS \<Longrightarrow> \<not> j < TABLE_SLOTS \<Longrightarrow>
     i = j \<longleftrightarrow> page_of i = page_of j \<and> offset_of i = offset_of j"
  using index_eq_iff [of i j] by (auto simp: page_of_def offset_of_def)

lemma Table_at_page_of:
  assumes "Table_shape t" and "\<not> i < TABLE_SLOTS"
  shows "Table_at t i = (if page_of i < tbl_grown t
    then Some (tbl_ram t (tbl_pages t ! page_of i) ! offset_of i) else None)"
  using Table_at_page [OF assms] by (simp add: page_of_def offset_of_def Let_def)

lemma at_mut_page_of:
  assumes "Table_shape t" and "\<not> i < TABLE_SLOTS" and "page_of i < tbl_grown t"
  shows "Table_at_mut i s t = t\<lparr>tbl_ram := (tbl_ram t)(tbl_pages t ! page_of i :=
    (tbl_ram t (tbl_pages t ! page_of i))[offset_of i := s])\<rparr>"
  using assms page_in_set(2) [OF assms(1,3)]
  by (simp add: Table_at_mut_def get_at_def page_of_def offset_of_def Let_def)

lemma page_eq_iff:
  assumes "Table_shape t" and "p < tbl_grown t" and "q < tbl_grown t"
  shows "tbl_pages t ! p = tbl_pages t ! q \<longleftrightarrow> p = q"
proof -
  let ?ps = "take (tbl_grown t) (tbl_pages t)"
  have "distinct ?ps" and "p < length ?ps" and "q < length ?ps"
    using assms by (auto simp: Table_shape_def)
  then have "?ps ! p = ?ps ! q \<longleftrightarrow> p = q" by (rule nth_eq_iff_index_eq)
  then show ?thesis using assms by simp
qed

lemma Table_at_at_mut_page:
  assumes sh: "Table_shape t" and i: "\<not> i < TABLE_SLOTS" "page_of i < tbl_grown t"
    and j: "\<not> j < TABLE_SLOTS"
  shows "Table_at (Table_at_mut i s t) j = (if i = j then Some s else Table_at t j)"
proof (cases "page_of j < tbl_grown t")
  case pj: True
  have len: "length (tbl_ram t (tbl_pages t ! page_of i)) = SLOTS_PER_PAGE"
    using page_in_set(1) [OF sh i(2)] sh by (auto simp: Table_shape_def)
  have off: "offset_of i < SLOTS_PER_PAGE" by (simp add: offset_of_def)
  show ?thesis
  proof (cases "page_of i = page_of j")
    case True
    then have ix: "i = j \<longleftrightarrow> offset_of i = offset_of j"
      using page_offset_eq_iff [OF i(1) j] by simp
    show ?thesis
      using Table_at_page_of [OF at_mut_shape [OF sh] j, of i s] Table_at_page_of [OF sh j]
        pj True ix len off
      by (simp add: at_mut_page_of [OF sh i] nth_list_update)
  next
    case False
    then have "tbl_pages t ! page_of j \<noteq> tbl_pages t ! page_of i"
      using page_eq_iff [OF sh pj i(2)] by simp
    then show ?thesis
      using Table_at_page_of [OF at_mut_shape [OF sh] j, of i s] Table_at_page_of [OF sh j] pj False
      by (auto simp: at_mut_page_of [OF sh i])
  qed
next
  case False
  then show ?thesis
    using Table_at_page_of [OF at_mut_shape [OF sh] j, of i s] Table_at_page_of [OF sh j] i(2)
    by auto
qed

lemma Table_at_at_mut:
  assumes sh: "Table_shape t" and lt: "i < Table_capacity t"
  shows "Table_at (Table_at_mut i s t) j = (if i = j then Some s else Table_at t j)"
proof (cases "i < TABLE_SLOTS")
  case True
  then show ?thesis
    using sh by (auto simp: Table_at_def Table_at_mut_def get_at_def Table_shape_def Let_def)
next
  case i: False
  then have pi: "page_of i < tbl_grown t"
    using page_lt_iff [OF i] lt by (simp add: page_of_def)
  show ?thesis
  proof (cases "j < TABLE_SLOTS")
    case True
    then show ?thesis using i by (auto simp: at_mut_page_of [OF sh i pi] Table_at_def)
  next
    case False
    then show ?thesis using Table_at_at_mut_page [OF sh i pi] by blast
  qed
qed

subsection \<open>Well-formed tables, and how a table evolves\<close>

definition slot_ok :: "Slot \<Rightarrow> bool" where
  "slot_ok s \<longleftrightarrow> slot_generation s \<noteq> 0
     \<and> (Slot_occupied s \<longrightarrow> slot_generation s \<noteq> Handle_RETIRED_GENERATION \<and> Slot_cap_kind s \<noteq> None)"

definition Table_wf :: "Table \<Rightarrow> bool" where
  "Table_wf t \<longleftrightarrow> Table_shape t \<and> tbl_floor t \<noteq> 0
     \<and> (\<forall>i s. Table_at t i = Some s \<longrightarrow> slot_ok s)"

lemma wf_shape [intro]: "Table_wf t \<Longrightarrow> Table_shape t"
  by (simp add: Table_wf_def)

lemma wf_slot: "Table_wf t \<Longrightarrow> Table_at t i = Some s \<Longrightarrow> slot_ok s"
  by (simp add: Table_wf_def)

text \<open>
  The generation a handle must carry to name slot \<open>i\<close>, now or once the slot exists: a slot that
  has not been bought yet will start at the table's floor.
\<close>

definition gen_at :: "Table \<Rightarrow> nat \<Rightarrow> u16" where
  "gen_at t i = (case Table_at t i of None \<Rightarrow> tbl_floor t | Some s \<Rightarrow> slot_generation s)"

definition slot_evolves :: "Slot \<Rightarrow> Slot \<Rightarrow> bool" where
  "slot_evolves s s' \<longleftrightarrow> slot_generation s \<le> slot_generation s'
     \<and> (Slot_occupied s \<and> slot_generation s' = slot_generation s \<longrightarrow>
          Slot_occupied s' \<and> Slot_cap_kind s' = Slot_cap_kind s
          \<and> slot_rights s' = slot_rights s \<and> slot_parent s' = slot_parent s)"

definition evolves :: "Table \<Rightarrow> Table \<Rightarrow> bool" where
  "evolves t t' \<longleftrightarrow> (\<forall>i.
     gen_at t i \<le> gen_at t' i
     \<and> (\<forall>s. Table_at t i = Some s \<longrightarrow>
          (case Table_at t' i of
             None \<Rightarrow> Slot_occupied s \<longrightarrow> slot_generation s < gen_at t' i
           | Some s' \<Rightarrow> slot_evolves s s')))"

lemma evolves_gen: "evolves a b \<Longrightarrow> gen_at a i \<le> gen_at b i"
  by (simp add: evolves_def)

lemma evolves_None:
  "evolves a b \<Longrightarrow> Table_at a i = Some s \<Longrightarrow> Table_at b i = None \<Longrightarrow> Slot_occupied s \<Longrightarrow>
     slot_generation s < gen_at b i"
  unfolding evolves_def by (drule spec [of _ i]) auto

lemma evolves_Some:
  "evolves a b \<Longrightarrow> Table_at a i = Some s \<Longrightarrow> Table_at b i = Some s' \<Longrightarrow> slot_evolves s s'"
  unfolding evolves_def by (drule spec [of _ i]) auto

lemma slot_evolves_refl [simp]: "slot_evolves s s"
  by (simp add: slot_evolves_def)

lemma slot_evolves_trans: "slot_evolves s s' \<Longrightarrow> slot_evolves s' s'' \<Longrightarrow> slot_evolves s s''"
  by (auto simp: slot_evolves_def)

lemma evolves_refl [simp]: "evolves t t"
  by (auto simp: evolves_def split: option.splits)

lemma evolves_trans:
  assumes ab: "evolves a b" and bc: "evolves b c"
  shows "evolves a c"
  unfolding evolves_def
proof (intro allI conjI impI)
  fix i
  show le: "gen_at a i \<le> gen_at c i"
    using ab bc by (meson evolves_gen order_trans)
  have le_bc: "gen_at b i \<le> gen_at c i" using bc by (rule evolves_gen)
  fix s assume s: "Table_at a i = Some s"
  show "case Table_at c i of
      None \<Rightarrow> Slot_occupied s \<longrightarrow> slot_generation s < gen_at c i
    | Some s' \<Rightarrow> slot_evolves s s'"
  proof (cases "Table_at b i")
    case None
    have lt: "slot_generation s < gen_at c i" if "Slot_occupied s"
      using evolves_None [OF ab s None that] le_bc by (rule order_less_le_trans)
    have "slot_generation s \<le> gen_at c i" using le s by (simp add: gen_at_def)
    with lt show ?thesis by (auto simp: slot_evolves_def gen_at_def split: option.splits)
  next
    case (Some sb)
    have e: "slot_evolves s sb" using ab s Some by (rule evolves_Some)
    show ?thesis
    proof (cases "Table_at c i")
      case None
      have "slot_generation s < gen_at c i" if "Slot_occupied s"
      proof (cases "slot_generation sb = slot_generation s")
        case True
        then have "Slot_occupied sb" using e that by (simp add: slot_evolves_def)
        then show ?thesis using evolves_None [OF bc Some None] True by simp
      next
        case False
        then have "slot_generation s < slot_generation sb"
          using e by (simp add: slot_evolves_def)
        then show ?thesis using le_bc Some by (simp add: gen_at_def)
      qed
      with None show ?thesis by simp
    next
      case (Some sc)
      have "slot_evolves sb sc" using bc \<open>Table_at b i = Some sb\<close> Some by (rule evolves_Some)
      with e Some show ?thesis by (auto intro: slot_evolves_trans)
    qed
  qed
qed

lemma evolves_at_mut:
  assumes "Table_shape t" and "Table_at t i = Some s" and "slot_evolves s s'"
  shows "evolves t (Table_at_mut i s' t)"
  using assms Table_at_at_mut [OF assms(1) Table_at_lt [OF assms(1,2)]]
  by (auto simp: evolves_def gen_at_def slot_evolves_def split: option.splits)

lemma wf_at_mut:
  assumes "Table_wf t" and "Table_at t i = Some s" and "slot_ok s'"
  shows "Table_wf (Table_at_mut i s' t)"
proof -
  have sh: "Table_shape t" using assms(1) by blast
  show ?thesis
    using assms Table_at_at_mut [OF sh Table_at_lt [OF sh assms(2)]] at_mut_shape [OF sh]
    by (auto simp: Table_wf_def split: if_splits)
qed

text \<open>Fields other than the slots do not matter to either.\<close>

lemma Table_at_cong:
  assumes "tbl_slots t' = tbl_slots t" "tbl_pages t' = tbl_pages t" "tbl_grown t' = tbl_grown t"
    "tbl_ram t' = tbl_ram t"
  shows "Table_at t' i = Table_at t i" and "Table_capacity t' = Table_capacity t"
  using assms by (simp_all add: Table_at_def Table_capacity_def Let_def split: option.splits)

lemma same_slots:
  assumes "tbl_slots t' = tbl_slots t" "tbl_pages t' = tbl_pages t" "tbl_grown t' = tbl_grown t"
    "tbl_ram t' = tbl_ram t" "tbl_floor t' = tbl_floor t"
  shows "evolves t t'" and "Table_wf t' = Table_wf t"
proof -
  have at: "Table_at t' i = Table_at t i" for i using assms by (intro Table_at_cong)
  show "evolves t t'"
    using assms at by (auto simp: evolves_def gen_at_def split: option.splits)
  show "Table_wf t' = Table_wf t"
    using assms at by (simp add: Table_wf_def Table_shape_def)
qed

subsection \<open>Every operation keeps the table well formed and only evolves it\<close>

definition keeps :: "Table \<Rightarrow> Table \<Rightarrow> bool" where
  "keeps t t' \<longleftrightarrow> Table_wf t' \<and> evolves t t'"

lemma keeps_refl [simp]: "Table_wf t \<Longrightarrow> keeps t t"
  by (simp add: keeps_def)

lemma keeps_trans: "keeps a b \<Longrightarrow> keeps b c \<Longrightarrow> keeps a c"
  by (auto simp: keeps_def intro: evolves_trans)

lemma keeps_at_mut:
  assumes "Table_wf t" and "Table_at t i = Some s" and "slot_ok s'" and "slot_evolves s s'"
  shows "keeps t (Table_at_mut i s' t)"
  using assms by (auto simp: keeps_def intro: wf_at_mut evolves_at_mut)

text \<open>A write that leaves the type byte's type, the rights, the parent and the generation alone.\<close>

lemma keeps_same_identity:
  assumes "Table_wf t" and "Table_at t i = Some s"
    and "Slot_cap_kind s' = Slot_cap_kind s" "Slot_occupied s' = Slot_occupied s"
    "slot_rights s' = slot_rights s" "slot_parent s' = slot_parent s"
    "slot_generation s' = slot_generation s"
  shows "keeps t (Table_at_mut i s' t)"
  using assms wf_slot [OF assms(1,2)]
  by (intro keeps_at_mut) (auto simp: slot_ok_def slot_evolves_def)

lemma keeps_same_slots:
  assumes "Table_wf t" "tbl_slots t' = tbl_slots t" "tbl_pages t' = tbl_pages t"
    "tbl_grown t' = tbl_grown t" "tbl_ram t' = tbl_ram t" "tbl_floor t' = tbl_floor t"
  shows "keeps t t'"
  using assms same_slots [of t' t] by (simp add: keeps_def)

lemma Table_vacancy_Some:
  "Table_vacancy t = Some i \<Longrightarrow>
     i < Table_capacity t \<and> (\<exists>s. Table_at t i = Some s \<and> \<not> Slot_occupied s
       \<and> slot_generation s \<noteq> Handle_RETIRED_GENERATION \<and> Slot_notice s = Quiet)"
  by (auto simp: Table_vacancy_def find_upt_Some_iff split: option.splits)

lemma keeps_place:
  assumes "Table_wf t" and "Table_place k r ob e p t = (res, t')"
  shows "keeps t t'"
proof (cases "Table_vacancy t")
  case None
  with assms show ?thesis by (simp add: Table_place_def)
next
  case (Some i)
  then obtain s where s: "Table_at t i = Some s" "\<not> Slot_occupied s"
    "slot_generation s \<noteq> Handle_RETIRED_GENERATION"
    using Table_vacancy_Some by blast
  have "slot_ok s" using assms(1) s(1) by (rule wf_slot)
  then have "keeps t (Table_at_mut i (Slot_place (tbl_posts_notices t) k r ob e p s) t)"
    using s by (intro keeps_at_mut [OF assms(1)]) (auto simp: slot_ok_def slot_evolves_def)
  with assms(2) Some s show ?thesis by (auto simp: Table_place_def)
qed

lemma keeps_grant: "Table_wf t \<Longrightarrow> Table_grant k r ob e t = (res, t') \<Longrightarrow> keeps t t'"
  by (simp add: Table_grant_def keeps_place)

lemma keeps_charge: "Table_wf t \<Longrightarrow> keeps t (Table_charge i t)"
  by (auto simp: Table_charge_def intro!: keeps_same_identity split: option.splits)

lemma keeps_retype: "Table_wf t \<Longrightarrow> Table_retype h t = (res, t') \<Longrightarrow> keeps t t'"
  by (auto simp: Table_retype_def intro!: keeps_same_identity split: sum.splits option.splits if_splits)

lemma keeps_refund: "Table_wf t \<Longrightarrow> Table_refund h b f t = (res, t') \<Longrightarrow> keeps t t'"
  by (auto simp: Table_refund_def intro!: keeps_same_identity split: sum.splits option.splits if_splits)

lemma keeps_note_mapping: "Table_wf t \<Longrightarrow> Table_note_mapping h v t = (res, t') \<Longrightarrow> keeps t t'"
  by (auto simp: Table_note_mapping_def intro!: keeps_same_identity
      split: sum.splits option.splits if_splits)

lemma keeps_note_peer_gone: "Table_wf t \<Longrightarrow> Table_note_peer_gone h t = (res, t') \<Longrightarrow> keeps t t'"
  by (auto simp: Table_note_peer_gone_def intro!: keeps_same_identity
      split: sum.splits option.splits if_splits)

lemma keeps_next_slot_notice_loop:
  "Table_wf t \<Longrightarrow> next_slot_notice_loop ts is t = (res, t') \<Longrightarrow> keeps t t'"
proof (induction "is" arbitrary: res)
  case Nil
  then show ?case by simp
next
  case (Cons i "is")
  show ?case
  proof (cases "Table_at t i")
    case None
    with Cons show ?thesis by simp
  next
    case (Some s)
    with Cons show ?thesis
      by (cases "Pending_drain (Slot_notice s)")
         (auto intro!: keeps_same_identity split: option.splits)
  qed
qed

lemma keeps_next_slot_notice:
  "Table_wf t \<Longrightarrow> Table_next_slot_notice ts t = (res, t') \<Longrightarrow> keeps t t'"
  unfolding Table_next_slot_notice_def by (rule keeps_next_slot_notice_loop)

lemma keeps_signals:
  assumes "Table_wf t"
  shows "keeps t (Table_owes_notices t)"
    and "Table_stop_by d t = (b, t') \<Longrightarrow> keeps t t'"
    and "Table_pressure_is d t = (b, t') \<Longrightarrow> keeps t t'"
    and "Table_generation_is d t = (b, t') \<Longrightarrow> keeps t t'"
    and "Table_next_stop_notice h ts t = (c, t') \<Longrightarrow> keeps t t'"
    and "Table_next_grade_notice ts t = (c, t') \<Longrightarrow> keeps t t'"
  using assms
  by (auto simp: Table_owes_notices_def Table_stop_by_def Table_pressure_is_def
      Table_generation_is_def Table_next_stop_notice_def Table_next_grade_notice_def Let_def
      intro!: keeps_same_slots split: prod.splits option.splits)

lemma saturating_succ:
  fixes g :: u16
  shows "saturating_add g 1 \<noteq> 0" and "g \<noteq> - 1 \<Longrightarrow> g < saturating_add g 1"
proof -
  have g: "unat g < 65536" using unsigned_less [of g, where ?'a = nat] by simp
  have u: "unat (saturating_add g 1) = min (unat g + 1) 65535"
    by (simp add: unat_saturating_add)
  then have "unat (saturating_add g 1) \<noteq> 0" by simp
  then show "saturating_add g 1 \<noteq> 0" by force
  assume "g \<noteq> - 1"
  then have "unat g \<noteq> unat (- 1 :: u16)" by (simp add: word_unat_eq_iff)
  then have "unat g \<noteq> 65535" by (simp add: unsigned_minus_1_eq_mask mask_eq_exp_minus_1)
  with g u show "g < saturating_add g 1" by (simp add: word_less_nat_alt)
qed

lemma slot_ok_clear: "slot_ok (Slot_clear owes s)"
  using saturating_succ(1) by (simp add: slot_ok_def)

lemma clear_generation:
  "slot_ok s \<Longrightarrow> Slot_occupied s \<Longrightarrow> slot_generation s < slot_generation (Slot_clear owes s)"
  using saturating_succ(2) [of "slot_generation s"]
  by (simp add: slot_ok_def Handle_RETIRED_GENERATION_def)

lemma slot_evolves_clear: "slot_ok s \<Longrightarrow> slot_evolves s (Slot_clear owes s)"
  using clear_generation [of s owes] saturating_add_mono [of "slot_generation s" 1]
  by (auto simp: slot_evolves_def)

lemma keeps_clear: "Table_wf t \<Longrightarrow> keeps t (Table_clear i t)"
  by (auto simp: Table_clear_def intro!: keeps_at_mut slot_ok_clear slot_evolves_clear
      dest: wf_slot split: option.splits)

lemma keeps_sweep_loop: "Table_wf t \<Longrightarrow> keeps t (snd (sweep_loop c is (n, t)))"
proof (induction "is" arbitrary: n t)
  case Nil
  then show ?case by simp
next
  case (Cons i "is")
  have k: "keeps t (Table_clear i t)" using Cons.prems by (rule keeps_clear)
  then have "keeps (Table_clear i t) (snd (sweep_loop c is (n + 1, Table_clear i t)))"
    by (intro Cons.IH) (simp add: keeps_def)
  with k Cons show ?case by (auto intro: keeps_trans)
qed

lemma keeps_sweep: "Table_wf t \<Longrightarrow> Table_sweep c t = (n, t') \<Longrightarrow> keeps t t'"
  using keeps_sweep_loop [of t c "[0..<Table_capacity t]" 0] by (simp add: Table_sweep_def)

lemma keeps_relinquish: "Table_wf t \<Longrightarrow> Table_relinquish h t = (res, t') \<Longrightarrow> keeps t t'"
  by (auto simp: Table_relinquish_def split: sum.splits prod.splits intro: keeps_sweep)

subsection \<open>Growing the table\<close>

text \<open>
  What \<open>Backing::reach\<close> owes the table, for the frames this table could be charged for: memory
  that is nobody else's, and so none of the pages the table already holds.
\<close>

definition fresh_backing :: "(u64 \<Rightarrow> u64 option) \<Rightarrow> Table \<Rightarrow> bool" where
  "fresh_backing reach t \<longleftrightarrow>
     (\<forall>i < Table_capacity t. account_of t i \<longrightarrow>
        (case Table_at t i of
           None \<Rightarrow> True
         | Some s \<Rightarrow>
             (case reach (slot_object s) of
                None \<Rightarrow> True
              | Some base \<Rightarrow> base \<notin> set (take (tbl_grown t) (tbl_pages t)))))"

definition add_page :: "u64 \<Rightarrow> Table \<Rightarrow> Table" where
  "add_page base t =
     (Table_write_page base t)
       \<lparr>tbl_pages := (tbl_pages t)[tbl_grown t := base], tbl_grown := tbl_grown t + 1\<rparr>"

lemma Table_grow_cases:
  assumes "Table_shape t" and "Table_grow reach t = (res, t')"
  shows "(res = Inl exhausted \<and> t' = t) \<or>
    (\<exists>account s base. account < Table_capacity t \<and> account_of t account \<and> Table_at t account = Some s
       \<and> reach (slot_object s) = Some base \<and> tbl_grown t < MAX_PAGES
       \<and> res = Inr () \<and> t' = Table_charge account (add_page base t))"
proof -
  have lens: "length (tbl_pages t) = MAX_PAGES" "MAX_PAGES < 255"
    using assms(1) by (simp_all add: Table_shape_def MAX_PAGES_def)
  have same: "(Table_write_page base t)\<lparr>tbl_pages := (tbl_pages (Table_write_page base t))[tbl_grown t := base],
      tbl_grown := min 255 (tbl_grown (Table_write_page base t) + 1)\<rparr> = add_page base t"
    if "tbl_grown t < MAX_PAGES" for base
    using that lens by (simp add: add_page_def Table_write_page_def)
  show ?thesis
    using assms(2) lens same
    by (auto simp: Table_grow_def Let_def find_upt_Some_iff Table_write_page_def
        split: if_splits option.splits)
qed

lemma take_add_page:
  "g < length ps \<Longrightarrow> take (Suc g) (ps[g := b]) = take g ps @ [b]"
  by (simp add: take_Suc_conv_app_nth)

lemma add_page_shape:
  assumes "Table_shape t" and "tbl_grown t < MAX_PAGES"
    and "base \<notin> set (take (tbl_grown t) (tbl_pages t))"
  shows "Table_shape (add_page base t)"
  using assms
  by (auto simp: Table_shape_def add_page_def Table_write_page_def take_add_page)

lemma Table_at_add_page:
  assumes sh: "Table_shape t" and g: "tbl_grown t < MAX_PAGES"
    and fresh: "base \<notin> set (take (tbl_grown t) (tbl_pages t))"
  shows "Table_at (add_page base t) i =
    (if i < Table_capacity t then Table_at t i
     else if i < Table_capacity t + SLOTS_PER_PAGE then Some (Slot_fresh (tbl_floor t)) else None)"
proof (cases "i < TABLE_SLOTS")
  case True
  then show ?thesis
    by (simp add: Table_at_def add_page_def Table_write_page_def Table_capacity_def)
next
  case False
  have len: "tbl_grown t < length (tbl_pages t)" using sh g by (simp add: Table_shape_def)
  have at': "Table_at (add_page base t) i = (if page_of i < tbl_grown t + 1
      then Some (tbl_ram (add_page base t) (tbl_pages (add_page base t) ! page_of i) ! offset_of i)
      else None)"
    using Table_at_page_of [OF add_page_shape [OF assms] False]
    by (simp add: add_page_def Table_write_page_def)
  have lt: "page_of i < tbl_grown t \<longleftrightarrow> i < Table_capacity t"
    using page_lt_iff [OF False, of t] by (simp add: page_of_def)
  have le: "page_of i < tbl_grown t + 1 \<longleftrightarrow> i < Table_capacity t + SLOTS_PER_PAGE"
    using page_lt_iff [OF False, of "add_page base t"]
    by (simp add: page_of_def add_page_def Table_write_page_def Table_capacity_def algebra_simps)
  have off: "offset_of i < 128" by (simp add: offset_of_def)
  consider "page_of i < tbl_grown t" | "page_of i = tbl_grown t" | "page_of i > tbl_grown t"
    by linarith
  then show ?thesis
  proof cases
    case 1
    then have "tbl_pages t ! page_of i \<noteq> base"
      using fresh page_in_set(1) [OF sh 1] by auto
    with 1 show ?thesis
      using at' lt Table_at_page_of [OF sh False] len
      by (simp add: add_page_def Table_write_page_def)
  next
    case 2
    then show ?thesis
      using at' lt le len off by (simp add: add_page_def Table_write_page_def)
  next
    case 3
    then show ?thesis using at' lt le by simp
  qed
qed

lemma keeps_add_page:
  assumes wf: "Table_wf t" and g: "tbl_grown t < MAX_PAGES"
    and fresh: "base \<notin> set (take (tbl_grown t) (tbl_pages t))"
  shows "keeps t (add_page base t)"
proof -
  have sh: "Table_shape t" using wf by blast
  have floor: "tbl_floor (add_page base t) = tbl_floor t"
    by (simp add: add_page_def Table_write_page_def)
  have at: "Table_at (add_page base t) i =
    (if i < Table_capacity t then Table_at t i
     else if i < Table_capacity t + SLOTS_PER_PAGE then Some (Slot_fresh (tbl_floor t)) else None)" for i
    using sh g fresh by (rule Table_at_add_page)
  have none: "Table_at t i = None" if "\<not> i < Table_capacity t" for i
    using Table_at_None_iff [OF sh] that by (meson not_le_imp_less)
  have "slot_ok (Slot_fresh (tbl_floor t))"
    using wf by (simp add: slot_ok_def Table_wf_def)
  then have "Table_wf (add_page base t)"
    using wf add_page_shape [OF sh g fresh] floor
    by (auto simp: Table_wf_def at split: if_splits)
  moreover have "evolves t (add_page base t)"
    unfolding evolves_def gen_at_def at floor
    using none by (auto split: option.splits)
  ultimately show ?thesis by (simp add: keeps_def)
qed

lemma keeps_grow:
  assumes wf: "Table_wf t" and fresh: "fresh_backing reach t" and eq: "Table_grow reach t = (res, t')"
  shows "keeps t t'"
proof -
  have sh: "Table_shape t" using wf by blast
  from Table_grow_cases [OF sh eq] show ?thesis
  proof (elim disjE exE conjE)
    assume "t' = t"
    with wf show ?thesis by simp
  next
    fix account s base
    assume a: "account < Table_capacity t" "account_of t account" "Table_at t account = Some s"
      "reach (slot_object s) = Some base" "tbl_grown t < MAX_PAGES"
      and t': "t' = Table_charge account (add_page base t)"
    have "base \<notin> set (take (tbl_grown t) (tbl_pages t))"
      using fresh a unfolding fresh_backing_def by fastforce
    with wf a have k: "keeps t (add_page base t)" by (intro keeps_add_page)
    then have "keeps (add_page base t) t'"
      unfolding t' by (intro keeps_charge) (simp add: keeps_def)
    with k show ?thesis by (rule keeps_trans)
  qed
qed

lemma keeps_derive:
  assumes wf: "Table_wf t" and fresh: "fresh_backing reach t"
    and eq: "Table_derive h asked reach t = (res, t')"
  shows "keeps t t'"
proof -
  obtain g t1 where gt: "(if Table_vacancy t = None then Table_grow reach t else (Inr (), t)) = (g, t1)"
    by fastforce
  have k1: "keeps t t1"
    using gt keeps_grow [OF wf fresh] wf by (auto split: if_splits)
  then have wf1: "Table_wf t1" by (simp add: keeps_def)
  obtain r t2 where rt: "Table_retype h t1 = (r, t2)" by fastforce
  have k2: "keeps t t2" using k1 keeps_retype [OF wf1 rt] by (rule keeps_trans)
  then have wf2: "Table_wf t2" by (simp add: keeps_def)
  have k3: "keeps t (snd (Table_place k asked ob e h t2))" for k ob e
    using k2 keeps_place [OF wf2] by (metis keeps_trans prod.collapse)
  show ?thesis
    using eq wf k1 k2 k3 gt rt
    by (auto simp: Table_derive_def split: if_splits sum.splits prod.splits)
       (metis snd_conv)+
qed

subsection \<open>Forgetting everything\<close>

lemma Table_at_clear:
  assumes "Table_shape t"
  shows "Table_at (Table_clear i t) j =
    (if i = j then map_option (Slot_clear (tbl_posts_notices t)) (Table_at t j) else Table_at t j)"
proof (cases "Table_at t i")
  case None
  then show ?thesis by (auto simp: Table_clear_def)
next
  case (Some s)
  then show ?thesis
    using Table_at_at_mut [OF assms Table_at_lt [OF assms Some]] by (auto simp: Table_clear_def)
qed

lemma clear_fields [simp]:
  "tbl_posts_notices (Table_clear i t) = tbl_posts_notices t"
  "Table_capacity (Table_clear i t) = Table_capacity t"
  "tbl_floor (Table_clear i t) = tbl_floor t"
  by (simp_all add: Table_clear_def split: option.splits)

lemma clear_occupied_keeps:
  "Table_wf t \<Longrightarrow> keeps t (clear_occupied is t)"
proof (induction "is" arbitrary: t)
  case Nil
  then show ?case by simp
next
  case (Cons i "is")
  let ?u = "if (case Table_at t i of None \<Rightarrow> False | Some s \<Rightarrow> Slot_occupied s)
    then Table_clear i t else t"
  have k: "keeps t ?u" using Cons.prems keeps_clear by auto
  then have "keeps ?u (clear_occupied is ?u)" by (intro Cons.IH) (simp add: keeps_def)
  with k have "keeps t (clear_occupied is ?u)" by (rule keeps_trans)
  then show ?case by simp
qed

lemma clear_occupied_unoccupied:
  assumes "Table_wf t"
  shows "j \<in> set is \<or> (\<forall>s. Table_at t j = Some s \<longrightarrow> \<not> Slot_occupied s) \<Longrightarrow>
     Table_at (clear_occupied is t) j = Some s \<Longrightarrow> \<not> Slot_occupied s"
  using assms
proof (induction "is" arbitrary: t)
  case Nil
  then show ?case by auto
next
  case (Cons i "is")
  let ?u = "if (case Table_at t i of None \<Rightarrow> False | Some s \<Rightarrow> Slot_occupied s)
    then Table_clear i t else t"
  have wf: "Table_wf ?u" using Cons.prems(3) keeps_clear by (auto simp: keeps_def)
  have sh: "Table_shape t" using Cons.prems(3) by blast
  have "j \<in> set is \<or> (\<forall>s. Table_at ?u j = Some s \<longrightarrow> \<not> Slot_occupied s)"
    using Cons.prems(1) by (auto simp: Table_at_clear [OF sh] split: option.splits)
  with Cons wf show ?case by simp
qed

lemma raise_floor_eq:
  "raise_floor is t = t\<lparr>tbl_floor := tbl_floor (raise_floor is t)\<rparr>"
proof (induction "is" arbitrary: t)
  case Nil
  then show ?case by simp
next
  case (Cons i "is")
  let ?u = "t\<lparr>tbl_floor := max (tbl_floor t)
    (case Table_at t i of None \<Rightarrow> tbl_floor t | Some s \<Rightarrow> slot_generation s)\<rparr>"
  have "raise_floor (i # is) t = raise_floor is ?u" by simp
  moreover have "?u\<lparr>tbl_floor := f\<rparr> = t\<lparr>tbl_floor := f\<rparr>" for f by simp
  ultimately show ?case using Cons.IH [of ?u] by metis
qed

lemma Table_at_floor_update [simp]: "Table_at (t\<lparr>tbl_floor := f\<rparr>) i = Table_at t i"
  by (rule Table_at_cong) simp_all

lemma raise_floor_le: "tbl_floor t \<le> tbl_floor (raise_floor is t)"
proof (induction "is" arbitrary: t)
  case Nil
  then show ?case by simp
next
  case (Cons i "is")
  let ?u = "t\<lparr>tbl_floor := max (tbl_floor t)
    (case Table_at t i of None \<Rightarrow> tbl_floor t | Some s \<Rightarrow> slot_generation s)\<rparr>"
  have "tbl_floor t \<le> tbl_floor ?u" by simp
  also have "\<dots> \<le> tbl_floor (raise_floor is ?u)" by (rule Cons.IH)
  finally show ?case by simp
qed

lemma raise_floor_bound:
  "i \<in> set is \<Longrightarrow> Table_at t i = Some s \<Longrightarrow> slot_generation s \<le> tbl_floor (raise_floor is t)"
proof (induction "is" arbitrary: t)
  case Nil
  then show ?case by simp
next
  case (Cons j "is")
  let ?u = "t\<lparr>tbl_floor := max (tbl_floor t)
    (case Table_at t j of None \<Rightarrow> tbl_floor t | Some s \<Rightarrow> slot_generation s)\<rparr>"
  have eq: "raise_floor (j # is) t = raise_floor is ?u" by simp
  show ?case
  proof (cases "i = j")
    case True
    then have "slot_generation s \<le> tbl_floor ?u" using Cons.prems by simp
    also have "\<dots> \<le> tbl_floor (raise_floor is ?u)" by (rule raise_floor_le)
    finally show ?thesis unfolding eq .
  next
    case False
    then show ?thesis
      unfolding eq by (intro Cons.IH) (use Cons.prems in auto)
  qed
qed

text \<open>The table after \<open>clear_all\<close>, read slot by slot.\<close>

lemma Table_at_clear_all:
  assumes "Table_wf t"
  shows "Table_at (Table_clear_all t) i =
    (if i < TABLE_SLOTS
     then map_option (Slot_set_notice Quiet) (Table_at (clear_occupied [0..<Table_capacity t] t) i)
     else None)"
proof -
  let ?t1 = "clear_occupied [0..<Table_capacity t] t"
  have "Table_shape ?t1" using clear_occupied_keeps [OF assms] by (auto simp: keeps_def)
  then have len: "length (tbl_slots ?t1) = TABLE_SLOTS" by (simp add: Table_shape_def)
  have "tbl_slots (raise_floor is ?t1) = tbl_slots ?t1" for "is"
    by (subst raise_floor_eq) simp
  with len show ?thesis
    by (auto simp: Table_clear_all_def Table_at_def Let_def get_at_def)
qed

lemma keeps_clear_all: "Table_wf t \<Longrightarrow> keeps t (Table_clear_all t)"
proof -
  assume wf: "Table_wf t"
  let ?t1 = "clear_occupied [0..<Table_capacity t] t" and ?t' = "Table_clear_all t"
  let ?f = "tbl_floor (raise_floor [TABLE_SLOTS..<Table_capacity ?t1] ?t1)"
  have k1: "keeps t ?t1" using wf by (rule clear_occupied_keeps)
  then have wf1: "Table_wf ?t1" and sh1: "Table_shape ?t1" by (auto simp: keeps_def)
  have unocc: "\<not> Slot_occupied s" if s: "Table_at ?t1 i = Some s" for i s
  proof (cases "i < Table_capacity t")
    case True
    then show ?thesis using clear_occupied_unoccupied [OF wf _ s] by simp
  next
    case False
    then have "Table_at t i = None" using Table_at_None_iff wf by (meson not_le_imp_less wf_shape)
    then show ?thesis using clear_occupied_unoccupied [OF wf _ s] by simp
  qed
  have slots1: "tbl_slots (raise_floor is ?t1) = tbl_slots ?t1" for "is"
    by (subst raise_floor_eq) simp
  have floor': "tbl_floor ?t' = ?f" by (simp add: Table_clear_all_def Let_def)
  have f: "tbl_floor ?t1 \<le> ?f" by (rule raise_floor_le)
  then have "?f \<noteq> 0" using wf1 by (auto simp: Table_wf_def)
  have "Table_shape ?t'"
    using sh1 by (auto simp: Table_shape_def Table_clear_all_def Let_def slots1)
  moreover have "slot_ok s" if "Table_at ?t' i = Some s" for i s
    using that wf_slot [OF wf1] unocc
    by (auto simp: Table_at_clear_all [OF wf] slot_ok_def split: if_splits)
  ultimately have wf': "Table_wf ?t'"
    using \<open>?f \<noteq> 0\<close> floor' by (simp add: Table_wf_def)
  have bound: "gen_at ?t1 i \<le> ?f" if "\<not> i < TABLE_SLOTS" for i
  proof (cases "Table_at ?t1 i")
    case None
    then show ?thesis using f by (simp add: gen_at_def)
  next
    case (Some s)
    then have "i < Table_capacity ?t1" using Table_at_lt [OF sh1] by blast
    then show ?thesis using raise_floor_bound [of i _ ?t1 s] that Some by (simp add: gen_at_def)
  qed
  have "evolves ?t1 ?t'"
    unfolding evolves_def
  proof (intro allI conjI impI)
    fix i
    show "gen_at ?t1 i \<le> gen_at ?t' i"
      using bound [of i] Table_at_Some_iff [OF sh1, of i]
      by (auto simp: gen_at_def Table_at_clear_all [OF wf] floor' Table_capacity_def
          split: option.splits)
    fix s assume "Table_at ?t1 i = Some s"
    then show "case Table_at ?t' i of None \<Rightarrow> Slot_occupied s \<longrightarrow> slot_generation s < gen_at ?t' i
        | Some s' \<Rightarrow> slot_evolves s s'"
      using unocc by (auto simp: Table_at_clear_all [OF wf] slot_evolves_def split: option.splits)
  qed
  then have "evolves t ?t'" using k1 by (auto simp: keeps_def intro: evolves_trans)
  with wf' show ?thesis by (simp add: keeps_def)
qed

end
