(* ===== verification/Cap_Revocation.thy ===== *)
theory Cap_Revocation
  imports Cap_Invariant
begin

text \<open>
  What a revocation withdraws. The derivation tree is an inductive relation over the parent links
  of a table; the marks \<open>descendants\<close> computes by repeated passes are exactly that relation, and a
  sweep clears exactly the marked slots.
\<close>

subsection \<open>The derivation tree\<close>

inductive derived :: "Table \<Rightarrow> Handle \<Rightarrow> nat \<Rightarrow> bool" for t h where
  child: "Table_at t i = Some s \<Longrightarrow> Slot_occupied s \<Longrightarrow>
    Handle_from_bits (slot_parent s) = h \<Longrightarrow> Handle_is_issuable h \<Longrightarrow> derived t h i"
| descendant: "Table_at t i = Some s \<Longrightarrow> Slot_occupied s \<Longrightarrow>
    Handle_from_bits (slot_parent s) = p \<Longrightarrow> Handle_is_issuable p \<Longrightarrow>
    derived t h (unat (Handle_index p)) \<Longrightarrow> Table_at t (unat (Handle_index p)) = Some sp \<Longrightarrow>
    slot_generation sp = Handle_generation p \<Longrightarrow> derived t h i"

lemma derived_occupied: "derived t h i \<Longrightarrow> \<exists>s. Table_at t i = Some s \<and> Slot_occupied s"
  by (induction rule: derived.induct) auto

subsection \<open>The marks are the tree\<close>

definition dooms :: "Table \<Rightarrow> Handle \<Rightarrow> Condemned \<Rightarrow> nat \<Rightarrow> bool" where
  "dooms t h c i \<longleftrightarrow>
     (case Table_at t i of
        None \<Rightarrow> False
      | Some s \<Rightarrow>
          Slot_occupied s \<and> Handle_is_issuable (Handle_from_bits (slot_parent s))
          \<and> (Handle_from_bits (slot_parent s) = h
             \<or> Table_marked_parent t (Handle_from_bits (slot_parent s)) c))"

lemma descendants_pass_Cons:
  "descendants_pass t h (i # is) (c, b) =
     (if \<not> Condemned_holds c i \<and> dooms t h c i
      then descendants_pass t h is (Condemned_mark i c, True)
      else descendants_pass t h is (c, b))"
  by (auto simp: dooms_def Let_def split: option.splits)

lemma dooms_derived:
  assumes "dooms t h c i" and "\<forall>j. Condemned_holds c j \<longrightarrow> derived t h j"
  shows "derived t h i"
  using assms
  by (auto simp: dooms_def Table_marked_parent_def Let_def
      split: option.splits if_splits intro: derived.intros)

lemma descendants_pass_sound:
  assumes "\<forall>j. Condemned_holds c j \<longrightarrow> derived t h j"
  shows "Condemned_holds (fst (descendants_pass t h is (c, b))) j \<Longrightarrow> derived t h j"
  using assms
proof (induction "is" arbitrary: c b)
  case Nil
  then show ?case by simp
next
  case (Cons i "is")
  show ?case
  proof (cases "\<not> Condemned_holds c i \<and> dooms t h c i")
    case True
    then have "derived t h i" using Cons.prems(2) dooms_derived by blast
    then have "\<forall>j. Condemned_holds (Condemned_mark i c) j \<longrightarrow> derived t h j"
      using Cons.prems(2) by (auto simp: Condemned_holds_mark)
    with Cons True show ?thesis by (simp add: descendants_pass_Cons del: descendants_pass.simps)
  next
    case False
    with Cons show ?thesis by (simp add: descendants_pass_Cons del: descendants_pass.simps)
  qed
qed

lemma descendants_pass_flag: "snd (descendants_pass t h is (c, True))"
  by (induction "is" arbitrary: c) (auto simp: descendants_pass_Cons simp del: descendants_pass.simps(2))

lemma descendants_pass_quiet:
  assumes "\<not> snd (descendants_pass t h is (c, False))"
  shows "fst (descendants_pass t h is (c, False)) = c
    \<and> (\<forall>i \<in> set is. Condemned_holds c i \<or> \<not> dooms t h c i)"
  using assms
proof (induction "is")
  case Nil
  then show ?case by simp
next
  case (Cons i "is")
  then have "\<not> (\<not> Condemned_holds c i \<and> dooms t h c i)"
    using descendants_pass_flag
    by (auto simp: descendants_pass_Cons simp del: descendants_pass.simps split: if_splits)
  with Cons show ?case by (auto simp: descendants_pass_Cons simp del: descendants_pass.simps(2))
qed

lemma covers_NONE: "Table_shape t \<Longrightarrow> bitmap_covers t Condemned_NONE"
  using capacity_bound [of t] by (simp add: bitmap_covers_def Condemned_NONE_def)

lemma bitmap_covers_cong:
  "length (cond_words c') = length (cond_words c) \<Longrightarrow> bitmap_covers t c' = bitmap_covers t c"
  by (simp add: bitmap_covers_def)

text \<open>For a table whose slots all have a bit, the loop is the source's loop.\<close>

lemma descendants_loop_unfold:
  assumes "bitmap_covers t c"
  shows "descendants_loop t h c =
    (let (c', found) = descendants_pass t h [0..<Table_capacity t] (c, False)
     in if \<not> found then c' else descendants_loop t h c')"
  using assms by (subst descendants_loop.simps) (simp add: Let_def)

definition fixpoint :: "Table \<Rightarrow> Handle \<Rightarrow> Condemned \<Rightarrow> bool" where
  "fixpoint t h c \<longleftrightarrow> (\<forall>i < Table_capacity t. dooms t h c i \<longrightarrow> Condemned_holds c i)"

lemma descendants_loop_fixpoint:
  "bitmap_covers t c \<Longrightarrow> (\<forall>j. Condemned_holds c j \<longrightarrow> derived t h j) \<Longrightarrow>
     fixpoint t h (descendants_loop t h c)
     \<and> (\<forall>j. Condemned_holds (descendants_loop t h c) j \<longrightarrow> derived t h j)
     \<and> length (cond_words (descendants_loop t h c)) = length (cond_words c)"
proof (induction t h c rule: descendants_loop.induct)
  case (1 t h c)
  obtain c' found where p: "descendants_pass t h [0..<Table_capacity t] (c, False) = (c', found)"
    by fastforce
  have len: "length (cond_words c') = length (cond_words c)"
    using descendants_pass_length [of t h "[0..<Table_capacity t]" c False] p by simp
  have sound: "\<forall>j. Condemned_holds c' j \<longrightarrow> derived t h j"
    using descendants_pass_sound [OF "1.prems"(2)] p by (metis fst_conv)
  show ?case
  proof (cases found)
    case True
    then have eq: "descendants_loop t h c = descendants_loop t h c'"
      using "1.prems"(1) p by (simp add: descendants_loop_unfold)
    have "fixpoint t h (descendants_loop t h c')
      \<and> (\<forall>j. Condemned_holds (descendants_loop t h c') j \<longrightarrow> derived t h j)
      \<and> length (cond_words (descendants_loop t h c')) = length (cond_words c')"
      using "1.IH" [OF p [symmetric] refl] True "1.prems"(1) sound len bitmap_covers_cong
      by blast
    with eq len show ?thesis by simp
  next
    case False
    then have eq: "descendants_loop t h c = c'"
      using "1.prems"(1) p by (simp add: descendants_loop_unfold)
    have "c' = c" and "\<forall>i \<in> set [0..<Table_capacity t]. Condemned_holds c i \<or> \<not> dooms t h c i"
      using descendants_pass_quiet [of t h "[0..<Table_capacity t]" c] p False by auto
    with eq sound show ?thesis by (auto simp: fixpoint_def)
  qed
qed

lemma fixpoint_complete:
  assumes "Table_shape t" and "fixpoint t h c" and "derived t h i"
  shows "Condemned_holds c i"
  using assms(3)
proof (induction rule: derived.induct)
  case (child i s)
  then have "dooms t h c i" by (simp add: dooms_def)
  then show ?case using assms(1,2) child Table_at_lt by (auto simp: fixpoint_def)
next
  case (descendant i s p sp)
  then have "Table_marked_parent t p c" by (simp add: Table_marked_parent_def Let_def)
  with descendant have "dooms t h c i" by (simp add: dooms_def)
  then show ?case using assms(1,2) descendant Table_at_lt by (auto simp: fixpoint_def)
qed

lemma holds_NONE [simp]: "\<not> Condemned_holds Condemned_NONE i"
  by (auto simp: Condemned_holds_def Condemned_NONE_def get_at_def split: option.splits)

lemma descendants_iff:
  assumes "Table_shape t"
  shows "Condemned_holds (Table_descendants t h) i \<longleftrightarrow> derived t h i"
  unfolding Table_descendants_def
  using descendants_loop_fixpoint [OF covers_NONE [OF assms], of h] fixpoint_complete [OF assms]
  by auto

lemma descendants_covers: "Table_shape t \<Longrightarrow> length (cond_words (Table_descendants t h)) = MARK_WORDS"
  unfolding Table_descendants_def
  using descendants_loop_fixpoint [OF covers_NONE, of t h]
  by (simp add: Condemned_NONE_def [THEN arg_cong, of cond_words])

subsection \<open>A sweep clears exactly the marked slots\<close>

lemma sweep_loop_at:
  assumes "Table_wf t" and "distinct is"
  shows "Table_at (snd (sweep_loop c is (n, t))) j =
    (if j \<in> set is \<and> Condemned_holds c j
     then map_option (Slot_clear (tbl_posts_notices t)) (Table_at t j) else Table_at t j)
    \<and> tbl_posts_notices (snd (sweep_loop c is (n, t))) = tbl_posts_notices t
    \<and> fst (sweep_loop c is (n, t)) = n + length (filter (Condemned_holds c) is)"
  using assms
proof (induction "is" arbitrary: n t)
  case Nil
  then show ?case by simp
next
  case (Cons i "is")
  have sh: "Table_shape t" using Cons.prems(1) by blast
  have wf: "Table_wf (Table_clear i t)" using keeps_clear [OF Cons.prems(1)] by (simp add: keeps_def)
  show ?case
    using Cons.prems Cons.IH [OF Cons.prems(1), of n] Cons.IH [OF wf, of "n + 1"]
    by (auto simp: Table_at_clear [OF sh])
qed

lemma sweep_at:
  assumes "Table_wf t"
  shows "Table_at (snd (Table_sweep c t)) j =
    (if Condemned_holds c j
     then map_option (Slot_clear (tbl_posts_notices t)) (Table_at t j) else Table_at t j)"
proof (cases "j < Table_capacity t")
  case True
  then show ?thesis using sweep_loop_at [OF assms, of "[0..<Table_capacity t]" c 0 j]
    by (simp add: Table_sweep_def)
next
  case False
  then have "Table_at t j = None" using Table_at_None_iff assms by (meson not_le_imp_less wf_shape)
  then show ?thesis using sweep_loop_at [OF assms, of "[0..<Table_capacity t]" c 0 j]
    by (simp add: Table_sweep_def)
qed

lemma sweep_count:
  assumes "Table_wf t"
  shows "fst (Table_sweep c t) = card {i. i < Table_capacity t \<and> Condemned_holds c i}"
proof -
  have "fst (Table_sweep c t) = length (filter (Condemned_holds c) [0..<Table_capacity t])"
    using sweep_loop_at [OF assms, of "[0..<Table_capacity t]" c 0] by (simp add: Table_sweep_def)
  also have "\<dots> = card (set (filter (Condemned_holds c) [0..<Table_capacity t]))"
    by (subst distinct_card) simp_all
  also have "set (filter (Condemned_holds c) [0..<Table_capacity t])
      = {i. i < Table_capacity t \<and> Condemned_holds c i}" by auto
  finally show ?thesis .
qed

subsection \<open>Handles and slots\<close>

text \<open>The handle a component holds for the capability now in slot \<open>i\<close>.\<close>

definition handle_at :: "nat \<Rightarrow> Slot \<Rightarrow> Handle" where
  "handle_at i s = Handle_new (of_nat i) (slot_generation s)"

lemma unat_of_nat_index: "i < MAX_SLOTS \<Longrightarrow> unat (of_nat i :: u16) = i"
  by (simp add: unsigned_of_nat take_bit_nat_eq_self)

lemma handle_at_index:
  "Table_shape t \<Longrightarrow> Table_at t i = Some s \<Longrightarrow> unat (Handle_index (handle_at i s)) = i"
  using Table_at_lt [of t i s] capacity_bound [of t]
  by (auto simp: handle_at_def intro!: unat_of_nat_index)

lemma resolve_iff:
  assumes "Table_shape t"
  shows "Table_resolve t h = Inr i \<longleftrightarrow>
    Handle_is_issuable h \<and> i = unat (Handle_index h)
    \<and> (\<exists>s. Table_at t i = Some s \<and> slot_generation s = Handle_generation h \<and> Slot_occupied s)"
  using Table_at_lt [OF assms, of "unat (Handle_index h)"]
  by (auto simp: Table_resolve_def Table_resolve_at_def Table_slot_def Let_def and_then_Inr_iff
      ok_or_Inr_iff linorder_not_less [symmetric] split: if_splits)

text \<open>
  A handle is dead when its slot has moved past its generation. A dead handle is refused, and it
  stays dead however the table evolves.
\<close>

definition dead :: "Table \<Rightarrow> Handle \<Rightarrow> bool" where
  "dead t h \<longleftrightarrow> Handle_generation h < gen_at t (unat (Handle_index h))"

lemma dead_evolves: "dead t h \<Longrightarrow> evolves t t' \<Longrightarrow> dead t' h"
  using evolves_gen [of t t' "unat (Handle_index h)"] by (auto simp: dead_def)

lemma dead_refused:
  "dead t h \<Longrightarrow> Table_inspect t h = Inl revoked \<or> Table_inspect t h = Inl no_such"
  by (auto simp: dead_def gen_at_def Table_inspect_def Table_resolve_def Table_resolve_at_def
      Table_slot_def Let_def split: option.splits)

lemma dead_revoked:
  "dead t h \<Longrightarrow> Handle_is_issuable h \<Longrightarrow> Table_shape t \<Longrightarrow>
     unat (Handle_index h) < Table_capacity t \<Longrightarrow> Table_inspect t h = Inl revoked"
  using Table_at_Some_iff [of t "unat (Handle_index h)"]
  by (auto simp: dead_def gen_at_def Table_inspect_def Table_resolve_def Table_resolve_at_def
      Table_slot_def Let_def split: option.splits)

lemma sweep_dead:
  assumes "Table_wf t" and "Condemned_holds c i" and "Table_at t i = Some s" and "Slot_occupied s"
  shows "dead (snd (Table_sweep c t)) (handle_at i s)"
proof -
  have sh: "Table_shape t" using assms(1) by blast
  have "slot_ok s" using assms(1,3) by (rule wf_slot)
  then show ?thesis
    using clear_generation [of s "tbl_posts_notices t"] assms(2-4) handle_at_index [OF sh assms(3)]
      sweep_at [OF assms(1), of c i]
    by (simp add: dead_def gen_at_def handle_at_def del: Slot_clear_simps)
qed

end
