(* ===== verification/Cap_Authority.thy ===== *)
theory Cap_Authority
  imports Cap_Revocation
begin

text \<open>
  What the capability table promises its callers over a whole history of operations: the tree of
  derivations stays a tree, rights only narrow along it, and a handle that has stopped resolving
  never resolves again. The last is proved once for any table that keeps the laws of the locale
  \<open>authority\<close> (the trait of that name in the kernel's negative suite), and interpreted on the
  kernel's table.
\<close>

subsection \<open>The interface of a table of authority\<close>

locale authority =
  fixes inspect :: "'s \<Rightarrow> Handle \<Rightarrow> i32 + Found"
    and invar :: "'s \<Rightarrow> bool"
    and moves :: "'s \<Rightarrow> 's \<Rightarrow> bool"
    and spent :: "'s \<Rightarrow> Handle \<Rightarrow> bool"
  assumes moves_invar: "invar s \<Longrightarrow> moves s s' \<Longrightarrow> invar s'"
    and spent_refused: "invar s \<Longrightarrow> spent s h \<Longrightarrow> \<not> is_ok (inspect s h)"
    and spent_moves: "invar s \<Longrightarrow> moves s s' \<Longrightarrow> spent s h \<Longrightarrow> spent s' h"
    and lost_spent: "invar s \<Longrightarrow> moves s s' \<Longrightarrow> inspect s h = Inr f \<Longrightarrow>
      \<not> is_ok (inspect s' h) \<Longrightarrow> spent s' h"
    and identity: "invar s \<Longrightarrow> moves s s' \<Longrightarrow> inspect s h = Inr f \<Longrightarrow> inspect s' h = Inr f' \<Longrightarrow>
      found_kind f' = found_kind f \<and> found_rights f' = found_rights f"
begin

lemma moves_star_invar: "moves\<^sup>*\<^sup>* s s' \<Longrightarrow> invar s \<Longrightarrow> invar s'"
  by (induction rule: rtranclp_induct) (auto intro: moves_invar)

lemma spent_star: "moves\<^sup>*\<^sup>* s s' \<Longrightarrow> invar s \<Longrightarrow> spent s h \<Longrightarrow> spent s' h"
  by (induction rule: rtranclp_induct) (auto intro: spent_moves moves_star_invar)

text \<open>Along any history, a handle that resolved either still resolves, to the same capability, or is spent.\<close>

lemma history:
  assumes "moves\<^sup>*\<^sup>* s s'" and "invar s" and "inspect s h = Inr f"
  shows "spent s' h \<or> (\<exists>f'. inspect s' h = Inr f' \<and> found_kind f' = found_kind f
    \<and> found_rights f' = found_rights f)"
  using assms
proof (induction rule: rtranclp_induct)
  case base
  then show ?case by simp
next
  case (step a b)
  have inv: "invar a" using step.hyps(1) step.prems(1) by (rule moves_star_invar)
  from step consider "spent a h" | f' where "inspect a h = Inr f'" "found_kind f' = found_kind f"
    "found_rights f' = found_rights f" by blast
  then show ?case
  proof cases
    case 1
    then show ?thesis using spent_moves [OF inv step.hyps(2)] by blast
  next
    case 2
    show ?thesis
    proof (cases "inspect b h")
      case (Inl e)
      then show ?thesis using lost_spent [OF inv step.hyps(2) 2(1)] by simp
    next
      case (Inr f'')
      then show ?thesis using identity [OF inv step.hyps(2) 2(1) Inr] 2 by simp
    qed
  qed
qed

lemma no_resurrection:
  assumes "invar s" and "inspect s h = Inr f" and "moves\<^sup>*\<^sup>* s s'" and "\<not> is_ok (inspect s' h)"
    and "moves\<^sup>*\<^sup>* s' s''"
  shows "\<not> is_ok (inspect s'' h)"
proof -
  have inv: "invar s'" using assms(3,1) by (rule moves_star_invar)
  have "spent s' h" using history [OF assms(3,1,2)] assms(4) by (metis is_ok_simps(2))
  with assms(5) inv have "spent s'' h" by (rule spent_star)
  moreover have "invar s''" using assms(5) inv by (rule moves_star_invar)
  ultimately show ?thesis by (intro spent_refused)
qed

end

subsection \<open>The tree of derivations\<close>

definition live_parent :: "Table \<Rightarrow> nat \<Rightarrow> nat \<Rightarrow> bool" where
  "live_parent t i j \<longleftrightarrow> (\<exists>s sp p. Table_at t i = Some s \<and> Slot_occupied s
     \<and> p = Handle_from_bits (slot_parent s) \<and> Handle_is_issuable p \<and> j = unat (Handle_index p)
     \<and> Table_at t j = Some sp \<and> Slot_occupied sp \<and> slot_generation sp = Handle_generation p)"

definition issued :: "Table \<Rightarrow> Handle \<Rightarrow> bool" where
  "issued t h \<longleftrightarrow> dead t h \<or> (\<exists>s. Table_at t (unat (Handle_index h)) = Some s
     \<and> slot_generation s = Handle_generation h \<and> Slot_occupied s)"

definition parents_issued :: "Table \<Rightarrow> bool" where
  "parents_issued t \<longleftrightarrow> (\<forall>i s. Table_at t i = Some s \<and> Slot_occupied s
     \<and> Handle_is_issuable (Handle_from_bits (slot_parent s)) \<longrightarrow>
       issued t (Handle_from_bits (slot_parent s)))"

definition rights_narrow :: "Table \<Rightarrow> bool" where
  "rights_narrow t \<longleftrightarrow> (\<forall>i j s sp. live_parent t i j \<and> Table_at t i = Some s \<and> Table_at t j = Some sp \<longrightarrow>
     rights_narrows (slot_rights sp) (slot_rights s))"

definition ranked :: "Table \<Rightarrow> (nat \<Rightarrow> nat) \<Rightarrow> bool" where
  "ranked t r \<longleftrightarrow> (\<forall>i j. live_parent t i j \<longrightarrow> r j < r i)"

definition Table_inv :: "Table \<Rightarrow> bool" where
  "Table_inv t \<longleftrightarrow> Table_wf t \<and> parents_issued t \<and> rights_narrow t \<and> (\<exists>r. ranked t r)"

lemma issued_evolves: "issued t h \<Longrightarrow> evolves t t' \<Longrightarrow> issued t' h"
proof -
  assume iss: "issued t h" and ev: "evolves t t'"
  from iss consider "dead t h" | s where "Table_at t (unat (Handle_index h)) = Some s"
    "slot_generation s = Handle_generation h" "Slot_occupied s"
    by (auto simp: issued_def)
  then show ?thesis
  proof cases
    case 1
    then show ?thesis using dead_evolves [OF _ ev] by (simp add: issued_def)
  next
    case 2
    show ?thesis
    proof (cases "Table_at t' (unat (Handle_index h))")
      case None
      then show ?thesis using evolves_None [OF ev 2(1) None 2(3)] 2 by (simp add: issued_def dead_def)
    next
      case (Some s')
      then have "slot_evolves s s'" using ev 2(1) by (intro evolves_Some)
      then show ?thesis
        using 2 Some by (auto simp: issued_def dead_def slot_evolves_def gen_at_def)
    qed
  qed
qed

text \<open>
  An operation that places nothing only loses capabilities: whatever is occupied afterwards was
  occupied before, under the same generation, parent and rights.
\<close>

definition shrinks :: "Table \<Rightarrow> Table \<Rightarrow> bool" where
  "shrinks t t' \<longleftrightarrow> (\<forall>i s'. Table_at t' i = Some s' \<and> Slot_occupied s' \<longrightarrow>
     (\<exists>s. Table_at t i = Some s \<and> Slot_occupied s \<and> slot_generation s = slot_generation s'
        \<and> slot_parent s = slot_parent s' \<and> slot_rights s = slot_rights s'))"

lemma shrinks_refl [simp]: "shrinks t t"
  by (auto simp: shrinks_def)

lemma shrinks_trans:
  assumes "shrinks a b" and "shrinks b c"
  shows "shrinks a c"
  unfolding shrinks_def
proof (intro allI impI)
  fix i s' assume "Table_at c i = Some s' \<and> Slot_occupied s'"
  then obtain s where "Table_at b i = Some s" "Slot_occupied s" "slot_generation s = slot_generation s'"
    "slot_parent s = slot_parent s'" "slot_rights s = slot_rights s'"
    using assms(2) by (auto simp: shrinks_def)
  then show "\<exists>s. Table_at a i = Some s \<and> Slot_occupied s \<and> slot_generation s = slot_generation s'
      \<and> slot_parent s = slot_parent s' \<and> slot_rights s = slot_rights s'"
    using assms(1) unfolding shrinks_def by metis
qed

lemma shrinks_live_parent:
  assumes "shrinks t t'" and "live_parent t' i j"
  shows "live_parent t i j"
proof -
  from assms(2) obtain s' sp' where s': "Table_at t' i = Some s'" "Slot_occupied s'"
    "Handle_is_issuable (Handle_from_bits (slot_parent s'))"
    "j = unat (Handle_index (Handle_from_bits (slot_parent s')))"
    and sp': "Table_at t' j = Some sp'" "Slot_occupied sp'"
    "slot_generation sp' = Handle_generation (Handle_from_bits (slot_parent s'))"
    by (auto simp: live_parent_def)
  obtain s where "Table_at t i = Some s" "Slot_occupied s" "slot_parent s = slot_parent s'"
    using assms(1) s'(1,2) unfolding shrinks_def by metis
  moreover obtain sp where "Table_at t j = Some sp" "Slot_occupied sp"
    "slot_generation sp = slot_generation sp'"
    using assms(1) sp'(1,2) unfolding shrinks_def by metis
  ultimately show ?thesis using s' sp' by (auto simp: live_parent_def)
qed

lemma shrinks_inv:
  assumes inv: "Table_inv t" and k: "keeps t t'" and sh: "shrinks t t'"
  shows "Table_inv t'"
proof -
  have pi: "parents_issued t'"
    unfolding parents_issued_def
  proof (intro allI impI, elim conjE)
    fix i s' assume s': "Table_at t' i = Some s'" "Slot_occupied s'"
      "Handle_is_issuable (Handle_from_bits (slot_parent s'))"
    obtain s where "Table_at t i = Some s" "Slot_occupied s" "slot_parent s = slot_parent s'"
      using sh s'(1,2) unfolding shrinks_def by metis
    then have "issued t (Handle_from_bits (slot_parent s'))"
      using inv s'(3) unfolding Table_inv_def parents_issued_def by metis
    then show "issued t' (Handle_from_bits (slot_parent s'))"
      using k by (auto simp: keeps_def intro: issued_evolves)
  qed
  have rn: "rights_narrow t'"
    unfolding rights_narrow_def
  proof (intro allI impI, elim conjE)
    fix i j s' sp'
    assume lp: "live_parent t' i j" and s': "Table_at t' i = Some s'" "Table_at t' j = Some sp'"
    have occ: "Slot_occupied s'" "Slot_occupied sp'"
      using lp s' by (auto simp: live_parent_def)
    obtain s where s: "Table_at t i = Some s" "slot_rights s = slot_rights s'"
      using sh s'(1) occ(1) unfolding shrinks_def by metis
    obtain sp where sp: "Table_at t j = Some sp" "slot_rights sp = slot_rights sp'"
      using sh s'(2) occ(2) unfolding shrinks_def by metis
    have "rights_narrows (slot_rights sp) (slot_rights s)"
      using inv shrinks_live_parent [OF sh lp] s(1) sp(1)
      unfolding Table_inv_def rights_narrow_def by blast
    with s sp show "rights_narrows (slot_rights sp') (slot_rights s')" by simp
  qed
  obtain r where "ranked t r" using inv by (auto simp: Table_inv_def)
  then have "ranked t' r" using shrinks_live_parent [OF sh] by (auto simp: ranked_def)
  with pi rn k show ?thesis by (auto simp: Table_inv_def keeps_def)
qed

lemma shrinks_at_mut:
  assumes "Table_shape t" and "Table_at t i = Some s"
    and "Slot_occupied s' \<Longrightarrow> Slot_occupied s \<and> slot_generation s = slot_generation s'
      \<and> slot_parent s = slot_parent s' \<and> slot_rights s = slot_rights s'"
  shows "shrinks t (Table_at_mut i s' t)"
  using assms Table_at_at_mut [OF assms(1) Table_at_lt [OF assms(1,2)]]
  by (auto simp: shrinks_def split: if_splits)

lemma shrinks_same_slots:
  assumes "tbl_slots t' = tbl_slots t" "tbl_pages t' = tbl_pages t"
    "tbl_grown t' = tbl_grown t" "tbl_ram t' = tbl_ram t"
  shows "shrinks t t'"
  using Table_at_cong [OF assms] by (auto simp: shrinks_def)

subsection \<open>Operations that place nothing\<close>

lemma shrinks_charge: "Table_shape t \<Longrightarrow> shrinks t (Table_charge i t)"
  by (auto simp: Table_charge_def intro!: shrinks_at_mut split: option.splits)

lemma shrinks_retype: "Table_shape t \<Longrightarrow> Table_retype h t = (res, t') \<Longrightarrow> shrinks t t'"
  by (auto simp: Table_retype_def intro!: shrinks_at_mut split: sum.splits option.splits if_splits)

lemma shrinks_refund: "Table_shape t \<Longrightarrow> Table_refund h b f t = (res, t') \<Longrightarrow> shrinks t t'"
  by (auto simp: Table_refund_def intro!: shrinks_at_mut split: sum.splits option.splits if_splits)

lemma shrinks_note_mapping: "Table_shape t \<Longrightarrow> Table_note_mapping h v t = (res, t') \<Longrightarrow> shrinks t t'"
  by (auto simp: Table_note_mapping_def intro!: shrinks_at_mut
      split: sum.splits option.splits if_splits)

lemma shrinks_note_peer_gone: "Table_shape t \<Longrightarrow> Table_note_peer_gone h t = (res, t') \<Longrightarrow> shrinks t t'"
  by (auto simp: Table_note_peer_gone_def intro!: shrinks_at_mut
      split: sum.splits option.splits if_splits)

lemma shrinks_next_slot_notice_loop:
  "Table_shape t \<Longrightarrow> next_slot_notice_loop ts is t = (res, t') \<Longrightarrow> shrinks t t'"
proof (induction "is" arbitrary: res)
  case Nil
  then show ?case by simp
next
  case (Cons i "is")
  show ?case
  proof (cases "Table_at t i")
    case None
    with Cons show ?thesis by simp
  next
    case (Some s)
    with Cons show ?thesis
      by (cases "Pending_drain (Slot_notice s)")
         (auto intro!: shrinks_at_mut split: option.splits)
  qed
qed

lemma shrinks_signals:
  "shrinks t (Table_owes_notices t)"
  "Table_stop_by d t = (b, t') \<Longrightarrow> shrinks t t'"
  "Table_pressure_is d t = (b, t') \<Longrightarrow> shrinks t t'"
  "Table_generation_is d t = (b, t') \<Longrightarrow> shrinks t t'"
  "Table_next_stop_notice h ts t = (c, t') \<Longrightarrow> shrinks t t'"
  "Table_next_grade_notice ts t = (c, t') \<Longrightarrow> shrinks t t'"
  by (auto simp: Table_owes_notices_def Table_stop_by_def Table_pressure_is_def
      Table_generation_is_def Table_next_stop_notice_def Table_next_grade_notice_def Let_def
      intro!: shrinks_same_slots split: prod.splits option.splits)

lemma shrinks_sweep: "Table_wf t \<Longrightarrow> Table_sweep c t = (n, t') \<Longrightarrow> shrinks t t'"
  using sweep_at [of t c] by (fastforce simp: shrinks_def split: if_splits)

lemma shrinks_relinquish: "Table_wf t \<Longrightarrow> Table_relinquish h t = (res, t') \<Longrightarrow> shrinks t t'"
  by (auto simp: Table_relinquish_def split: sum.splits prod.splits intro: shrinks_sweep)

lemma shrinks_clear_occupied: "Table_wf t \<Longrightarrow> shrinks t (clear_occupied is t)"
proof (induction "is" arbitrary: t)
  case Nil
  then show ?case by simp
next
  case (Cons i "is")
  let ?u = "if (case Table_at t i of None \<Rightarrow> False | Some s \<Rightarrow> Slot_occupied s)
    then Table_clear i t else t"
  have "shrinks t ?u"
    using Table_at_clear [OF wf_shape [OF Cons.prems], of i] by (auto simp: shrinks_def split: if_splits)
  moreover have "shrinks ?u (clear_occupied is ?u)"
    by (intro Cons.IH) (use keeps_clear [OF Cons.prems] Cons.prems in \<open>auto simp: keeps_def\<close>)
  ultimately have "shrinks t (clear_occupied is ?u)" by (rule shrinks_trans)
  then show ?case by simp
qed

lemma shrinks_clear_all: "Table_wf t \<Longrightarrow> shrinks t (Table_clear_all t)"
proof -
  assume wf: "Table_wf t"
  have "shrinks (clear_occupied [0..<Table_capacity t] t) (Table_clear_all t)"
    by (auto simp: shrinks_def Table_at_clear_all [OF wf] split: if_splits)
  with shrinks_clear_occupied [OF wf] show ?thesis by (rule shrinks_trans)
qed

lemma shrinks_grow:
  assumes wf: "Table_wf t" and fresh: "fresh_backing reach t" and eq: "Table_grow reach t = (res, t')"
  shows "shrinks t t'"
proof -
  have sh: "Table_shape t" using wf by blast
  from Table_grow_cases [OF sh eq] show ?thesis
  proof (elim disjE exE conjE)
    assume "t' = t"
    then show ?thesis by simp
  next
    fix account s base
    assume a: "account < Table_capacity t" "account_of t account" "Table_at t account = Some s"
      "reach (slot_object s) = Some base" "tbl_grown t < MAX_PAGES"
      and t': "t' = Table_charge account (add_page base t)"
    have new: "base \<notin> set (take (tbl_grown t) (tbl_pages t))"
      using fresh a unfolding fresh_backing_def by fastforce
    have "shrinks t (add_page base t)"
      using Table_at_add_page [OF sh a(5) new] by (auto simp: shrinks_def split: if_splits)
    moreover have "shrinks (add_page base t) t'"
      unfolding t' by (rule shrinks_charge [OF add_page_shape [OF sh a(5) new]])
    ultimately show ?thesis by (rule shrinks_trans)
  qed
qed

subsection \<open>Placing a capability\<close>

definition lawful_parent :: "Table \<Rightarrow> Handle \<Rightarrow> u8 \<Rightarrow> bool" where
  "lawful_parent t p r \<longleftrightarrow> p = Handle_NULL \<or>
     (\<exists>j sp. Table_resolve t p = Inr j \<and> Table_at t j = Some sp \<and> rights_narrows (slot_rights sp) r)"

lemma inv_place:
  assumes inv: "Table_inv t" and law: "lawful_parent t p r"
    and eq: "Table_place k r ob e p t = (res, t')"
  shows "Table_inv t'"
proof (cases "Table_vacancy t")
  case None
  with inv eq show ?thesis by (simp add: Table_place_def)
next
  case (Some i)
  have wf: "Table_wf t" and sh: "Table_shape t" using inv by (auto simp: Table_inv_def)
  obtain s where i: "i < Table_capacity t" and s: "Table_at t i = Some s" "\<not> Slot_occupied s"
    using Table_vacancy_Some [OF Some] by blast
  let ?new = "Slot_place (tbl_posts_notices t) k r ob e p s"
  have t': "t' = Table_at_mut i ?new t" using eq Some s by (simp add: Table_place_def)
  have at': "Table_at t' j = (if i = j then Some ?new else Table_at t j)" for j
    unfolding t' by (rule Table_at_at_mut [OF sh i])
  have k: "keeps t t'" using wf eq by (rule keeps_place)
  have orphan: "\<not> live_parent t' a i" if ne: "a \<noteq> i" for a
  proof
    assume "live_parent t' a i"
    then obtain sa where sa: "Table_at t a = Some sa" "Slot_occupied sa"
      "Handle_is_issuable (Handle_from_bits (slot_parent sa))"
      "i = unat (Handle_index (Handle_from_bits (slot_parent sa)))"
      "slot_generation s = Handle_generation (Handle_from_bits (slot_parent sa))"
      using ne by (auto simp: live_parent_def at')
    then have "issued t (Handle_from_bits (slot_parent sa))"
      using inv unfolding Table_inv_def parents_issued_def by blast
    then show False using s sa(4,5) by (auto simp: issued_def dead_def gen_at_def)
  qed
  have own: "b \<noteq> i \<and> (\<exists>sp. Table_at t b = Some sp \<and> rights_narrows (slot_rights sp) r)
      \<and> b = unat (Handle_index p)" if lp: "live_parent t' i b" for b
  proof -
    have b: "b = unat (Handle_index p)" and issu: "Handle_is_issuable p"
      using lp by (auto simp: live_parent_def at')
    then obtain j sp where j: "Table_resolve t p = Inr j" "Table_at t j = Some sp"
      "rights_narrows (slot_rights sp) r"
      using law by (auto simp: lawful_parent_def)
    then have "j = b" "Slot_occupied sp" using b by (auto simp: resolve_iff [OF sh])
    then show ?thesis using j s b by auto
  qed
  have old: "live_parent t a b" if "live_parent t' a b" "a \<noteq> i" for a b
  proof -
    have "b \<noteq> i" using orphan that by blast
    then show ?thesis using that by (auto simp: live_parent_def at')
  qed
  have pi: "parents_issued t'"
    unfolding parents_issued_def
  proof (intro allI impI, elim conjE)
    fix a sa assume sa: "Table_at t' a = Some sa" "Slot_occupied sa"
      "Handle_is_issuable (Handle_from_bits (slot_parent sa))"
    have "issued t (Handle_from_bits (slot_parent sa))"
    proof (cases "a = i")
      case True
      then have "Handle_from_bits (slot_parent sa) = p" using sa by (auto simp: at')
      moreover from this law sa(3) obtain j where "Table_resolve t p = Inr j"
        by (auto simp: lawful_parent_def)
      ultimately show ?thesis by (auto simp: resolve_iff [OF sh] issued_def)
    next
      case False
      then show ?thesis
        using sa inv unfolding Table_inv_def parents_issued_def at' by (metis (full_types))
    qed
    then show "issued t' (Handle_from_bits (slot_parent sa))"
      using k by (auto simp: keeps_def intro: issued_evolves)
  qed
  have rn: "rights_narrow t'"
    unfolding rights_narrow_def
  proof (intro allI impI, elim conjE)
    fix a b sa sb assume lp: "live_parent t' a b" and sab: "Table_at t' a = Some sa" "Table_at t' b = Some sb"
    show "rights_narrows (slot_rights sb) (slot_rights sa)"
    proof (cases "a = i")
      case True
      then have "rights_narrows (slot_rights sb) r" using own [of b] lp sab(2) by (auto simp: at')
      moreover have "slot_rights sa = r" using sab(1) True by (auto simp: at')
      ultimately show ?thesis by simp
    next
      case False
      then have "live_parent t a b" and "b \<noteq> i" using old orphan lp by blast+
      then show ?thesis
        using inv sab False unfolding Table_inv_def rights_narrow_def at' by (metis (full_types))
    qed
  qed
  obtain rk where rk: "ranked t rk" using inv by (auto simp: Table_inv_def)
  have "ranked t' (rk(i := Suc (rk (unat (Handle_index p)))))"
    unfolding ranked_def
  proof (intro allI impI)
    fix a b assume lp: "live_parent t' a b"
    show "(rk(i := Suc (rk (unat (Handle_index p))))) b < (rk(i := Suc (rk (unat (Handle_index p))))) a"
    proof (cases "a = i")
      case True
      then show ?thesis using own lp by auto
    next
      case False
      then have "live_parent t a b" and "b \<noteq> i" using old orphan lp by blast+
      then show ?thesis using rk False by (simp add: ranked_def)
    qed
  qed
  with pi rn k show ?thesis by (auto simp: Table_inv_def keeps_def)
qed

subsection \<open>Deriving\<close>

text \<open>
  Growing and retyping leave every capability that was there where it was, and an account that
  pays moves its watermark without moving its top.
\<close>

definition slot_top :: "Slot \<Rightarrow> nat" where
  "slot_top s = unat (slot_object s) + unat (slot_extent s)"

lemma slot_top_carved:
  "carved (slot_object s) (slot_extent s) f = Some (ob, e) \<Longrightarrow>
     slot_top (s\<lparr>slot_object := ob, slot_extent := e\<rparr>) = slot_top s"
  using carved_conserves(3) by (simp add: slot_top_def)

definition stable :: "Table \<Rightarrow> Table \<Rightarrow> bool" where
  "stable t t' \<longleftrightarrow> (\<forall>i s. Table_at t i = Some s \<longrightarrow>
     (\<exists>s'. Table_at t' i = Some s' \<and> slot_generation s' = slot_generation s
        \<and> Slot_occupied s' = Slot_occupied s \<and> Slot_cap_kind s' = Slot_cap_kind s
        \<and> slot_rights s' = slot_rights s \<and> slot_parent s' = slot_parent s
        \<and> slot_top s' = slot_top s))"

lemma stable_refl [simp]: "stable t t"
  by (auto simp: stable_def)

lemma stable_trans:
  assumes "stable a b" and "stable b c"
  shows "stable a c"
  unfolding stable_def
proof (intro allI impI)
  fix i s assume "Table_at a i = Some s"
  then obtain s' where "Table_at b i = Some s'" "slot_generation s' = slot_generation s"
    "Slot_occupied s' = Slot_occupied s" "Slot_cap_kind s' = Slot_cap_kind s"
    "slot_rights s' = slot_rights s" "slot_parent s' = slot_parent s" "slot_top s' = slot_top s"
    using assms(1) unfolding stable_def by metis
  moreover from this(1) obtain s'' where "Table_at c i = Some s''"
    "slot_generation s'' = slot_generation s'" "Slot_occupied s'' = Slot_occupied s'"
    "Slot_cap_kind s'' = Slot_cap_kind s'" "slot_rights s'' = slot_rights s'"
    "slot_parent s'' = slot_parent s'" "slot_top s'' = slot_top s'"
    using assms(2) unfolding stable_def by metis
  ultimately show "\<exists>s'. Table_at c i = Some s' \<and> slot_generation s' = slot_generation s
      \<and> Slot_occupied s' = Slot_occupied s \<and> Slot_cap_kind s' = Slot_cap_kind s
      \<and> slot_rights s' = slot_rights s \<and> slot_parent s' = slot_parent s
      \<and> slot_top s' = slot_top s"
    by metis
qed

lemma stable_at_mut:
  assumes "Table_shape t" and "Table_at t i = Some s"
    and "slot_generation s' = slot_generation s" "Slot_occupied s' = Slot_occupied s"
    "Slot_cap_kind s' = Slot_cap_kind s" "slot_rights s' = slot_rights s"
    "slot_parent s' = slot_parent s" "slot_top s' = slot_top s"
  shows "stable t (Table_at_mut i s' t)"
  using assms Table_at_at_mut [OF assms(1) Table_at_lt [OF assms(1,2)]]
  by (auto simp: stable_def)

lemma stable_charge: "Table_shape t \<Longrightarrow> stable t (Table_charge i t)"
  by (auto simp: Table_charge_def intro!: stable_at_mut slot_top_carved split: option.splits)

lemma stable_retype: "Table_shape t \<Longrightarrow> Table_retype h t = (res, t') \<Longrightarrow> stable t t'"
  by (auto simp: Table_retype_def intro!: stable_at_mut slot_top_carved
      split: sum.splits option.splits if_splits)

lemma stable_grow:
  assumes wf: "Table_wf t" and fresh: "fresh_backing reach t" and eq: "Table_grow reach t = (res, t')"
  shows "stable t t'"
proof -
  have sh: "Table_shape t" using wf by blast
  from Table_grow_cases [OF sh eq] show ?thesis
  proof (elim disjE exE conjE)
    assume "t' = t"
    then show ?thesis by simp
  next
    fix account s base
    assume a: "account < Table_capacity t" "account_of t account" "Table_at t account = Some s"
      "reach (slot_object s) = Some base" "tbl_grown t < MAX_PAGES"
      and t': "t' = Table_charge account (add_page base t)"
    have new: "base \<notin> set (take (tbl_grown t) (tbl_pages t))"
      using fresh a unfolding fresh_backing_def by fastforce
    have "stable t (add_page base t)"
      using Table_at_add_page [OF sh a(5) new] Table_at_lt [OF sh] by (auto simp: stable_def)
    moreover have "stable (add_page base t) t'"
      unfolding t' by (rule stable_charge [OF add_page_shape [OF sh a(5) new]])
    ultimately show ?thesis by (rule stable_trans)
  qed
qed

lemma stable_resolve:
  assumes "Table_shape t" and "Table_shape t'" and "stable t t'" and "Table_resolve t h = Inr i"
  shows "Table_resolve t' h = Inr i"
proof -
  from assms(4) obtain s where "Handle_is_issuable h" "i = unat (Handle_index h)"
    "Table_at t i = Some s" "slot_generation s = Handle_generation h" "Slot_occupied s"
    by (auto simp: resolve_iff [OF assms(1)])
  moreover from this(3) obtain s' where "Table_at t' i = Some s'"
    "slot_generation s' = slot_generation s" "Slot_occupied s' = Slot_occupied s"
    using assms(3) unfolding stable_def by metis
  ultimately show ?thesis by (simp add: resolve_iff [OF assms(2)])
qed

lemma inspect_iff:
  assumes "Table_wf t"
  shows "Table_inspect t h = Inr f \<longleftrightarrow>
    (\<exists>s k. Table_resolve t h = Inr (unat (Handle_index h)) \<and> Table_at t (unat (Handle_index h)) = Some s
       \<and> Slot_cap_kind s = Some k \<and> f = \<lparr>found_kind = k, found_rights = slot_rights s,
         found_object = slot_object s, found_extent = slot_extent s\<rparr>)"
  using resolve_iff [OF wf_shape [OF assms], of h]
  by (auto simp: Table_inspect_def and_then_Inr_iff Table_slot_def ok_or_Inr_iff)

lemma Table_derive_cases:
  assumes "Table_derive h asked reach t = (res, t')"
  obtains (refused) "t' = t"
  | (reached) f g t1 r t2 where "Table_invoke_any t h rights_DERIVE = Inr f"
      "rights_narrows (found_rights f) asked"
      "(if Table_vacancy t = None then Table_grow reach t else (Inr (), t)) = (g, t1)"
      "Table_retype h t1 = (r, t2)"
      "t' = t1 \<or> t' = t2 \<or> (\<exists>k ob e. Table_place k asked ob e h t2 = (res, t'))"
proof -
  obtain g t1 where gt: "(if Table_vacancy t = None then Table_grow reach t else (Inr (), t)) = (g, t1)"
    by fastforce
  obtain r t2 where rt: "Table_retype h t1 = (r, t2)" by fastforce
  show thesis
  proof (cases "rights_unknown asked \<or> t' = t")
    case True
    then show thesis using assms refused by (auto simp: Table_derive_def)
  next
    case False
    then obtain f where f: "Table_invoke_any t h rights_DERIVE = Inr f"
        "rights_narrows (found_rights f) asked"
      using assms by (auto simp: Table_derive_def split: sum.splits if_splits)
    have "t' = t1 \<or> t' = t2 \<or> (\<exists>k ob e. Table_place k asked ob e h t2 = (res, t'))"
      using assms False f unfolding Table_derive_def gt
      by (cases g; cases r) (auto simp: rt)
    then show thesis using reached [OF f gt rt] by blast
  qed
qed

lemma inv_derive:
  assumes inv: "Table_inv t" and fresh: "fresh_backing reach t"
    and eq: "Table_derive h asked reach t = (res, t')"
  shows "Table_inv t'"
  using eq
proof (cases rule: Table_derive_cases)
  case refused
  then show ?thesis using inv by simp
next
  case (reached f g t1 r t2)
  have wf: "Table_wf t" and sh: "Table_shape t" using inv by (auto simp: Table_inv_def)
  have gt: "t1 = t \<or> Table_grow reach t = (g, t1)" using reached(3) by (auto split: if_splits)
  have "keeps t t1" using gt keeps_grow [OF wf fresh] keeps_refl [OF wf] by metis
  moreover have "shrinks t t1" using gt shrinks_grow [OF wf fresh] by (metis shrinks_refl)
  ultimately have inv1: "Table_inv t1" by (rule shrinks_inv [OF inv])
  have st1: "stable t t1" using gt stable_grow [OF wf fresh] by (metis stable_refl)
  from inv1 have wf1: "Table_wf t1" and sh1: "Table_shape t1" by (auto simp: Table_inv_def)
  have inv2: "Table_inv t2"
    using inv1 keeps_retype [OF wf1 reached(4)] shrinks_retype [OF sh1 reached(4)] by (rule shrinks_inv)
  then have sh2: "Table_shape t2" by (auto simp: Table_inv_def)
  have st2: "stable t t2" using st1 stable_retype [OF sh1 reached(4)] by (rule stable_trans)
  have "Table_inspect t h = Inr f"
    using reached(1) by (auto simp: Table_invoke_any_def and_then_Inr_iff split: if_splits)
  then obtain s where s: "Table_resolve t h = Inr (unat (Handle_index h))"
    "Table_at t (unat (Handle_index h)) = Some s" "found_rights f = slot_rights s"
    by (auto simp: inspect_iff [OF wf])
  from s(2) obtain s' where "Table_at t2 (unat (Handle_index h)) = Some s'"
    "slot_rights s' = slot_rights s"
    using st2 unfolding stable_def by metis
  moreover have "Table_resolve t2 h = Inr (unat (Handle_index h))"
    using sh sh2 st2 s(1) by (rule stable_resolve)
  ultimately have "lawful_parent t2 h asked" using reached(2) s(3) by (auto simp: lawful_parent_def)
  then show ?thesis using reached(5) inv1 inv2 inv_place [OF inv2] by metis
qed

end
