(* ===== verification/Cap_Steps.thy ===== *)
theory Cap_Steps
  imports Cap_Authority
begin

text \<open>
  A capability table over its lifetime. \<open>table_step\<close> has one rule for every public operation of
  \<open>src/kernel/src/cap.rs\<close> that changes a table; the invariant of \<open>Cap_Authority\<close> holds after every
  one of them, and the table is an \<open>authority\<close>. The properties of revocation, derivation and
  lookup follow.
\<close>

subsection \<open>Every operation that changes a table\<close>

inductive table_step :: "Table \<Rightarrow> Table \<Rightarrow> bool" where
  grant: "Table_grant k r ob e t = (res, t') \<Longrightarrow> table_step t t'"
| derive: "fresh_backing reach t \<Longrightarrow> Table_derive h asked reach t = (res, t') \<Longrightarrow> table_step t t'"
| grow: "fresh_backing reach t \<Longrightarrow> Table_grow reach t = (res', t') \<Longrightarrow> table_step t t'"
| sweep: "Table_sweep c t = (n, t') \<Longrightarrow> table_step t t'"
| relinquish: "Table_relinquish h t = (res'', t') \<Longrightarrow> table_step t t'"
| refund: "Table_refund h b fl t = (res', t') \<Longrightarrow> table_step t t'"
| note_mapping: "Table_note_mapping h v t = (res', t') \<Longrightarrow> table_step t t'"
| note_peer_gone: "Table_note_peer_gone h t = (res', t') \<Longrightarrow> table_step t t'"
| owes_notices: "table_step t (Table_owes_notices t)"
| stop_by: "Table_stop_by d t = (b', t') \<Longrightarrow> table_step t t'"
| pressure_is: "Table_pressure_is d t = (b', t') \<Longrightarrow> table_step t t'"
| generation_is: "Table_generation_is d t = (b', t') \<Longrightarrow> table_step t t'"
| next_slot_notice: "Table_next_slot_notice d t = (cqe, t') \<Longrightarrow> table_step t t'"
| next_stop_notice: "Table_next_stop_notice h d t = (cqe, t') \<Longrightarrow> table_step t t'"
| next_grade_notice: "Table_next_grade_notice d t = (cqe, t') \<Longrightarrow> table_step t t'"
| clear_all: "table_step t (Table_clear_all t)"

lemma step_keeps: "table_step t t' \<Longrightarrow> Table_wf t \<Longrightarrow> keeps t t'"
  by (induction rule: table_step.induct)
     (auto intro: keeps_grant keeps_derive keeps_grow keeps_sweep keeps_relinquish keeps_refund
       keeps_note_mapping keeps_note_peer_gone keeps_signals keeps_next_slot_notice keeps_clear_all)

lemma step_shrinks:
  "table_step t t' \<Longrightarrow> Table_wf t \<Longrightarrow>
     shrinks t t' \<or> (\<exists>k r ob e res. Table_grant k r ob e t = (res, t'))
     \<or> (\<exists>reach h asked res. fresh_backing reach t \<and> Table_derive h asked reach t = (res, t'))"
proof (induction rule: table_step.induct)
  case (next_slot_notice d t cqe t')
  then show ?case
    using shrinks_next_slot_notice_loop wf_shape unfolding Table_next_slot_notice_def by blast
qed (use wf_shape in \<open>blast intro: shrinks_grow shrinks_sweep shrinks_relinquish shrinks_refund
       shrinks_note_mapping shrinks_note_peer_gone shrinks_signals shrinks_clear_all\<close>)+

lemma step_inv:
  assumes "table_step t t'" and "Table_inv t"
  shows "Table_inv t'"
proof -
  have wf: "Table_wf t" using assms(2) by (simp add: Table_inv_def)
  have "lawful_parent t Handle_NULL r" for r by (simp add: lawful_parent_def)
  then show ?thesis
    using step_shrinks [OF assms(1) wf] step_keeps [OF assms(1) wf] assms(2)
      shrinks_inv inv_place inv_derive unfolding Table_grant_def by metis
qed

lemma inv_EMPTY: "Table_inv (Table_EMPTY ram)"
proof -
  have at: "Table_at (Table_EMPTY ram) i = (if i < TABLE_SLOTS then Some Slot_EMPTY else None)" for i
    by (auto simp: Table_at_def Table_EMPTY_def get_at_def Let_def split: option.splits)
  have vac: "\<not> Slot_occupied Slot_EMPTY"
    by (simp add: Slot_EMPTY_def Slot_fresh_def Slot_occupied_def)
  have "Table_shape (Table_EMPTY ram)"
    by (simp add: Table_shape_def Table_EMPTY_def)
  moreover have "slot_ok Slot_EMPTY"
    using vac by (simp add: slot_ok_def) (simp add: Slot_EMPTY_def Slot_fresh_def
      Handle_FIRST_GENERATION_def)
  moreover have "tbl_floor (Table_EMPTY ram) \<noteq> 0"
    by (simp add: Table_EMPTY_def Handle_FIRST_GENERATION_def)
  ultimately have "Table_wf (Table_EMPTY ram)"
    by (auto simp: Table_wf_def at)
  then show ?thesis
    using vac by (auto simp: Table_inv_def parents_issued_def rights_narrow_def ranked_def
      live_parent_def at split: if_splits)
qed

subsection \<open>The kernel's table is an authority\<close>

lemma inspect_lost_dead:
  assumes wf: "Table_wf t" and k: "keeps t t'" and f: "Table_inspect t h = Inr f"
    and lost: "\<not> is_ok (Table_inspect t' h)"
  shows "dead t' h"
proof (rule ccontr)
  assume alive: "\<not> dead t' h"
  let ?i = "unat (Handle_index h)"
  from f obtain s k' where s: "Table_resolve t h = Inr ?i" "Table_at t ?i = Some s"
    "Slot_cap_kind s = Some k'"
    by (auto simp: inspect_iff [OF wf])
  then have g: "slot_generation s = Handle_generation h" and occ: "Slot_occupied s"
    and issu: "Handle_is_issuable h"
    by (auto simp: resolve_iff [OF wf_shape [OF wf]])
  have ev: "evolves t t'" and wf': "Table_wf t'" using k by (auto simp: keeps_def)
  obtain s' where s': "Table_at t' ?i = Some s'"
    using evolves_None [OF ev s(2) _ occ] alive g by (cases "Table_at t' ?i") (auto simp: dead_def)
  have "slot_evolves s s'" using ev s(2) s' by (rule evolves_Some)
  moreover have "slot_generation s' = slot_generation s"
    using alive s' g \<open>slot_evolves s s'\<close> by (auto simp: dead_def gen_at_def slot_evolves_def)
  ultimately have "Table_resolve t' h = Inr ?i" "Slot_cap_kind s' = Some k'"
    using occ g issu s' s(3) by (auto simp: slot_evolves_def resolve_iff [OF wf_shape [OF wf']])
  then have "\<exists>f'. Table_inspect t' h = Inr f'"
    using s' by (auto simp: inspect_iff [OF wf'])
  then show False using lost by auto
qed

lemma inspect_identity:
  assumes wf: "Table_wf t" and k: "keeps t t'" and f: "Table_inspect t h = Inr f"
    and f': "Table_inspect t' h = Inr f'"
  shows "found_kind f' = found_kind f \<and> found_rights f' = found_rights f"
proof -
  let ?i = "unat (Handle_index h)"
  have ev: "evolves t t'" and wf': "Table_wf t'" using k by (auto simp: keeps_def)
  obtain s where s: "Table_at t ?i = Some s" "slot_generation s = Handle_generation h"
    "Slot_occupied s" "Slot_cap_kind s = Some (found_kind f)" "slot_rights s = found_rights f"
    using f by (auto simp: inspect_iff [OF wf] resolve_iff [OF wf_shape [OF wf]])
  obtain s' where s': "Table_at t' ?i = Some s'" "slot_generation s' = Handle_generation h"
    "Slot_occupied s'" "Slot_cap_kind s' = Some (found_kind f')" "slot_rights s' = found_rights f'"
    using f' by (auto simp: inspect_iff [OF wf'] resolve_iff [OF wf_shape [OF wf']])
  have "slot_evolves s s'" using ev s(1) s'(1) by (rule evolves_Some)
  then show ?thesis using s s' by (auto simp: slot_evolves_def)
qed

interpretation kernel: authority Table_inspect Table_inv table_step dead
proof
  fix t t' :: Table and h f f'
  assume inv: "Table_inv t"
  then have wf: "Table_wf t" by (simp add: Table_inv_def)
  {
    show "dead t h \<Longrightarrow> \<not> is_ok (Table_inspect t h)" using dead_refused [of t h] by auto
  next
    assume st: "table_step t t'"
    have k: "keeps t t'" using st wf by (rule step_keeps)
    show "Table_inv t'" using st inv by (rule step_inv)
    show "dead t h \<Longrightarrow> dead t' h" using k dead_evolves by (auto simp: keeps_def)
    show "Table_inspect t h = Inr f \<Longrightarrow> \<not> is_ok (Table_inspect t' h) \<Longrightarrow> dead t' h"
      using wf k by (rule inspect_lost_dead)
    show "Table_inspect t h = Inr f \<Longrightarrow> Table_inspect t' h = Inr f' \<Longrightarrow>
        found_kind f' = found_kind f \<and> found_rights f' = found_rights f"
      using wf k by (rule inspect_identity)
  }
qed

end
