(* ===== verification/Cap_Theorems.thy ===== *)
theory Cap_Theorems
  imports Cap_Steps
begin

text \<open>
  The properties of the capability table as its callers rely on them: what a lookup answers, what a
  revocation withdraws and spares, that authority is never widened and never comes back, and what
  deriving and growing cost.
\<close>

subsection \<open>A table to evaluate on\<close>

text \<open>One untyped account of four frames in slot 0, and one frame carved from it in slot 1.\<close>

definition demo_account :: Table where
  "demo_account = snd (Table_grant Untyped rights_ALL 0x10000 0x4000 (Table_EMPTY (\<lambda>_. [])))"

definition demo :: Table where
  "demo = snd (Table_derive (Handle_new 0 1) (rights_READ OR rights_WRITE) (\<lambda>_. None) demo_account)"

lemma demo_fresh: "fresh_backing (\<lambda>_. None) t"
  by (auto simp: fresh_backing_def split: option.splits)

lemma demo_account_inv: "Table_inv demo_account"
  unfolding demo_account_def
  by (rule step_inv [OF table_step.grant inv_EMPTY]) (rule prod.collapse [symmetric])

lemma demo_step: "table_step demo_account demo"
  unfolding demo_def
  by (rule table_step.derive [OF demo_fresh]) (rule prod.collapse [symmetric])

lemma demo_inv: "Table_inv demo"
  by (rule step_inv [OF demo_step demo_account_inv])

lemma demo_inspect:
  "Table_inspect demo (Handle_new 0 1) =
     Inr \<lparr>found_kind = Untyped, found_rights = rights_ALL, found_object = 0x11000,
          found_extent = 0x3000\<rparr>"
  by code_simp

lemma demo_child:
  "Table_at demo 1 = Some \<lparr>slot_kind = CapType_to_wire Frame, slot_rights = rights_READ OR rights_WRITE,
     slot_generation = 1, slot_parent = Handle_bits (Handle_new 0 1), slot_object = 0x10000,
     slot_extent = FRAME_SIZE, slot_mapped = NOT_MAPPED\<rparr>"
  by code_simp

lemma demo_child_occupied:
  "Slot_occupied \<lparr>slot_kind = CapType_to_wire Frame, slot_rights = r, slot_generation = g,
     slot_parent = p, slot_object = ob, slot_extent = e, slot_mapped = v\<rparr>"
  by (simp add: Slot_occupied_def KIND_MASK_def KIND_BITS_def)

lemma demo_derived: "derived demo (Handle_new 0 1) 1"
  by (rule derived.child [OF demo_child demo_child_occupied]) (simp_all add: Handle_is_issuable_def)

lemma demo_condemn: "Table_condemn demo (Handle_new 0 1) = Inr (Table_descendants demo (Handle_new 0 1))"
  by (simp add: Table_condemn_def Table_invoke_any_def demo_inspect rights_holds_def rights_consts)

subsection \<open>Revocation\<close>

lemma derived_ranked:
  assumes rk: "ranked t r" and sh: "Table_shape t" and h: "Table_resolve t h = Inr j"
    and d: "derived t h i"
  shows "r j < r i"
  using d
proof (induction rule: derived.induct)
  case (child i s)
  then have "live_parent t i j" using h by (auto simp: live_parent_def resolve_iff [OF sh])
  then show ?case using rk by (simp add: ranked_def)
next
  case (descendant i s p sp)
  have "Slot_occupied sp" using derived_occupied [OF descendant.hyps(5)] descendant.hyps(6) by simp
  then have "live_parent t i (unat (Handle_index p))"
    using descendant.hyps by (auto simp: live_parent_def)
  then show ?case using rk descendant.IH by (fastforce simp: ranked_def)
qed

lemma root_not_derived: "Table_inv t \<Longrightarrow> Table_resolve t h = Inr j \<Longrightarrow> \<not> derived t h j"
  using derived_ranked by (fastforce simp: Table_inv_def)

lemma condemn_Inr:
  assumes "Table_condemn t h = Inr c"
  shows "c = Table_descendants t h" "\<exists>f. Table_inspect t h = Inr f \<and> rights_holds (found_rights f) rights_REVOKE"
  using assms
  by (auto simp: Table_condemn_def Table_invoke_any_def and_then_Inr_iff split: if_splits)

lemma inspect_cong:
  assumes "Table_shape t" "Table_shape t'"
    and "Table_at t' (unat (Handle_index h)) = Table_at t (unat (Handle_index h))"
  shows "Table_inspect t' h = Table_inspect t h"
proof -
  have "(unat (Handle_index h) < Table_capacity t') = (unat (Handle_index h) < Table_capacity t)"
    using Table_at_Some_iff assms by metis
  then show ?thesis
    using assms(3) by (auto simp: Table_inspect_def Table_resolve_def Table_resolve_at_def
      Table_slot_def Let_def and_then_def not_le split: sum.splits)
qed

text \<open>
  C1: Revoking a capability (condemn, then sweep) withdraws exactly what was derived from it. Every
  capability in the derivation tree below the handle is refused as revoked afterwards, every other
  slot of the table is untouched, the handle itself still names what it named, and the sweep
  counts the capabilities withdrawn.
\<close>

theorem revocation_exact:
  assumes "Table_inv t" and "Table_condemn t h = Inr c" and "Table_sweep c t = (n, t')"
  shows "(\<forall>i s. derived t h i \<longrightarrow> Table_at t i = Some s \<longrightarrow>
            Table_inspect t' (handle_at i s) = Inl revoked)
    \<and> (\<forall>i. \<not> derived t h i \<longrightarrow> Table_at t' i = Table_at t i)
    \<and> Table_inspect t' h = Table_inspect t h
    \<and> n = card {i. derived t h i}"
proof (intro conjI allI impI)
  have wf: "Table_wf t" and sh: "Table_shape t" using assms(1) by (auto simp: Table_inv_def)
  have wf': "Table_wf t'" using keeps_sweep [OF wf assms(3)] by (simp add: keeps_def)
  have c: "Condemned_holds c i = derived t h i" for i
    using condemn_Inr(1) [OF assms(2)] descendants_iff [OF sh] by simp
  have at': "Table_at t' i = (if derived t h i
      then map_option (Slot_clear (tbl_posts_notices t)) (Table_at t i) else Table_at t i)" for i
    using sweep_at [OF wf, of c] assms(3) c by simp
  show "Table_at t' i = Table_at t i" if "\<not> derived t h i" for i using that by (simp add: at')
  show "Table_inspect t' h = Table_inspect t h"
  proof (rule inspect_cong [OF sh])
    obtain f where "Table_inspect t h = Inr f" using condemn_Inr(2) [OF assms(2)] by blast
    then have "Table_resolve t h = Inr (unat (Handle_index h))" by (auto simp: inspect_iff [OF wf])
    then show "Table_at t' (unat (Handle_index h)) = Table_at t (unat (Handle_index h))"
      using root_not_derived [OF assms(1)] by (simp add: at')
  qed (use wf' in blast)
  have "{i. derived t h i} = {i. i < Table_capacity t \<and> derived t h i}"
    using derived_occupied Table_at_lt [OF sh] by blast
  then show "n = card {i. derived t h i}" using sweep_count [OF wf, of c] assms(3) by (simp add: c)
  fix i s assume d: "derived t h i" and s: "Table_at t i = Some s"
  have occ: "Slot_occupied s" using derived_occupied [OF d] s by simp
  have dd: "dead t' (handle_at i s)"
    using sweep_dead [OF wf _ s occ, of c] d c assms(3) by simp
  have "slot_ok s" using wf s by (rule wf_slot)
  then have "Handle_is_issuable (handle_at i s)"
    by (simp add: slot_ok_def handle_at_def Handle_is_issuable_def)
  moreover have "unat (Handle_index (handle_at i s)) < Table_capacity t'"
    using handle_at_index [OF sh s] at' [of i] d s Table_at_lt [OF wf_shape [OF wf']] by simp
  ultimately show "Table_inspect t' (handle_at i s) = Inl revoked"
    using dd wf' by (blast intro: dead_revoked)
qed

theorem revocation_exact_witness:
  "Table_inspect (snd (Table_sweep (Table_descendants demo (Handle_new 0 1)) demo)) (Handle_new 1 1)
     = Inl revoked
   \<and> Table_inspect (snd (Table_sweep (Table_descendants demo (Handle_new 0 1)) demo)) (Handle_new 0 1)
     = Table_inspect demo (Handle_new 0 1)"
  using revocation_exact [OF demo_inv demo_condemn prod.collapse [symmetric]] demo_derived demo_child
  by (auto simp: handle_at_def)

lemma clear_all_unoccupied:
  assumes "Table_wf t" and "Table_at (Table_clear_all t) i = Some s"
  shows "\<not> Slot_occupied s" and "Slot_notice s = Quiet" and "i < TABLE_SLOTS"
proof -
  obtain s1 where s1: "Table_at (clear_occupied [0..<Table_capacity t] t) i = Some s1"
    and s: "s = Slot_set_notice Quiet s1" and i: "i < TABLE_SLOTS"
    using assms(2) by (auto simp: Table_at_clear_all [OF assms(1)] split: if_splits)
  have "i < Table_capacity t" using i by (simp add: Table_capacity_def)
  then have "\<not> Slot_occupied s1" using clear_occupied_unoccupied [OF assms(1) _ s1] by simp
  then show "\<not> Slot_occupied s" and "Slot_notice s = Quiet" and "i < TABLE_SLOTS"
    using s i by simp_all
qed

lemma clear_all_refuses:
  assumes "Table_wf t"
  shows "\<not> is_ok (Table_inspect (Table_clear_all t) h)"
proof
  assume "is_ok (Table_inspect (Table_clear_all t) h)"
  moreover have wf': "Table_wf (Table_clear_all t)"
    using keeps_clear_all [OF assms] by (simp add: keeps_def)
  ultimately obtain s where "Table_at (Table_clear_all t) (unat (Handle_index h)) = Some s"
    "Slot_occupied s"
    by (cases "Table_inspect (Table_clear_all t) h")
       (auto simp: inspect_iff [OF wf'] resolve_iff [OF wf_shape [OF wf']])
  then show False using clear_all_unoccupied [OF assms] by blast
qed

text \<open>
  C2: Authority never comes back. Once a handle that named a capability is refused, it is refused
  after every further history of grants, derivations, growths, revocations, notices and
  \<open>clear_all\<close>s, however the slots are reused and the pages bought again.
\<close>

theorem authority_never_returns:
  assumes "Table_inv t" and "Table_inspect t h = Inr f"
    and "table_step\<^sup>*\<^sup>* t t'" and "\<not> is_ok (Table_inspect t' h)" and "table_step\<^sup>*\<^sup>* t' t''"
  shows "\<not> is_ok (Table_inspect t'' h)"
  using assms by (rule kernel.no_resurrection)

theorem authority_never_returns_witness:
  "\<not> is_ok (Table_inspect (snd (Table_grant Untyped rights_ALL 0 0 (Table_clear_all demo))) (Handle_new 0 1))"
proof (rule authority_never_returns [OF demo_inv demo_inspect])
  show "table_step\<^sup>*\<^sup>* demo (Table_clear_all demo)" using table_step.clear_all by blast
  show "\<not> is_ok (Table_inspect (Table_clear_all demo) (Handle_new 0 1))" 
    using clear_all_refuses demo_inv by (auto simp: Table_inv_def)
  show "table_step\<^sup>*\<^sup>* (Table_clear_all demo) (snd (Table_grant Untyped rights_ALL 0 0 (Table_clear_all demo)))"
    by (rule r_into_rtranclp, rule table_step.grant, rule prod.collapse [symmetric])
qed

text \<open>
  C7: A table forgotten with \<open>clear_all\<close> holds nothing, owes nothing and is back to its embedded
  slots, and every handle its last owner could use is dead: refused now and in every later life
  of the table.
\<close>

theorem clear_all_forgets:
  assumes "Table_inv t"
  shows "Table_used (Table_clear_all t) = 0 \<and> Table_owes (Table_clear_all t) = 0
    \<and> Table_capacity (Table_clear_all t) = TABLE_SLOTS
    \<and> (\<forall>h f t'. Table_inspect t h = Inr f \<longrightarrow> table_step\<^sup>*\<^sup>* (Table_clear_all t) t' \<longrightarrow>
         \<not> is_ok (Table_inspect t' h))"
proof (intro conjI allI impI)
  have wf: "Table_wf t" using assms by (simp add: Table_inv_def)
  note off = clear_all_unoccupied [OF wf]
  show "Table_used (Table_clear_all t) = 0"
    using off(1) by (auto simp: Table_used_def filter_empty_conv split: option.splits)
  have "(case Table_at (Table_clear_all t) i of None \<Rightarrow> 0 | Some s \<Rightarrow> Pending_owed (Slot_notice s)) = 0" for i
    using off(2) [of i] by (auto split: option.splits)
  moreover have "\<not> Promise_is_owed (tbl_stop (Table_clear_all t))"
      "\<not> Grade_is_owed (tbl_pressure (Table_clear_all t))"
      "\<not> Grade_is_owed (tbl_generation (Table_clear_all t))"
    by (simp_all add: Table_clear_all_def Let_def Promise_is_owed_def Promise_NONE_def
        Grade_is_owed_def Grade_NONE_def)
  ultimately show "Table_owes (Table_clear_all t) = 0"
    unfolding Table_owes_def by simp
  show "Table_capacity (Table_clear_all t) = TABLE_SLOTS"
    by (simp add: Table_capacity_def Table_clear_all_def Let_def)
  fix h f t' assume "Table_inspect t h = Inr f" and "table_step\<^sup>*\<^sup>* (Table_clear_all t) t'"
  then show "\<not> is_ok (Table_inspect t' h)"
    using kernel.no_resurrection [OF assms _ r_into_rtranclp [of table_step, OF table_step.clear_all]]
      clear_all_refuses [OF wf] by blast
qed

theorem clear_all_forgets_witness:
  "Table_inspect demo (Handle_new 0 1) \<noteq> Inl revoked \<and> Table_used (Table_clear_all demo) = 0
   \<and> \<not> is_ok (Table_inspect (Table_clear_all demo) (Handle_new 0 1))"
  using clear_all_forgets [OF demo_inv] demo_inspect by auto

subsection \<open>Attenuation\<close>



subsection \<open>Deriving\<close>

lemma place_Inr:
  assumes "Table_wf t" and "Table_place k r ob e p t = (Inr h', t')"
  obtains i s where "Table_at t i = Some s" "\<not> Slot_occupied s" "h' = handle_at i s"
    "unat (Handle_index h') = i" "Handle_is_issuable h'"
    "\<And>j. Table_at t' j = (if i = j
       then Some (Slot_place (tbl_posts_notices t) k r ob e p s) else Table_at t j)"
proof -
  have sh: "Table_shape t" using assms(1) by blast
  obtain i s where i: "i < Table_capacity t" "Table_at t i = Some s" "\<not> Slot_occupied s"
      "h' = handle_at i s"
      "t' = Table_at_mut i (Slot_place (tbl_posts_notices t) k r ob e p s) t"
    using assms(2) Table_vacancy_Some [of t]
    by (auto simp: Table_place_def handle_at_def split: option.splits)
  then have "Handle_is_issuable h'"
    using wf_slot [OF assms(1) i(2)] by (simp add: handle_at_def slot_ok_def Handle_is_issuable_def)
  with i show thesis using that handle_at_index [OF sh] Table_at_at_mut [OF sh] by blast
qed

text \<open>What \<open>retype\<close> hands on, and what it leaves in the slot it read.\<close>

lemma retype_Inr:
  assumes "Table_shape t" and "Table_retype h t = (Inr (k, ob, e), t')"
  obtains s s' k0 where "Table_at t (unat (Handle_index h)) = Some s"
    "Table_at t' (unat (Handle_index h)) = Some s'" "Slot_cap_kind s = Some k0"
    "if k0 = Untyped then k = Frame \<and> e = FRAME_SIZE \<and> slot_object s' = ob + FRAME_SIZE
     else k = k0 \<and> ob = slot_object s \<and> e = slot_extent s \<and> s' = s"
proof -
  obtain i s k0 where i: "Table_resolve t h = Inr i" "Table_at t i = Some s" "Slot_cap_kind s = Some k0"
    using assms(2) by (auto simp: Table_retype_def split: sum.splits option.splits if_splits)
  then have "i = unat (Handle_index h)" by (simp add: resolve_iff [OF assms(1)])
  then show thesis
    using assms(2) i that Table_at_at_mut [OF assms(1) Table_at_lt [OF assms(1) i(2)]]
    by (fastforce simp: Table_retype_def carved_def split: if_splits option.splits)
qed

lemma derive_Inr:
  assumes "Table_derive h asked reach t = (Inr h', t')"
  obtains f t1 k ob e t2 where "\<not> rights_unknown asked" "Table_invoke_any t h rights_DERIVE = Inr f"
    "rights_narrows (found_rights f) asked" "t1 = t \<or> Table_grow reach t = (Inr (), t1)"
    "Table_retype h t1 = (Inr (k, ob, e), t2)" "Table_place k asked ob e h t2 = (Inr h', t')"
  using assms
  by (auto simp: Table_derive_def split: if_splits sum.splits prod.splits) blast+

text \<open>The state a successful derivation places into, with what has become of the parent.\<close>

lemma derive_placed:
  assumes inv: "Table_inv t" and fresh: "fresh_backing reach t"
    and eq: "Table_derive h asked reach t = (Inr h', t')"
  obtains f t2 s2 k ob e where "Table_inspect t h = Inr f" "\<not> rights_unknown asked"
    "rights_holds (found_rights f) rights_DERIVE" "rights_narrows (found_rights f) asked"
    "stable t t2" "Table_wf t2" "Table_resolve t2 h = Inr (unat (Handle_index h))"
    "Table_at t2 (unat (Handle_index h)) = Some s2" "Slot_cap_kind s2 = Some (found_kind f)"
    "slot_rights s2 = found_rights f" "Slot_occupied s2"
    "slot_top s2 = unat (found_object f) + unat (found_extent f)"
    "Table_place k asked ob e h t2 = (Inr h', t')"
    "if found_kind f = Untyped then k = Frame \<and> e = FRAME_SIZE \<and> slot_object s2 = ob + FRAME_SIZE
     else k = found_kind f \<and> ob = slot_object s2 \<and> e = slot_extent s2"
  using eq
proof (rule derive_Inr)
  fix f t1 k ob e t2
  assume d: "\<not> rights_unknown asked" "Table_invoke_any t h rights_DERIVE = Inr f"
    "rights_narrows (found_rights f) asked" "t1 = t \<or> Table_grow reach t = (Inr (), t1)"
    "Table_retype h t1 = (Inr (k, ob, e), t2)" "Table_place k asked ob e h t2 = (Inr h', t')"
  let ?j = "unat (Handle_index h)"
  have wf: "Table_wf t" and sh: "Table_shape t" using inv by (auto simp: Table_inv_def)
  have f: "Table_inspect t h = Inr f" "rights_holds (found_rights f) rights_DERIVE"
    using d(2) by (auto simp: Table_invoke_any_def and_then_Inr_iff split: if_splits)
  have st1: "stable t t1" and wf1: "Table_wf t1"
    using d(4) stable_grow [OF wf fresh] keeps_grow [OF wf fresh] wf by (auto simp: keeps_def)
  have sh1: "Table_shape t1" using wf1 by blast
  have st2: "stable t t2" using st1 stable_retype [OF sh1 d(5)] by (rule stable_trans)
  have wf2: "Table_wf t2" using keeps_retype [OF wf1 d(5)] by (simp add: keeps_def)
  obtain s where s: "Table_at t ?j = Some s" "Slot_cap_kind s = Some (found_kind f)" "Slot_occupied s"
    "slot_rights s = found_rights f" "slot_object s = found_object f" "slot_extent s = found_extent f"
    "Table_resolve t h = Inr ?j"
    using f(1) by (auto simp: inspect_iff [OF wf] resolve_iff [OF sh])
  have res2: "Table_resolve t2 h = Inr ?j" using sh wf_shape [OF wf2] st2 s(7) by (rule stable_resolve)
  obtain s2 where s2: "Table_at t2 ?j = Some s2" "Slot_cap_kind s2 = Some (found_kind f)"
    "slot_rights s2 = found_rights f" "Slot_occupied s2" "slot_top s2 = slot_top s"
    using st2 s(1-4) unfolding stable_def by metis
  have "if found_kind f = Untyped
       then k = Frame \<and> e = FRAME_SIZE \<and> slot_object s2 = ob + FRAME_SIZE
       else k = found_kind f \<and> ob = slot_object s2 \<and> e = slot_extent s2"
    using sh1 d(5)
  proof (rule retype_Inr)
    fix s1 s2' k0
    assume r: "Table_at t1 ?j = Some s1" "Table_at t2 ?j = Some s2'" "Slot_cap_kind s1 = Some k0"
      "if k0 = Untyped then k = Frame \<and> e = FRAME_SIZE \<and> slot_object s2' = ob + FRAME_SIZE
       else k = k0 \<and> ob = slot_object s1 \<and> e = slot_extent s1 \<and> s2' = s1"
    have "k0 = found_kind f" using st1 s(1,2) r(1,3) unfolding stable_def by (metis option.inject)
    then show ?thesis using r s2(1) by (auto split: if_splits)
  qed
  then show thesis
    using that [OF f(1) d(1) f(2) d(3) st2 wf2 res2 s2(1-4) _ d(6)] s2(5) s(5,6)
    by (simp add: slot_top_def)
qed

text \<open>
  C4: A derivation that succeeds was asked for known rights that the parent holds, of a parent
  holding \<open>DERIVE\<close>; its handle names a fresh slot, one level below the parent, holding exactly the
  rights asked for. A frame derived from an untyped account lies right below the account's new
  watermark, and the account's top does not move; anything else derived is the parent's own
  object.
\<close>

theorem derive_correct:
  assumes "Table_inv t" and "fresh_backing reach t" and "Table_derive h asked reach t = (Inr h', t')"
  shows "\<exists>f f' g. Table_inspect t h = Inr f \<and> Table_inspect t' h' = Inr f' \<and> Table_inspect t' h = Inr g
    \<and> \<not> rights_unknown asked \<and> rights_holds (found_rights f) rights_DERIVE
    \<and> rights_narrows (found_rights f) asked \<and> found_rights f' = asked
    \<and> \<not> is_ok (Table_inspect t h') \<and> derived t' h (unat (Handle_index h'))
    \<and> found_kind g = found_kind f \<and> found_rights g = found_rights f
    \<and> unat (found_object g) + unat (found_extent g) = unat (found_object f) + unat (found_extent f)
    \<and> (if found_kind f = Untyped
       then found_kind f' = Frame \<and> found_extent f' = FRAME_SIZE
         \<and> found_object g = found_object f' + FRAME_SIZE
       else found_kind f' = found_kind f \<and> found_object f' = found_object g
         \<and> found_extent f' = found_extent g)"
  using assms
proof (rule derive_placed)
  fix f t2 s2 k ob e
  let ?j = "unat (Handle_index h)"
  assume f: "Table_inspect t h = Inr f" "\<not> rights_unknown asked"
    "rights_holds (found_rights f) rights_DERIVE" "rights_narrows (found_rights f) asked"
    and st2: "stable t t2" and wf2: "Table_wf t2" and res2: "Table_resolve t2 h = Inr ?j"
    and s2: "Table_at t2 ?j = Some s2" "Slot_cap_kind s2 = Some (found_kind f)"
    "slot_rights s2 = found_rights f" "Slot_occupied s2"
    and top: "slot_top s2 = unat (found_object f) + unat (found_extent f)"
    and pl: "Table_place k asked ob e h t2 = (Inr h', t')"
    and re: "if found_kind f = Untyped then k = Frame \<and> e = FRAME_SIZE \<and> slot_object s2 = ob + FRAME_SIZE
     else k = found_kind f \<and> ob = slot_object s2 \<and> e = slot_extent s2"
  have wf: "Table_wf t" using assms(1) by (simp add: Table_inv_def)
  have wf': "Table_wf t'" using keeps_place [OF wf2 pl] by (simp add: keeps_def)
  note rs = resolve_iff [OF wf_shape [OF wf]] resolve_iff [OF wf_shape [OF wf2]]
    resolve_iff [OF wf_shape [OF wf']]
  obtain i sn where i: "Table_at t2 i = Some sn" "\<not> Slot_occupied sn" "h' = handle_at i sn"
    "unat (Handle_index h') = i" "Handle_is_issuable h'"
    and at': "\<And>j. Table_at t' j = (if i = j
       then Some (Slot_place (tbl_posts_notices t2) k asked ob e h sn) else Table_at t2 j)"
    using wf2 pl by (rule place_Inr) blast
  have ij: "i \<noteq> ?j" using i(1,2) s2(1,4) by auto
  have h: "Table_resolve t' h = Inr ?j" "Handle_is_issuable h" using res2 ij by (auto simp: rs at')
  then have g: "Table_inspect t' h = Inr \<lparr>found_kind = found_kind f, found_rights = found_rights f,
      found_object = slot_object s2, found_extent = slot_extent s2\<rparr>"
    using s2 ij by (simp add: inspect_iff [OF wf'] at')
  have f': "Table_inspect t' h' = Inr \<lparr>found_kind = k, found_rights = asked, found_object = ob,
      found_extent = e\<rparr>"
    using i by (auto simp: inspect_iff [OF wf'] rs at' handle_at_def)
  have new: "\<not> is_ok (Table_inspect t h')"
  proof
    assume "is_ok (Table_inspect t h')"
    then obtain s0 where "Table_at t i = Some s0" "Slot_occupied s0"
      using i(4) by (cases "Table_inspect t h'") (auto simp: inspect_iff [OF wf] rs)
    then show False using st2 i(1,2) unfolding stable_def by (metis option.inject)
  qed
  have "derived t' h (unat (Handle_index h'))"
    by (rule derived.child) (use i at' h in auto)
  then show ?thesis
    using f g f' new re top by (auto simp: slot_top_def)
qed

lemma demo_derive_result:
  "fst (Table_derive (Handle_new 0 1) (rights_READ OR rights_WRITE) (\<lambda>_. None) demo_account)
     = Inr (Handle_new 1 1)"
  by code_simp

theorem derive_correct_witness:
  "\<exists>f'. Table_inspect demo (Handle_new 1 1) = Inr f' \<and> found_rights f' = rights_READ OR rights_WRITE"
proof -
  have "Table_derive (Handle_new 0 1) (rights_READ OR rights_WRITE) (\<lambda>_. None) demo_account
      = (Inr (Handle_new 1 1), demo)"
    unfolding demo_def using demo_derive_result by (metis prod.collapse)
  from derive_correct [OF demo_account_inv demo_fresh this] show ?thesis by blast
qed

subsection \<open>Looking up\<close>

lemma invoke_Inr_iff:
  "Table_invoke t h k asked = Inr f \<longleftrightarrow>
     Table_inspect t h = Inr f \<and> found_kind f = k \<and> rights_holds (found_rights f) asked"
  by (auto simp: Table_invoke_def and_then_Inr_iff split: if_splits)

text \<open>
  C5: A use of a capability succeeds for exactly the handles the table issued and still honours:
  the handle of an occupied slot under that slot's present generation, of the type asked for and
  holding every right asked for; and what it finds is what the slot holds.
\<close>

theorem invoke_exact:
  assumes "Table_inv t"
  shows "Table_invoke t h k asked = Inr f \<longleftrightarrow>
    (\<exists>i s. Table_at t i = Some s \<and> Slot_occupied s \<and> h = handle_at i s \<and> Slot_cap_kind s = Some k
       \<and> rights_holds (slot_rights s) asked
       \<and> f = \<lparr>found_kind = k, found_rights = slot_rights s, found_object = slot_object s,
            found_extent = slot_extent s\<rparr>)" (is "?l = ?r")
proof -
  have wf: "Table_wf t" and sh: "Table_shape t" using assms by (auto simp: Table_inv_def)
  have named: "Table_resolve t h = Inr (unat (Handle_index h)) \<and> Table_at t (unat (Handle_index h)) = Some s
      \<longleftrightarrow> Table_at t (unat (Handle_index h)) = Some s \<and> Slot_occupied s
        \<and> h = handle_at (unat (Handle_index h)) s" for s
    using wf_slot [OF wf, of "unat (Handle_index h)" s]
    by (auto simp: resolve_iff [OF sh] handle_at_def slot_ok_def Handle_is_issuable_def Handle_eq_iff)
  have index: "i = unat (Handle_index (handle_at i s))" if "Table_at t i = Some s" for i s
    using handle_at_index [OF sh that] by simp
  have "?l \<longleftrightarrow> (\<exists>s. Table_resolve t h = Inr (unat (Handle_index h)) \<and> Table_at t (unat (Handle_index h)) = Some s
      \<and> Slot_cap_kind s = Some k \<and> rights_holds (slot_rights s) asked
      \<and> f = \<lparr>found_kind = k, found_rights = slot_rights s, found_object = slot_object s,
           found_extent = slot_extent s\<rparr>)"
    by (auto simp: invoke_Inr_iff inspect_iff [OF wf])
  also have "\<dots> \<longleftrightarrow> ?r" using named index by metis
  finally show ?thesis .
qed

theorem invoke_exact_witness:
  "\<exists>f. Table_invoke demo (Handle_new 1 1) Frame rights_READ = Inr f"
proof -
  have "\<exists>i s. Table_at demo i = Some s \<and> Slot_occupied s \<and> Handle_new 1 1 = handle_at i s
      \<and> Slot_cap_kind s = Some Frame \<and> rights_holds (slot_rights s) rights_READ"
    by (intro exI conjI, rule demo_child, rule demo_child_occupied)
       (simp_all add: handle_at_def Slot_cap_kind_def KIND_MASK_def KIND_BITS_def
         CapType_from_wire_def rights_holds_def rights_consts)
  then show ?thesis using invoke_exact [OF demo_inv] by blast
qed

subsection \<open>Giving a capability up\<close>

text \<open>
  C6: Relinquishing a handle withdraws that capability together with everything derived from it,
  and nothing else, and answers how many capabilities that was.
\<close>

theorem relinquish_exact:
  assumes "Table_inv t" and "Table_relinquish h t = (Inr n, t')"
  shows "\<not> is_ok (Table_inspect t' h)
    \<and> (\<forall>i. derived t h i \<longrightarrow> (\<forall>s. Table_at t' i = Some s \<longrightarrow> \<not> Slot_occupied s))
    \<and> (\<forall>i. i \<noteq> unat (Handle_index h) \<and> \<not> derived t h i \<longrightarrow> Table_at t' i = Table_at t i)
    \<and> n = Suc (card {i. derived t h i})"
proof -
  have wf: "Table_wf t" and sh: "Table_shape t" using assms(1) by (auto simp: Table_inv_def)
  let ?i = "unat (Handle_index h)" and ?c = "Condemned_mark (unat (Handle_index h)) (Table_descendants t h)"
  obtain c j where c: "Table_condemn t h = Inr c" and j: "Table_resolve t h = Inr j"
    and sw: "Table_sweep (Condemned_mark j c) t = (n, t')"
    using assms(2) by (auto simp: Table_relinquish_def split: sum.splits prod.splits)
  have ji: "j = ?i" using j by (simp add: resolve_iff [OF sh])
  have sw: "Table_sweep ?c t = (n, t')" using sw condemn_Inr(1) [OF c] ji by simp
  have i: "?i < Table_capacity t" using j ji Table_at_lt [OF sh] by (auto simp: resolve_iff [OF sh])
  then have holds: "Condemned_holds ?c k \<longleftrightarrow> derived t h k \<or> k = ?i" for k
    using capacity_bound [OF sh] descendants_covers [OF sh, of h]
    by (auto simp: Condemned_holds_mark descendants_iff [OF sh])
  have at': "Table_at t' k = (if derived t h k \<or> k = ?i
      then map_option (Slot_clear (tbl_posts_notices t)) (Table_at t k) else Table_at t k)" for k
    using sweep_at [OF wf, of ?c k] sw by (simp add: holds)
  have wf': "Table_wf t'" using keeps_sweep [OF wf sw] by (simp add: keeps_def)
  have gone: "\<not> is_ok (Table_inspect t' h)"
    by (cases "Table_inspect t' h")
       (auto simp: inspect_iff [OF wf'] resolve_iff [OF wf_shape [OF wf']] at')
  have lt: "derived t h k \<Longrightarrow> k < Table_capacity t" for k
    using derived_occupied Table_at_lt [OF sh] by blast
  have "{k. k < Table_capacity t \<and> Condemned_holds ?c k} = insert ?i {k. derived t h k}"
    using lt i by (auto simp: holds)
  moreover have "finite {k. derived t h k}"
    by (rule finite_subset [of _ "{..<Table_capacity t}"]) (use lt in auto)
  moreover have "\<not> derived t h ?i" using root_not_derived [OF assms(1)] j ji by blast
  ultimately have "n = Suc (card {i. derived t h i})"
    using sweep_count [OF wf, of ?c] sw by simp
  moreover have "\<not> Slot_occupied s" if "derived t h k" "Table_at t' k = Some s" for k s
    using that by (auto simp: at')
  moreover have "Table_at t' k = Table_at t k" if "k \<noteq> ?i" "\<not> derived t h k" for k
    using that by (simp add: at')
  ultimately show ?thesis using gone by blast
qed

lemma demo_relinquish:
  "\<exists>n t'. Table_relinquish (Handle_new 0 1) demo = (Inr n, t')"
proof -
  have "Table_resolve demo (Handle_new 0 1) = Inr 0"
    using demo_inspect demo_inv inspect_iff [of demo "Handle_new 0 1"] by (auto simp: Table_inv_def)
  then show ?thesis by (simp add: Table_relinquish_def demo_condemn split: prod.splits)
qed

theorem relinquish_exact_witness:
  "\<exists>n t'. Table_relinquish (Handle_new 0 1) demo = (Inr n, t') \<and> \<not> is_ok (Table_inspect t' (Handle_new 0 1))"
  using demo_relinquish relinquish_exact [OF demo_inv] by blast

subsection \<open>Walking the mappings to take down\<close>

definition condemned_mappings :: "Table \<Rightarrow> Condemned \<Rightarrow> u64 list" where
  "condemned_mappings t c = List.map_filter (\<lambda>i. if Condemned_holds c i
      then (case Table_at t i of None \<Rightarrow> None
            | Some s \<Rightarrow> if slot_mapped s \<noteq> NOT_MAPPED then Some (slot_mapped s) else None)
      else None) [cond_cursor c..<Table_capacity t]"

lemma condemned_mappings_step:
  "cond_cursor c < Table_capacity t \<Longrightarrow>
   condemned_mappings t c =
     (case (if Condemned_holds c (cond_cursor c)
      then (case Table_at t (cond_cursor c) of None \<Rightarrow> None
            | Some s \<Rightarrow> if slot_mapped s \<noteq> NOT_MAPPED then Some (slot_mapped s) else None)
      else None) of None \<Rightarrow> [] | Some v \<Rightarrow> [v])
     @ condemned_mappings t (c\<lparr>cond_cursor := cond_cursor c + 1\<rparr>)"
  by (auto simp: condemned_mappings_def upt_conv_Cons map_filter_simps Condemned_holds_def
      split: option.splits)

text \<open>
  Asking for the next mapping until there is none answers the address of every mapped
  condemned capability, each once and in slot order: one call takes the head of that list and
  leaves its tail, and the marks stand.
\<close>

theorem next_mapping_walk:
  "fst (Table_next_mapping t c) = (case condemned_mappings t c of [] \<Rightarrow> None | v # _ \<Rightarrow> Some v)
   \<and> condemned_mappings t (snd (Table_next_mapping t c)) = tl (condemned_mappings t c)
   \<and> cond_words (snd (Table_next_mapping t c)) = cond_words c"
  unfolding Table_next_mapping_def
proof (induction "Table_capacity t - cond_cursor c" arbitrary: c rule: less_induct)
  case less
  show ?case
  proof (cases "cond_cursor c < Table_capacity t")
    case True
    let ?c1 = "c\<lparr>cond_cursor := cond_cursor c + 1\<rparr>"
    define m where "m = (if Condemned_holds c (cond_cursor c)
      then (case Table_at t (cond_cursor c) of None \<Rightarrow> None
            | Some s \<Rightarrow> if slot_mapped s \<noteq> NOT_MAPPED then Some (slot_mapped s) else None)
      else None)"
    have "Condemned_holds ?c1 i = Condemned_holds c i" for i by (simp add: Condemned_holds_def)
    then have loop: "next_mapping_loop t c =
        (case m of None \<Rightarrow> next_mapping_loop t ?c1 | Some v \<Rightarrow> (Some v, ?c1))"
      using True
      by (simp add: next_mapping_loop.simps [of t c] m_def Let_def del: One_nat_def split: option.splits)
    have maps: "condemned_mappings t c = (case m of None \<Rightarrow> [] | Some v \<Rightarrow> [v]) @ condemned_mappings t ?c1"
      unfolding m_def by (rule condemned_mappings_step [OF True])
    show ?thesis
    proof (cases m)
      case None
      then show ?thesis using less [of ?c1] True by (simp add: loop maps)
    next
      case (Some v)
      then show ?thesis by (simp add: loop maps)
    qed
  next
    case False
    then show ?thesis
      by (simp add: next_mapping_loop.simps [of t c] condemned_mappings_def map_filter_simps)
  qed
qed

subsection \<open>Growing\<close>

definition vacant :: "Slot \<Rightarrow> bool" where
  "vacant s \<longleftrightarrow> \<not> Slot_occupied s \<and> slot_generation s \<noteq> Handle_RETIRED_GENERATION
     \<and> Pending_is_quiet (Slot_notice s)"

lemma vacancy_None_iff:
  "Table_shape t \<Longrightarrow> Table_vacancy t = None \<longleftrightarrow> (\<forall>i s. Table_at t i = Some s \<longrightarrow> \<not> vacant s)"
  using Table_at_lt [of t]
  by (fastforce simp: Table_vacancy_def find_upt_None_iff vacant_def split: option.splits)

lemma charge_vacant:
  assumes sh: "Table_shape t"
  shows "Table_vacancy (Table_charge a t) = None \<longleftrightarrow> Table_vacancy t = None"
proof -
  have sh': "Table_shape (Table_charge a t)"
    using sh by (auto simp: Table_charge_def intro!: at_mut_shape split: option.splits)
  have same: "vacant (s\<lparr>slot_object := ob, slot_extent := e\<rparr>) = vacant s" for s ob e
    by (simp add: vacant_def Slot_occupied_def Slot_notice_def)
  show ?thesis
  proof (cases "Table_charge a t = t")
    case False
    then obtain s ob e where s: "Table_at t a = Some s"
        "Table_charge a t = Table_at_mut a (s\<lparr>slot_object := ob, slot_extent := e\<rparr>) t"
      by (auto simp: Table_charge_def split: option.splits)
    have at': "Table_at (Table_charge a t) j =
        (if a = j then Some (s\<lparr>slot_object := ob, slot_extent := e\<rparr>) else Table_at t j)" for j
      unfolding s(2) by (rule Table_at_at_mut [OF sh Table_at_lt [OF sh s(1)]])
    show ?thesis using s(1) same by (auto simp: vacancy_None_iff [OF sh'] vacancy_None_iff [OF sh] at')
  qed simp
qed

lemma vacant_fresh: "vacant (Slot_fresh g) \<longleftrightarrow> g \<noteq> Handle_RETIRED_GENERATION"
  by (simp add: vacant_def Slot_fresh_def Slot_occupied_def Slot_notice_def KIND_BITS_def
      Pending_from_wire_def)

lemma add_page_vacancy:
  assumes "Table_shape t" and "tbl_grown t < MAX_PAGES"
    and "base \<notin> set (take (tbl_grown t) (tbl_pages t))"
  shows "Table_vacancy (add_page base t) = None \<longleftrightarrow>
    Table_vacancy t = None \<and> tbl_floor t = Handle_RETIRED_GENERATION"
proof -
  note at' = Table_at_add_page [OF assms]
  have "Table_at (add_page base t) (Table_capacity t) = Some (Slot_fresh (tbl_floor t))"
    by (simp add: at')
  moreover have "Table_at (add_page base t) i = Some s" if "Table_at t i = Some s" for i s
    using that Table_at_lt [OF assms(1)] by (simp add: at')
  moreover have "Table_at t i = Some s \<or> s = Slot_fresh (tbl_floor t)"
    if "Table_at (add_page base t) i = Some s" for i s
    using that by (auto simp: at' split: if_splits)
  ultimately show ?thesis
    unfolding vacancy_None_iff [OF add_page_shape [OF assms]] vacancy_None_iff [OF assms(1)]
    by (metis vacant_fresh)
qed

lemma stable_inspect:
  assumes wf: "Table_wf t" and wf': "Table_wf t'" and st: "stable t t'" and f: "Table_inspect t h = Inr f"
  shows "\<exists>g. Table_inspect t' h = Inr g \<and> found_kind g = found_kind f
      \<and> found_rights g = found_rights f
      \<and> unat (found_object g) + unat (found_extent g) = unat (found_object f) + unat (found_extent f)"
proof -
  let ?i = "unat (Handle_index h)"
  obtain s where s: "Table_resolve t h = Inr ?i" "Table_at t ?i = Some s"
      "Slot_cap_kind s = Some (found_kind f)" "slot_rights s = found_rights f"
      "slot_object s = found_object f" "slot_extent s = found_extent f"
    using f by (auto simp: inspect_iff [OF wf] resolve_iff [OF wf_shape [OF wf]])
  obtain s' where s': "Table_at t' ?i = Some s'" "Slot_cap_kind s' = Slot_cap_kind s"
      "slot_rights s' = slot_rights s" "slot_top s' = slot_top s"
    using st s(2) unfolding stable_def by metis
  have "Table_resolve t' h = Inr ?i"
    using wf_shape [OF wf] wf_shape [OF wf'] st s(1) by (rule stable_resolve)
  then have "Table_inspect t' h = Inr \<lparr>found_kind = found_kind f, found_rights = found_rights f,
      found_object = slot_object s', found_extent = slot_extent s'\<rparr>"
    using s s' by (simp add: inspect_iff [OF wf'])
  then show ?thesis using s s'(4) by (simp add: slot_top_def)
qed

text \<open>
  C8: Buying a page adds a page of slots and moves no capability: every handle that was honoured
  still is, with its type, its rights and its account's top. The page brings room unless the
  table's floor is the retired generation, in which case every slot it adds is born retired and
  the component has paid for none.
\<close>

theorem grow_exact:
  assumes "Table_inv t" and "fresh_backing reach t" and "Table_grow reach t = (Inr (), t')"
  shows "Table_capacity t' = Table_capacity t + SLOTS_PER_PAGE
    \<and> (Table_vacancy t' = None \<longleftrightarrow> Table_vacancy t = None \<and> tbl_floor t = Handle_RETIRED_GENERATION)
    \<and> (\<forall>h f. Table_inspect t h = Inr f \<longrightarrow> (\<exists>g. Table_inspect t' h = Inr g
         \<and> found_kind g = found_kind f \<and> found_rights g = found_rights f
         \<and> unat (found_object g) + unat (found_extent g)
           = unat (found_object f) + unat (found_extent f)))"
proof (intro conjI allI impI)
  have wf: "Table_wf t" and sh: "Table_shape t" using assms(1) by (auto simp: Table_inv_def)
  have wf': "Table_wf t'" using keeps_grow [OF wf assms(2,3)] by (simp add: keeps_def)
  obtain account s base where a: "account < Table_capacity t" "account_of t account"
      "Table_at t account = Some s" "reach (slot_object s) = Some base" "tbl_grown t < MAX_PAGES"
      and t': "t' = Table_charge account (add_page base t)"
    using Table_grow_cases [OF sh assms(3)] by (elim disjE exE conjE) (simp, blast)
  have new: "base \<notin> set (take (tbl_grown t) (tbl_pages t))"
    using assms(2) a unfolding fresh_backing_def by fastforce
  have "Table_capacity (Table_charge account u) = Table_capacity u" for u
    by (simp add: Table_charge_def split: option.splits)
  then show "Table_capacity t' = Table_capacity t + SLOTS_PER_PAGE"
    by (simp add: t' Table_capacity_def add_page_def Table_write_page_def)
  show "Table_vacancy t' = None \<longleftrightarrow> Table_vacancy t = None \<and> tbl_floor t = Handle_RETIRED_GENERATION"
    unfolding t' charge_vacant [OF add_page_shape [OF sh a(5) new]] by (rule add_page_vacancy [OF sh a(5) new])
  have st: "stable t t'" using wf assms(2,3) by (rule stable_grow)
  fix h f assume "Table_inspect t h = Inr f"
  then show "\<exists>g. Table_inspect t' h = Inr g \<and> found_kind g = found_kind f
      \<and> found_rights g = found_rights f
      \<and> unat (found_object g) + unat (found_extent g) = unat (found_object f) + unat (found_extent f)"
    by (rule stable_inspect [OF wf wf' st])
qed

lemma demo_grow_account: "List.find (account_of demo_account) [0..<Table_capacity demo_account] = Some 0"
  by code_simp

lemma demo_grow: "fst (Table_grow (\<lambda>_. Some 0x7000) demo_account) = Inr ()"
proof -
  have g: "tbl_grown demo_account = 0" "length (tbl_pages demo_account) = MAX_PAGES" by code_simp+
  obtain s where "Table_at demo_account 0 = Some s"
    using demo_grow_account by (auto simp: find_upt_Some_iff account_of_def split: option.splits)
  then show ?thesis
    using demo_grow_account g
    by (auto simp: Table_grow_def Table_write_page_def Let_def MAX_PAGES_def)
qed

theorem grow_exact_witness:
  "Table_capacity (snd (Table_grow (\<lambda>_. Some 0x7000) demo_account)) = TABLE_SLOTS + SLOTS_PER_PAGE"
proof -
  have g: "tbl_grown demo_account = 0" by code_simp
  then have "fresh_backing (\<lambda>_. Some 0x7000) demo_account"
    by (auto simp: fresh_backing_def split: option.splits)
  moreover have "Table_grow (\<lambda>_. Some 0x7000) demo_account
      = (Inr (), snd (Table_grow (\<lambda>_. Some 0x7000) demo_account))"
    using demo_grow by (metis prod.collapse)
  ultimately show ?thesis
    using grow_exact [OF demo_account_inv] g by (fastforce simp: Table_capacity_def)
qed

end
