(* ===== verification/Reserve.thy ===== *)
theory Reserve
  imports Abi_Cap
begin

text \<open>
  Admission and reservation (\<open>src/abi/src/reserve.rs\<close>): what a machine offers, what a component
  demands, and the table of whole cores, cache and bandwidth partitions and memory that answers
  yes or no. Counts of type \<open>u32\<close> and \<open>u64\<close> are natural numbers with the saturating operations
  written out at their width; core sets are 64-bit words. The plain additions of the source that
  a wrap could reach are shown not to overflow (\<open>admit_no_overflow\<close>, \<open>reserve_inv\<close>).
\<close>

subsection \<open>Arithmetic at a width\<close>

definition sat_add :: "nat \<Rightarrow> nat \<Rightarrow> nat \<Rightarrow> nat" where
  "sat_add w a b = min (a + b) (2 ^ w - 1)"

definition count_ones :: "u64 \<Rightarrow> nat" where
  "count_ones x = length (filter (bit x) [0..<64])"

lemma count_ones_card: "count_ones x = card {n. bit x n}"
proof -
  have "count_ones x = card (set (filter (bit x) [0..<64]))"
    unfolding count_ones_def by (subst distinct_card) simp_all
  also have "set (filter (bit x) [0..<64]) = {n. bit x n}"
    by (auto dest: bit_imp_le_length)
  finally show ?thesis .
qed

lemma finite_bits [simp]: "finite {n. bit x n}" for x :: u64
  by (rule finite_subset [of _ "{..<64}"]) (auto dest: bit_imp_le_length)

lemma count_ones_0 [simp]: "count_ones 0 = 0"
  by (simp add: count_ones_card)

lemma count_ones_eq_0 [simp]: "count_ones x = 0 \<longleftrightarrow> x = 0"
proof -
  have "count_ones x = 0 \<longleftrightarrow> (\<forall>n. \<not> bit x n)" by (simp add: count_ones_card)
  also have "\<dots> \<longleftrightarrow> x = 0"
    using bit_imp_le_length [of x] by (auto simp: bit_eq_iff)
  finally show ?thesis .
qed

subsection \<open>Vocabulary\<close>

definition RESERVATIONS_MAX :: nat where "RESERVATIONS_MAX = 18"
definition CORES_MAX :: nat where "CORES_MAX = 64"
definition HUGE_BYTES :: nat where "HUGE_BYTES = 2 * 1024 * 1024"

definition manifest_class_SOFT :: u8 where "manifest_class_SOFT = 1"
definition manifest_class_HARD :: u8 where "manifest_class_HARD = 2"

definition manifest_class_known :: "u8 \<Rightarrow> bool" where
  "manifest_class_known v \<longleftrightarrow> v = manifest_class_SOFT \<or> v = manifest_class_HARD"

definition domain_SHARED :: u8 where "domain_SHARED = 1"
definition domain_PRIVATE :: u8 where "domain_PRIVATE = 2"
definition domain_HOSTILE :: u8 where "domain_HOSTILE = 3"

definition domain_known :: "u8 \<Rightarrow> bool" where
  "domain_known v \<longleftrightarrow> v = domain_SHARED \<or> v = domain_PRIVATE \<or> v = domain_HOSTILE"

lemmas manifest_consts = manifest_class_SOFT_def manifest_class_HARD_def domain_SHARED_def
  domain_PRIVATE_def domain_HOSTILE_def

definition obtained_PARTITION :: u8 where "obtained_PARTITION = 1"
definition obtained_EXCLUSION :: u8 where "obtained_EXCLUSION = 2"
definition obtained_UNEXERCISED :: u8 where "obtained_UNEXERCISED = 3"

lemmas obtained_consts = obtained_PARTITION_def obtained_EXCLUSION_def obtained_UNEXERCISED_def

datatype Offers = Partition | Exclusion

record Machine =
  physical_cores :: nat
  threads_per_core :: nat
  cores_per_cache :: nat
  cores_per_bandwidth :: nat
  mach_cache :: Offers
  mach_bandwidth :: Offers
  partitions :: nat
  frame_cores :: nat
  reservable_bytes :: nat
  tick_ns :: nat

datatype Refusal = NotSchedulable | NoCore | NoBandwidth | Memory

fun Refusal_reason :: "Refusal \<Rightarrow> u16" where
  "Refusal_reason NotSchedulable = admission_NOT_SCHEDULABLE"
| "Refusal_reason NoCore = admission_NO_CORE"
| "Refusal_reason NoBandwidth = admission_NO_BANDWIDTH"
| "Refusal_reason Memory = admission_MEMORY"

definition Refusal_code :: "Refusal \<Rightarrow> i32" where
  "Refusal_code r = error_pack error_ADMISSION (Refusal_reason r)"

definition Machine_check :: "Machine \<Rightarrow> Refusal + unit" where
  "Machine_check m =
     (if physical_cores m = 0 \<or> physical_cores m > CORES_MAX then Inl NotSchedulable
      else if threads_per_core m = 0 \<or> cores_per_cache m = 0 \<or> cores_per_bandwidth m = 0
      then Inl NotSchedulable
      else if frame_cores m = 0 \<or> frame_cores m \<ge> physical_cores m then Inl NotSchedulable
      else if tick_ns m = 0 then Inl NotSchedulable
      else
        let partitions_needed = (mach_cache m = Partition \<or> mach_bandwidth m = Partition) in
        if partitions_needed \<and> partitions m = 0 then Inl NotSchedulable else Inr ())"

definition Machine_offerable :: "Machine \<Rightarrow> nat" where
  "Machine_offerable m = physical_cores m - frame_cores m"

record Demand =
  dem_cores :: nat
  dem_period_ns :: nat
  dem_budget_ns :: nat
  dem_memory_bytes :: nat
  dem_class :: u8
  dem_domain :: u8

definition Demand_whole_cores :: "Demand \<Rightarrow> nat" where
  "Demand_whole_cores d =
     (if dem_class d = manifest_class_HARD then dem_cores d
      else if dem_domain d = domain_HOSTILE then 1 else 0)"

definition Demand_hardened :: "Demand \<Rightarrow> nat \<Rightarrow> nat \<Rightarrow> nat \<Rightarrow> Demand" where
  "Demand_hardened d cores period_ns budget_ns =
     (let over = dem_memory_bytes d mod HUGE_BYTES;
          memory_bytes = (if over = 0 then dem_memory_bytes d
            else sat_add 64 (dem_memory_bytes d) (HUGE_BYTES - over))
      in \<lparr>dem_cores = cores, dem_period_ns = period_ns, dem_budget_ns = budget_ns,
          dem_memory_bytes = memory_bytes, dem_class = manifest_class_HARD,
          dem_domain = dem_domain d\<rparr>)"

record Grant =
  grt_cores :: u64
  grt_excluded :: u64
  grt_period_ns :: nat
  grt_budget_ns :: nat
  grt_memory_bytes :: nat
  grt_sibling :: u8
  grt_cache :: u8
  grt_bandwidth :: u8
  grt_memory :: u8
  grt_class :: u8

definition Grant_NONE :: Grant where
  "Grant_NONE =
     \<lparr>grt_cores = 0, grt_excluded = 0, grt_period_ns = 0, grt_budget_ns = 0, grt_memory_bytes = 0,
      grt_sibling = obtained_UNEXERCISED, grt_cache = obtained_UNEXERCISED,
      grt_bandwidth = obtained_UNEXERCISED, grt_memory = obtained_UNEXERCISED, grt_class = 0\<rparr>"

definition Grant_exercised :: "Grant \<Rightarrow> bool" where
  "Grant_exercised g \<longleftrightarrow> grt_sibling g \<noteq> obtained_UNEXERCISED \<and> grt_cache g \<noteq> obtained_UNEXERCISED
     \<and> grt_bandwidth g \<noteq> obtained_UNEXERCISED \<and> grt_memory g \<noteq> obtained_UNEXERCISED"

definition Grant_answers :: "Grant \<Rightarrow> Demand \<Rightarrow> bool" where
  "Grant_answers g d \<longleftrightarrow> grt_class g = dem_class d \<and> grt_period_ns g = dem_period_ns d
     \<and> grt_budget_ns g = dem_budget_ns d \<and> grt_memory_bytes g = dem_memory_bytes d
     \<and> count_ones (grt_cores g) = Demand_whole_cores d"

definition Grant_footprint :: "Grant \<Rightarrow> nat" where
  "Grant_footprint g = count_ones (grt_cores g OR grt_excluded g)"

definition Grant_slack_ns :: "Grant \<Rightarrow> nat option" where
  "Grant_slack_ns g =
     (if grt_period_ns g = 0 then None else Some (grt_period_ns g - grt_budget_ns g))"

datatype Depth = Computed nat | Fallback

record Reservations =
  res_machine :: Machine
  res_held :: "Grant list"
  res_count :: nat
  res_taken :: u64
  res_partitions_used :: nat
  res_memory_used :: nat
  res_admitted :: nat
  res_refused :: "nat list"

definition reserve_new :: "Machine \<Rightarrow> Refusal + Reservations" where
  "reserve_new m =
     and_then (Machine_check m) (\<lambda>_.
       Inr \<lparr>res_machine = m, res_held = replicate RESERVATIONS_MAX Grant_NONE, res_count = 0,
            res_taken = 0, res_partitions_used = 0, res_memory_used = 0, res_admitted = 0,
            res_refused = replicate 4 0\<rparr>)"

definition reserve_grants :: "Reservations \<Rightarrow> Grant list" where
  "reserve_grants t =
     (if res_count t \<le> length (res_held t) then take (res_count t) (res_held t) else [])"

fun refusal_slot :: "Refusal \<Rightarrow> nat" where
  "refusal_slot NotSchedulable = 0"
| "refusal_slot NoCore = 1"
| "refusal_slot NoBandwidth = 2"
| "refusal_slot Memory = 3"

definition reserve_admissions :: "Reservations \<Rightarrow> nat" where
  "reserve_admissions t = res_admitted t"

definition reserve_refusals :: "Reservations \<Rightarrow> nat" where
  "reserve_refusals t = sum_list (res_refused t) mod 2 ^ 32"

definition reserve_refusals_of :: "Reservations \<Rightarrow> Refusal \<Rightarrow> nat" where
  "reserve_refusals_of t why = res_refused t ! refusal_slot why"

subsection \<open>Choosing cores\<close>

definition round_up :: "nat \<Rightarrow> nat \<Rightarrow> nat" where
  "round_up value grain =
     (if grain \<le> 1 then value
      else let over = value mod grain in
           if over = 0 then value else sat_add 32 value (grain - over))"

definition run_mask :: "nat \<Rightarrow> nat \<Rightarrow> u64" where
  "run_mask base count =
     (if count = 0 \<or> base \<ge> CORES_MAX then 0
      else
        let width = (if count \<ge> CORES_MAX then CORES_MAX else count);
            ones = (if width \<ge> 64 then - 1 else push_bit width 1 - 1)
        in push_bit base ones)"

definition exclusion_grain :: "Machine \<Rightarrow> nat" where
  "exclusion_grain m =
     (let grain = (1 :: nat);
          grain = (if mach_cache m = Exclusion \<and> cores_per_cache m > grain
                   then cores_per_cache m else grain);
          grain = (if mach_bandwidth m = Exclusion \<and> cores_per_bandwidth m > grain
                   then cores_per_bandwidth m else grain)
      in grain)"

function lowest_free_loop :: "nat \<Rightarrow> u64 \<Rightarrow> nat \<Rightarrow> nat \<Rightarrow> nat \<Rightarrow> u64 option" where
  "lowest_free_loop physical taken count grain base =
     (let step = (if grain = 0 then 1 else grain) in
      if base + count \<le> physical then
        let mask = run_mask base count in
        if taken AND mask = 0 then Some mask
        else lowest_free_loop physical taken count grain (base + step)
      else None)"
  by pat_completeness auto
termination
  by (relation "measure (\<lambda>(physical, taken, count, grain, base). Suc physical - base)") auto

declare lowest_free_loop.simps [simp del]

definition lowest_free :: "Reservations \<Rightarrow> nat \<Rightarrow> nat \<Rightarrow> u64 option" where
  "lowest_free t count grain =
     (let step = (if grain = 0 then 1 else grain) in
      lowest_free_loop (physical_cores (res_machine t)) (res_taken t) count grain
        (round_up (frame_cores (res_machine t)) step))"

function with_split_loop :: "u64 \<Rightarrow> nat \<Rightarrow> nat \<Rightarrow> u64 \<Rightarrow> u64" where
  "with_split_loop footprint bit' left running =
     (if bit' < CORES_MAX \<and> left > 0 then
        if footprint AND push_bit bit' 1 \<noteq> 0
        then with_split_loop footprint (bit' + 1) (left - 1) (running OR push_bit bit' 1)
        else with_split_loop footprint (bit' + 1) left running
      else running)"
  by pat_completeness auto
termination
  by (relation "measure (\<lambda>(f, b, l, r). CORES_MAX - b)") auto

declare with_split_loop.simps [simp del]

definition Grant_with_split :: "Grant \<Rightarrow> u64 \<Rightarrow> nat \<Rightarrow> Grant" where
  "Grant_with_split g footprint wanted =
     (let running = with_split_loop footprint 0 wanted 0 in
      g\<lparr>grt_cores := running, grt_excluded := footprint AND NOT running\<rparr>)"

subsection \<open>Admitting, granting, releasing\<close>

definition partitions_wanted :: "Machine \<Rightarrow> nat" where
  "partitions_wanted m = of_bool (mach_cache m = Partition) + of_bool (mach_bandwidth m = Partition)"

definition admit_cpu :: "Machine \<Rightarrow> Demand \<Rightarrow> Refusal + unit" where
  "admit_cpu m d =
     (if dem_class d = manifest_class_HARD then
        if dem_cores d = 0 \<or> dem_period_ns d = 0 \<or> dem_budget_ns d = 0 then Inl NotSchedulable
        else if dem_budget_ns d > dem_period_ns d then Inl NotSchedulable
        else if dem_period_ns d < tick_ns m then Inl NotSchedulable
        else if dem_period_ns d - dem_budget_ns d < tick_ns m then Inl NotSchedulable
        else Inr ()
      else if dem_cores d \<noteq> 0 \<or> dem_period_ns d \<noteq> 0 \<or> dem_budget_ns d \<noteq> 0
      then Inl NotSchedulable
      else Inr ())"

definition admit_memory :: "Reservations \<Rightarrow> Demand \<Rightarrow> Refusal + unit" where
  "admit_memory t d =
     (if dem_memory_bytes d = 0 then Inl Memory
      else if dem_class d = manifest_class_HARD then
        if \<not> HUGE_BYTES dvd dem_memory_bytes d then Inl Memory
        else if reservable_bytes (res_machine t) < res_memory_used t then Inl Memory
        else if dem_memory_bytes d > reservable_bytes (res_machine t) - res_memory_used t
        then Inl Memory
        else Inr ()
      else Inr ())"

definition admit_cores :: "Reservations \<Rightarrow> Demand \<Rightarrow> Refusal + Grant" where
  "admit_cores t d =
     (let m = res_machine t; wanted = Demand_whole_cores d in
      if wanted = 0 then
        Inr \<lparr>grt_cores = 0, grt_excluded = 0, grt_period_ns = 0, grt_budget_ns = 0,
             grt_memory_bytes = dem_memory_bytes d, grt_sibling = obtained_UNEXERCISED,
             grt_cache = obtained_UNEXERCISED, grt_bandwidth = obtained_UNEXERCISED,
             grt_memory = obtained_UNEXERCISED, grt_class = dem_class d\<rparr>
      else
        let grain = exclusion_grain m; footprint = round_up wanted grain in
        if footprint > Machine_offerable m then Inl NoCore
        else
          (case lowest_free t footprint grain of
             None \<Rightarrow> Inl NoCore
           | Some taken \<Rightarrow>
               if res_partitions_used t + partitions_wanted m > partitions m then Inl NoBandwidth
               else Inr (Grant_with_split
                 \<lparr>grt_cores = 0, grt_excluded = 0, grt_period_ns = dem_period_ns d,
                  grt_budget_ns = dem_budget_ns d, grt_memory_bytes = dem_memory_bytes d,
                  grt_sibling = (if threads_per_core m > 1 then obtained_EXCLUSION
                                 else obtained_UNEXERCISED),
                  grt_cache = (case mach_cache m of Partition \<Rightarrow> obtained_PARTITION
                               | Exclusion \<Rightarrow> obtained_EXCLUSION),
                  grt_bandwidth = (case mach_bandwidth m of Partition \<Rightarrow> obtained_PARTITION
                                   | Exclusion \<Rightarrow> obtained_EXCLUSION),
                  grt_memory = obtained_PARTITION, grt_class = dem_class d\<rparr> taken wanted)))"

definition reserve_admit :: "Reservations \<Rightarrow> Demand \<Rightarrow> Refusal + Grant" where
  "reserve_admit t d =
     (if \<not> manifest_class_known (dem_class d) \<or> \<not> domain_known (dem_domain d)
      then Inl NotSchedulable
      else
        and_then (admit_cpu (res_machine t) d) (\<lambda>_.
        and_then (admit_memory t d) (\<lambda>_.
        admit_cores t d)))"

definition count_refusal :: "Refusal \<Rightarrow> Reservations \<Rightarrow> Reservations" where
  "count_refusal why t =
     t\<lparr>res_refused := (res_refused t)
        [refusal_slot why := sat_add 32 (res_refused t ! refusal_slot why) 1]\<rparr>"

definition reserve_grant :: "Demand \<Rightarrow> Reservations \<Rightarrow> (Refusal + Grant) \<times> Reservations" where
  "reserve_grant d t =
     (case reserve_admit t d of
        Inl why \<Rightarrow> (Inl why, count_refusal why t)
      | Inr g \<Rightarrow>
          if res_count t \<ge> RESERVATIONS_MAX then (Inl NoCore, count_refusal NoCore t)
          else
            (Inr g,
             t\<lparr>res_held := (res_held t)[res_count t := g], res_count := res_count t + 1,
               res_taken := res_taken t OR (grt_cores g OR grt_excluded g),
               res_memory_used :=
                 (if grt_class g = manifest_class_HARD
                  then sat_add 64 (res_memory_used t) (grt_memory_bytes g) else res_memory_used t),
               res_partitions_used :=
                 (if Grant_footprint g > 0
                  then sat_add 32 (res_partitions_used t) (partitions_wanted (res_machine t))
                  else res_partitions_used t),
               res_admitted := sat_add 32 (res_admitted t) 1\<rparr>))"

definition grant_matches :: "Grant \<Rightarrow> Grant \<Rightarrow> bool" where
  "grant_matches g held \<longleftrightarrow> grt_cores held = grt_cores g \<and> grt_excluded held = grt_excluded g
     \<and> grt_memory_bytes held = grt_memory_bytes g \<and> grt_period_ns held = grt_period_ns g"

fun shift_down :: "nat list \<Rightarrow> Grant list \<Rightarrow> Grant list" where
  "shift_down [] held = held"
| "shift_down (slot # rest) held = shift_down rest (held[slot := held ! (slot + 1)])"

definition reserve_release :: "Grant \<Rightarrow> Reservations \<Rightarrow> bool \<times> Reservations" where
  "reserve_release g t =
     (case List.find (\<lambda>i. grant_matches g (reserve_grants t ! i))
        [0..<length (reserve_grants t)] of
        None \<Rightarrow> (False, t)
      | Some at \<Rightarrow>
          let given = res_held t ! at;
              held = shift_down [at..<res_count t - 1] (res_held t);
              count = res_count t - 1
          in (True,
              t\<lparr>res_held := held[count := Grant_NONE], res_count := count,
                res_taken := res_taken t AND NOT (grt_cores given OR grt_excluded given),
                res_memory_used :=
                  (if grt_class given = manifest_class_HARD
                   then res_memory_used t - grt_memory_bytes given else res_memory_used t),
                res_partitions_used :=
                  (if Grant_footprint given > 0
                   then res_partitions_used t - partitions_wanted (res_machine t)
                   else res_partitions_used t)\<rparr>))"

subsection \<open>Reading a table\<close>

definition reserve_reserved :: "Reservations \<Rightarrow> nat \<Rightarrow> bool" where
  "reserve_reserved t core = (if core \<ge> CORES_MAX then True else res_taken t AND push_bit core 1 \<noteq> 0)"

fun earliest_loop :: "nat \<Rightarrow> Grant list \<Rightarrow> nat option \<Rightarrow> nat option" where
  "earliest_loop core [] earliest = earliest"
| "earliest_loop core (g # gs) earliest =
     (if core \<ge> CORES_MAX \<or> grt_cores g AND push_bit core 1 = 0 \<or> grt_period_ns g = 0
      then earliest_loop core gs earliest
      else earliest_loop core gs
        (Some (case earliest of
                 Some seen \<Rightarrow> if seen \<le> grt_period_ns g then seen else grt_period_ns g
               | None \<Rightarrow> grt_period_ns g)))"

definition reserve_earliest_deadline_ns :: "Reservations \<Rightarrow> nat \<Rightarrow> nat option" where
  "reserve_earliest_deadline_ns t core = earliest_loop core (reserve_grants t) None"

fun slack_loop :: "nat \<Rightarrow> Grant list \<Rightarrow> nat option \<Rightarrow> nat option" where
  "slack_loop core [] slack = slack"
| "slack_loop core (g # gs) slack =
     (if core \<ge> CORES_MAX \<or> grt_cores g AND push_bit core 1 = 0 then slack_loop core gs slack
      else case Grant_slack_ns g of
             None \<Rightarrow> slack_loop core gs slack
           | Some theirs \<Rightarrow>
               slack_loop core gs
                 (Some (case slack of
                          Some seen \<Rightarrow> if seen \<le> theirs then seen else theirs
                        | None \<Rightarrow> theirs)))"

definition reserve_slack_ns :: "Reservations \<Rightarrow> nat \<Rightarrow> nat option" where
  "reserve_slack_ns t core = slack_loop core (reserve_grants t) None"

fun depth_loop :: "nat \<Rightarrow> nat \<Rightarrow> nat list \<Rightarrow> nat \<Rightarrow> nat" where
  "depth_loop slack depth [] deepest = deepest"
| "depth_loop slack depth (latency # rest) deepest =
     (if latency \<le> slack then depth_loop slack (depth + 1) rest depth else deepest)"

definition reserve_idle_depth :: "Reservations \<Rightarrow> nat \<Rightarrow> nat list \<Rightarrow> Depth" where
  "reserve_idle_depth t core exit_latency_ns =
     (case reserve_slack_ns t core of
        None \<Rightarrow> Fallback
      | Some slack \<Rightarrow> Computed (depth_loop slack 0 exit_latency_ns 0))"

definition Demand_displaces :: "Demand \<Rightarrow> Machine \<Rightarrow> Demand \<Rightarrow> Refusal + bool" where
  "Demand_displaces d m next =
     and_then (reserve_new m) (\<lambda>fresh.
       let alone = is_ok (reserve_admit fresh next) in
       and_then (reserve_new m) (\<lambda>table.
         case reserve_grant d table of
           (Inl _, _) \<Rightarrow> Inr False
         | (Inr _, table') \<Rightarrow> Inr (alone \<and> \<not> is_ok (reserve_admit table' next))))"

end
