(* ===== verification/Deadline.thy ===== *)
theory Deadline
  imports Reserve Control
begin

text \<open>
  Deadline inheritance (\<open>src/abi/src/deadline.rs\<close>): how a request a component makes while serving
  another carries the urgency of the one it serves, and for how many hops. Classes are 16-bit
  ordinals, smaller being more urgent; the class field of an entry carries the class in its low
  byte and the depth of the chain above it.
\<close>

subsection \<open>Classes and the class field\<close>

definition class_HARD :: u16 where "class_HARD = 0"
definition class_SOFT :: u16 where "class_SOFT = 1"
definition class_BATCH :: u16 where "class_BATCH = 2"
definition class_IDLE :: u16 where "class_IDLE = 3"

lemmas class_consts = class_HARD_def class_SOFT_def class_BATCH_def class_IDLE_def

definition MAX_DEPTH :: u8 where "MAX_DEPTH = 4"
definition BEYOND_DEPTH :: u16 where "BEYOND_DEPTH = class_BATCH"
definition CLASS_MASK :: u16 where "CLASS_MASK = 0x00FF"
definition DEPTH_SHIFT :: nat where "DEPTH_SHIFT = 8"

definition class_of :: "u16 \<Rightarrow> u16" where
  "class_of field = field AND CLASS_MASK"

definition depth_of :: "u16 \<Rightarrow> u8" where
  "depth_of field = ucast (drop_bit DEPTH_SHIFT field)"

definition deadline_pack :: "u16 \<Rightarrow> u8 \<Rightarrow> u16" where
  "deadline_pack class depth = push_bit DEPTH_SHIFT (ucast depth) OR (class AND CLASS_MASK)"

definition is_class :: "u16 \<Rightarrow> bool" where
  "is_class ordinal \<longleftrightarrow> ordinal = class_HARD \<or> ordinal = class_SOFT \<or> ordinal = class_BATCH
     \<or> ordinal = class_IDLE"

text \<open>What a manifest's declared class admits a component for.\<close>

definition manifest_class_admitted :: "u8 \<Rightarrow> u16 option" where
  "manifest_class_admitted v =
     (if v = manifest_class_SOFT then Some class_SOFT
      else if v = manifest_class_HARD then Some class_HARD else None)"

text \<open>An \<open>Admitted\<close> is an ordinal \<open>Admitted::new\<close> accepted.\<close>

definition Admitted_new :: "u16 \<Rightarrow> u16 option" where
  "Admitted_new ordinal = (if is_class ordinal then Some ordinal else None)"

record Caller =
  caller_class :: u16
  caller_deadline :: u64
  caller_admitted :: u16

record Callee =
  callee_admitted :: u16
  callee_arrival :: u64
  callee_floor :: u64

record Inherited =
  inh_class :: u16
  inh_deadline :: u64
  inh_depth :: u8
  inh_shortfall :: u8

definition Inherited_class_field :: "Inherited \<Rightarrow> u16" where
  "Inherited_class_field i = deadline_pack (inh_class i) (inh_depth i)"

definition Inherited_rank :: "Inherited \<Rightarrow> u16 \<times> u64" where
  "Inherited_rank i =
     (inh_class i, if inh_deadline i = NO_DEADLINE then - 1 else inh_deadline i)"

definition Inherited_fell_short :: "Inherited \<Rightarrow> bool" where
  "Inherited_fell_short i \<longleftrightarrow> inh_shortfall i \<noteq> 0"

definition shortfall_CLASS :: u8 where "shortfall_CLASS = push_bit 0 1"
definition shortfall_LATE :: u8 where "shortfall_LATE = push_bit 1 1"
definition shortfall_DEPTH :: u8 where "shortfall_DEPTH = push_bit 2 1"

lemmas shortfall_consts = shortfall_CLASS_def shortfall_LATE_def shortfall_DEPTH_def

definition max_u16 :: "u16 \<Rightarrow> u16 \<Rightarrow> u16" where
  "max_u16 a b = (if a > b then a else b)"

text \<open>What an accepted request is served as: the part of \<open>inherit\<close> after its two refusals.\<close>

definition inherit_accepted :: "Caller \<Rightarrow> Callee \<Rightarrow> Inherited" where
  "inherit_accepted caller callee =
     (let claimed = class_of (caller_class caller);
          depth = depth_of (caller_class caller);
          class = max_u16 claimed (callee_admitted callee);
          shortfall = (if class \<noteq> claimed then 0 OR shortfall_CLASS else 0);
          earliest = saturating_add (callee_arrival callee) (callee_floor callee);
          late = (caller_deadline caller \<noteq> NO_DEADLINE \<and> caller_deadline caller < earliest);
          deadline = (if late then earliest else caller_deadline caller);
          shortfall = (if late then shortfall OR shortfall_LATE else shortfall) in
      if depth < MAX_DEPTH then
        \<lparr>inh_class = class, inh_deadline = deadline, inh_depth = depth + 1,
         inh_shortfall = shortfall\<rparr>
      else
        let bounded = max_u16 class BEYOND_DEPTH;
            shortfall = (if bounded \<noteq> class \<or> deadline \<noteq> NO_DEADLINE
                         then shortfall OR shortfall_DEPTH else shortfall) in
        \<lparr>inh_class = bounded, inh_deadline = NO_DEADLINE, inh_depth = MAX_DEPTH,
         inh_shortfall = shortfall AND NOT shortfall_LATE\<rparr>)"

definition inherit :: "Caller \<Rightarrow> Callee \<Rightarrow> (i32 \<times> u64) + Inherited" where
  "inherit caller callee =
     (let detail = (ucast (caller_class caller) :: u64);
          claimed = class_of (caller_class caller);
          depth = depth_of (caller_class caller) in
      if \<not> is_class claimed \<or> depth > MAX_DEPTH then
        Inl (error_pack error_ARGUMENT argument_BAD_CLASS, detail)
      else if claimed < caller_admitted caller then
        Inl (error_pack error_ADMISSION admission_NOT_HELD, detail)
      else Inr (inherit_accepted caller callee))"

subsection \<open>The field round trips\<close>

lemma is_class_small: "is_class c \<longleftrightarrow> c \<le> 3"
proof
  assume "c \<le> 3"
  then have "unat c \<le> 3" by (simp add: word_le_nat_alt)
  then have "unat c = 0 \<or> unat c = 1 \<or> unat c = 2 \<or> unat c = 3" by linarith
  then have "c = 0 \<or> c = 1 \<or> c = 2 \<or> c = 3"
    by (simp add: word_unat_eq_iff)
  then show "is_class c" by (simp add: is_class_def class_consts)
next
  assume "is_class c"
  then have "c = 0 \<or> c = 1 \<or> c = 2 \<or> c = 3" by (simp only: is_class_def class_consts)
  then show "c \<le> 3" by (elim disjE) (simp_all only: word_le_nat_alt, simp_all)
qed

lemma mask_CLASS: "CLASS_MASK = mask 8"
  by (simp add: CLASS_MASK_def mask_eq_exp_minus_1)

lemma depth_of_pack [simp]: "depth_of (deadline_pack c d) = d"
  by (rule bit_eqI)
     (auto simp: depth_of_def deadline_pack_def DEPTH_SHIFT_def mask_CLASS bit_simps dest: bit_imp_le_length)

lemma class_of_pack: "class_of (deadline_pack c d) = c AND CLASS_MASK"
  by (rule bit_eqI)
     (auto simp: class_of_def deadline_pack_def DEPTH_SHIFT_def mask_CLASS bit_simps dest: bit_imp_le_length)

lemma class_of_pack_class: "is_class c \<Longrightarrow> class_of (deadline_pack c d) = c"
proof -
  assume "is_class c"
  then have "c = 0 \<or> c = 1 \<or> c = 2 \<or> c = 3" by (simp only: is_class_def class_consts)
  then show ?thesis unfolding class_of_pack CLASS_MASK_def by (elim disjE) simp_all
qed

lemma max_u16_max: "max_u16 a b = max a b"
  by (auto simp: max_u16_def max_def)

lemma is_class_max: "is_class a \<Longrightarrow> is_class b \<Longrightarrow> is_class (max a b)"
  by (simp add: max_def)

subsection \<open>One hop\<close>

text \<open>The latest of the caller's deadline and the earliest the callee could answer by.\<close>

definition served_by :: "Caller \<Rightarrow> Callee \<Rightarrow> u64" where
  "served_by caller callee =
     (if caller_deadline caller = NO_DEADLINE then NO_DEADLINE
      else max (caller_deadline caller) (saturating_add (callee_arrival callee) (callee_floor callee)))"

definition deepest :: "Caller \<Rightarrow> bool" where
  "deepest caller \<longleftrightarrow> \<not> depth_of (caller_class caller) < MAX_DEPTH"

lemma inherit_Inr:
  "inherit caller callee = Inr i \<longleftrightarrow>
     is_class (class_of (caller_class caller)) \<and> depth_of (caller_class caller) \<le> MAX_DEPTH
     \<and> caller_admitted caller \<le> class_of (caller_class caller) \<and> i = inherit_accepted caller callee"
  unfolding inherit_def Let_def
  by (simp only: split: if_split) (auto simp: not_less)

lemma served_by_late:
  "(if caller_deadline c \<noteq> NO_DEADLINE \<and> caller_deadline c < saturating_add (callee_arrival e) (callee_floor e)
    then saturating_add (callee_arrival e) (callee_floor e) else caller_deadline c) = served_by c e"
  "caller_deadline c \<noteq> NO_DEADLINE \<and> caller_deadline c < saturating_add (callee_arrival e) (callee_floor e)
     \<longleftrightarrow> served_by c e \<noteq> caller_deadline c"
  by (auto simp: served_by_def max_def)

lemma served_by_none: "served_by c e = NO_DEADLINE \<longleftrightarrow> caller_deadline c = NO_DEADLINE"
proof -
  have "0 \<noteq> d \<longrightarrow> max d x \<noteq> 0" for d x :: u64 by (auto simp: max_def)
  then show ?thesis by (auto simp: served_by_def NO_DEADLINE_def)
qed

lemma inherit_accepted_alt:
  "inherit_accepted c e =
     (let k = max (class_of (caller_class c)) (callee_admitted e);
          s = (if class_of (caller_class c) < callee_admitted e then shortfall_CLASS else 0);
          s = (if served_by c e \<noteq> caller_deadline c then s OR shortfall_LATE else s) in
      if deepest c then
        \<lparr>inh_class = max k class_BATCH, inh_deadline = NO_DEADLINE, inh_depth = MAX_DEPTH,
         inh_shortfall = (if k < class_BATCH \<or> caller_deadline c \<noteq> NO_DEADLINE
            then s OR shortfall_DEPTH else s) AND NOT shortfall_LATE\<rparr>
      else
        \<lparr>inh_class = k, inh_deadline = served_by c e, inh_depth = depth_of (caller_class c) + 1,
         inh_shortfall = s\<rparr>)"
proof -
  have cls: "max a b \<noteq> a \<longleftrightarrow> a < b" for a b :: u16 by (auto simp: max_def)
  have zero: "0 OR shortfall_CLASS = shortfall_CLASS" by simp
  have flip: "(if \<not> P then x else y) = (if P then y else x)" for P and x y :: Inherited by simp
  show ?thesis
    unfolding inherit_accepted_def Let_def served_by_late(1)
    unfolding served_by_late(2) max_u16_max BEYOND_DEPTH_def cls served_by_none deepest_def zero flip
    by (rule refl)
qed

lemma inherit_accepted_fields:
  "inh_class (inherit_accepted c e) =
     (let k = max (class_of (caller_class c)) (callee_admitted e) in if deepest c then max k class_BATCH else k)"
  "inh_deadline (inherit_accepted c e) = (if deepest c then NO_DEADLINE else served_by c e)"
  "inh_depth (inherit_accepted c e) = (if deepest c then MAX_DEPTH else depth_of (caller_class c) + 1)"
  by (simp_all only: inherit_accepted_alt Let_def split: if_split) simp_all

lemma inherit_accepted_shortfall:
  "inh_shortfall (inherit_accepted c e) =
     (if class_of (caller_class c) < callee_admitted e then shortfall_CLASS else 0)
     OR (if \<not> deepest c \<and> served_by c e \<noteq> caller_deadline c then shortfall_LATE else 0)
     OR (if deepest c \<and> (max (class_of (caller_class c)) (callee_admitted e) < class_BATCH
              \<or> caller_deadline c \<noteq> NO_DEADLINE) then shortfall_DEPTH else 0)"
proof -
  have gen: "(if D then (if B then s' OR shortfall_DEPTH else s') AND NOT shortfall_LATE else s')
    = (if A then shortfall_CLASS else 0) OR (if \<not> D \<and> L then shortfall_LATE else 0)
      OR (if D \<and> B then shortfall_DEPTH else 0)"
    if "s' = (if L then (if A then shortfall_CLASS else 0) OR shortfall_LATE
          else (if A then shortfall_CLASS else 0))" for A L D B s'
    unfolding that by (cases A; cases L; cases D; cases B) (simp_all add: shortfall_consts)
  have sel: "inh_shortfall (if D then x else y) = (if D then inh_shortfall x else inh_shortfall y)" for D x y
    by simp
  show ?thesis
    unfolding inherit_accepted_alt Let_def sel Inherited.select_convs by (rule gen [OF refl])
qed

lemma shortfall_zero:
  "inh_shortfall (inherit_accepted c e) = 0 \<longleftrightarrow>
     \<not> class_of (caller_class c) < callee_admitted e
     \<and> (if deepest c then \<not> max (class_of (caller_class c)) (callee_admitted e) < class_BATCH
            \<and> caller_deadline c = NO_DEADLINE
        else served_by c e = caller_deadline c)"
proof -
  have gen: "(if A then shortfall_CLASS else 0) OR (if \<not> D \<and> L then shortfall_LATE else 0)
      OR (if D \<and> B then shortfall_DEPTH else 0) = 0 \<longleftrightarrow> \<not> A \<and> (if D then \<not> B else \<not> L)" for A L D B
    by (cases A; cases L; cases D; cases B) (simp_all add: shortfall_consts)
  show ?thesis unfolding inherit_accepted_shortfall gen de_Morgan_disj not_not ..
qed

subsection \<open>Properties of one hop and of a chain\<close>

lemmas inherit_fields = inherit_accepted_fields [unfolded Let_def]

definition demo_caller :: Caller where
  "demo_caller = \<lparr>caller_class = class_SOFT, caller_deadline = 500, caller_admitted = class_SOFT\<rparr>"

definition demo_callee :: Callee where
  "demo_callee = \<lparr>callee_admitted = class_BATCH, callee_arrival = 400, callee_floor = 300\<rparr>"

lemma demo_inherit: "inherit demo_caller demo_callee = Inr (inherit_accepted demo_caller demo_callee)"
  by (simp add: inherit_Inr demo_caller_def class_of_def CLASS_MASK_def depth_of_def DEPTH_SHIFT_def
      is_class_def class_consts MAX_DEPTH_def)

text \<open>
  C17: Urgency is carried, never made. A request is served at a class no more urgent than the caller
  claimed and no more urgent than the callee was admitted for, the caller claimed no more than it
  was admitted for, a deadline is never moved earlier nor put before the callee's own floor, and
  the shortfall flags say exactly what was lost: the class, the deadline's moment, or, at the depth
  bound, the deadline itself.
\<close>

theorem inherit_only_loses:
  assumes "inherit caller callee = Inr i"
  shows "caller_admitted caller \<le> class_of (caller_class caller)
    \<and> class_of (caller_class caller) \<le> inh_class i \<and> callee_admitted callee \<le> inh_class i
    \<and> (inh_deadline i = NO_DEADLINE
       \<or> caller_deadline caller \<le> inh_deadline i
         \<and> saturating_add (callee_arrival callee) (callee_floor callee) \<le> inh_deadline i)
    \<and> (caller_deadline caller = NO_DEADLINE \<longrightarrow> inh_deadline i = NO_DEADLINE)
    \<and> (\<not> Inherited_fell_short i \<longrightarrow>
         inh_class i = class_of (caller_class caller) \<and> inh_deadline i = caller_deadline caller)"
proof -
  have i: "i = inherit_accepted caller callee"
    and adm: "caller_admitted caller \<le> class_of (caller_class caller)"
    using assms by (auto simp: inherit_Inr)
  let ?c = "class_of (caller_class caller)" and ?a = "callee_admitted callee"
  have cls: "?c \<le> inh_class i" "?a \<le> inh_class i"
    unfolding i inherit_fields by (auto simp: le_max_iff_disj)
  have dl: "inh_deadline i = NO_DEADLINE \<or> caller_deadline caller \<le> inh_deadline i
      \<and> saturating_add (callee_arrival callee) (callee_floor callee) \<le> inh_deadline i"
    "caller_deadline caller = NO_DEADLINE \<Longrightarrow> inh_deadline i = NO_DEADLINE"
    unfolding i inherit_fields served_by_def by auto
  have "inh_class i = ?c \<and> inh_deadline i = caller_deadline caller" if "inh_shortfall i = 0"
    using that unfolding i shortfall_zero inherit_fields
    by (cases "deepest caller") (auto simp: not_less max_absorb1)
  then show ?thesis using adm cls dl unfolding Inherited_fell_short_def by blast
qed

theorem inherit_only_loses_witness:
  "class_BATCH \<le> inh_class (inherit_accepted demo_caller demo_callee)"
  using inherit_only_loses [OF demo_inherit] by (simp add: demo_callee_def)

text \<open>
  A chain of requests: each component, serving the request above it, makes one of its own with the
  class field and the deadline it inherited and the class it was itself admitted for.
\<close>

definition next_caller :: "Inherited \<Rightarrow> Callee \<Rightarrow> Caller" where
  "next_caller i callee =
     \<lparr>caller_class = Inherited_class_field i, caller_deadline = inh_deadline i,
      caller_admitted = callee_admitted callee\<rparr>"

fun chain :: "Caller \<Rightarrow> Callee list \<Rightarrow> (i32 \<times> u64) + Caller" where
  "chain caller [] = Inr caller"
| "chain caller (callee # rest) =
     and_then (inherit caller callee) (\<lambda>i. chain (next_caller i callee) rest)"

lemma is_class_inherited:
  assumes "is_class (class_of (caller_class c))" and "is_class (callee_admitted e)"
  shows "is_class (inh_class (inherit_accepted c e))"
proof -
  have "is_class class_BATCH" by (simp add: is_class_def)
  then show ?thesis using assms unfolding inherit_fields by (simp add: is_class_max)
qed

lemma next_caller_fields:
  assumes "is_class (class_of (caller_class c))" and "is_class (callee_admitted e)"
  shows "class_of (caller_class (next_caller (inherit_accepted c e) e)) = inh_class (inherit_accepted c e)"
    and "depth_of (caller_class (next_caller (inherit_accepted c e) e)) = inh_depth (inherit_accepted c e)"
proof -
  from assms have "is_class (inh_class (inherit_accepted c e))" by (rule is_class_inherited)
  then show "class_of (caller_class (next_caller (inherit_accepted c e) e)) = inh_class (inherit_accepted c e)"
    by (simp add: next_caller_def Inherited_class_field_def class_of_pack_class)
  show "depth_of (caller_class (next_caller (inherit_accepted c e) e)) = inh_depth (inherit_accepted c e)"
    by (simp add: next_caller_def Inherited_class_field_def)
qed

text \<open>What a well-formed caller is: its class is one, it was admitted for it, its depth is in bounds.\<close>

definition caller_ok :: "Caller \<Rightarrow> bool" where
  "caller_ok c \<longleftrightarrow> is_class (class_of (caller_class c)) \<and> depth_of (caller_class c) \<le> MAX_DEPTH
     \<and> caller_admitted c \<le> class_of (caller_class c)"

lemma depth_step: "d < MAX_DEPTH \<Longrightarrow> unat (d + 1) = unat d + 1" for d :: u8
  by (simp add: MAX_DEPTH_def word_less_nat_alt unat_word_ariths)

lemma chain_step:
  assumes ok: "caller_ok c" and e: "is_class (callee_admitted e)"
  shows "inherit c e = Inr (inherit_accepted c e)"
    and "caller_ok (next_caller (inherit_accepted c e) e)"
    and "class_of (caller_class c) \<le> class_of (caller_class (next_caller (inherit_accepted c e) e))"
    and "unat (depth_of (caller_class (next_caller (inherit_accepted c e) e)))
      = min (unat (depth_of (caller_class c)) + 1) (unat MAX_DEPTH)"
    and "deepest c \<Longrightarrow> class_BATCH \<le> class_of (caller_class (next_caller (inherit_accepted c e) e))
      \<and> caller_deadline (next_caller (inherit_accepted c e) e) = NO_DEADLINE"
proof -
  have c: "is_class (class_of (caller_class c))" using ok by (simp add: caller_ok_def)
  note nf = next_caller_fields [OF c e]
  show "inherit c e = Inr (inherit_accepted c e)" using ok by (simp add: inherit_Inr caller_ok_def)
  have le: "depth_of (caller_class c) \<le> MAX_DEPTH" using ok by (simp add: caller_ok_def)
  show d: "unat (depth_of (caller_class (next_caller (inherit_accepted c e) e)))
      = min (unat (depth_of (caller_class c)) + 1) (unat MAX_DEPTH)"
    using le depth_step [of "depth_of (caller_class c)"] unfolding nf(2) inherit_fields deepest_def
    by (auto simp: word_less_nat_alt word_le_nat_alt)
  have adm: "callee_admitted e \<le> inh_class (inherit_accepted c e)"
    unfolding inherit_fields by (auto simp: le_max_iff_disj)
  from c e have "is_class (inh_class (inherit_accepted c e))" by (rule is_class_inherited)
  then show "caller_ok (next_caller (inherit_accepted c e) e)"
    using d adm unfolding caller_ok_def nf by (simp add: next_caller_def word_le_nat_alt)
  show "class_of (caller_class c) \<le> class_of (caller_class (next_caller (inherit_accepted c e) e))"
    unfolding nf inherit_fields by (auto simp: le_max_iff_disj)
  show "class_BATCH \<le> class_of (caller_class (next_caller (inherit_accepted c e) e))
      \<and> caller_deadline (next_caller (inherit_accepted c e) e) = NO_DEADLINE" if "deepest c"
    using that unfolding nf inherit_fields by (simp add: next_caller_def inherit_fields)
qed

text \<open>
  C18: A chain of requests is never refused on the way down once its first caller is within its
  admission; its class only becomes less urgent; and past the depth bound the chain runs at
  batch or below with no deadline, however long it is and whatever the components were admitted for.
\<close>

theorem chain_decays:
  assumes "caller_ok c" and "\<forall>e \<in> set es. is_class (callee_admitted e)"
  shows "\<exists>c'. chain c es = Inr c' \<and> caller_ok c' \<and> class_of (caller_class c) \<le> class_of (caller_class c')
    \<and> unat (depth_of (caller_class c')) = min (unat (depth_of (caller_class c)) + length es) (unat MAX_DEPTH)
    \<and> (unat (depth_of (caller_class c)) + length es > unat MAX_DEPTH \<longrightarrow> es \<noteq> [] \<longrightarrow>
         class_BATCH \<le> class_of (caller_class c') \<and> caller_deadline c' = NO_DEADLINE)"
  using assms
proof (induction es arbitrary: c)
  case Nil
  have "unat (depth_of (caller_class c)) \<le> unat MAX_DEPTH"
    using Nil.prems(1) by (simp add: caller_ok_def word_le_nat_alt)
  then show ?case using Nil.prems(1) by simp
next
  case (Cons e es)
  let ?n = "next_caller (inherit_accepted c e) e"
  have e: "is_class (callee_admitted e)" using Cons.prems(2) by simp
  note st = chain_step [OF Cons.prems(1) e]
  obtain c' where c': "chain ?n es = Inr c'" "caller_ok c'"
      "class_of (caller_class ?n) \<le> class_of (caller_class c')"
      "unat (depth_of (caller_class c')) = min (unat (depth_of (caller_class ?n)) + length es) (unat MAX_DEPTH)"
      "unat (depth_of (caller_class ?n)) + length es > unat MAX_DEPTH \<longrightarrow> es \<noteq> [] \<longrightarrow>
         class_BATCH \<le> class_of (caller_class c') \<and> caller_deadline c' = NO_DEADLINE"
    using Cons.IH [OF st(2)] Cons.prems(2) by auto
  have last: "class_BATCH \<le> class_of (caller_class c') \<and> caller_deadline c' = NO_DEADLINE"
    if "unat (depth_of (caller_class c)) + length (e # es) > unat MAX_DEPTH"
  proof (cases "es = []")
    case True
    then have "deepest c" using that by (simp add: deepest_def word_less_nat_alt)
    then show ?thesis using st(5) c'(1) True by simp
  next
    case False
    then have "unat (depth_of (caller_class ?n)) + length es > unat MAX_DEPTH"
      using that st(4) by (cases es) auto
    then show ?thesis using c'(5) False by blast
  qed
  have "unat (depth_of (caller_class c')) = min (unat (depth_of (caller_class c)) + length (e # es)) (unat MAX_DEPTH)"
    using c'(4) st(4) by simp
  then show ?case
    using c'(1-3) st(1,3) last by (auto intro: order_trans)
qed

theorem chain_decays_witness:
  "\<exists>c'. chain demo_caller (replicate 5 demo_callee) = Inr c' \<and> caller_deadline c' = NO_DEADLINE"
proof -
  have "caller_ok demo_caller" and "is_class (callee_admitted demo_callee)"
    by (simp_all add: caller_ok_def demo_caller_def demo_callee_def class_of_def CLASS_MASK_def
        depth_of_def DEPTH_SHIFT_def is_class_def class_consts MAX_DEPTH_def)
  then show ?thesis
    using chain_decays [of demo_caller "replicate 5 demo_callee"] by (auto simp: MAX_DEPTH_def)
qed

end
