(* ===== verification/Reserve_Inv.thy ===== *)
theory Reserve_Inv
  imports Reserve
begin

text \<open>
  What the reservation table keeps: the cores of two grants never meet, no grant reaches a core of
  the frame, a grant that excludes its neighbours holds whole cache and bandwidth groups, and the
  counters are the sums of what is held. Every operation keeps the invariant; \<open>admit\<close> answers with a
  grant that is exactly what was demanded, and refuses for want of cores only when there is no
  aligned free run.
\<close>

subsection \<open>Runs of cores\<close>

lemma bit_run_mask: "bit (run_mask base count) n \<longleftrightarrow> base \<le> n \<and> n < base + count \<and> n < 64"
proof -
  have ones: "(push_bit w 1 - 1 :: u64) = mask w" for w
    by (simp add: mask_eq_exp_minus_1)
  show ?thesis
    unfolding run_mask_def Let_def ones CORES_MAX_def
    by (auto simp: bit_simps)
qed

lemma round_up_small:
  assumes "round_up v g < 2 ^ 32 - 1" and "1 \<le> g"
  shows "v \<le> round_up v g" and "g dvd round_up v g" and "round_up v g < v + g"
proof -
  have "v \<le> round_up v g \<and> g dvd round_up v g \<and> round_up v g < v + g"
  proof (cases "g \<le> 1 \<or> v mod g = 0")
    case True
    then have "round_up v g = v" and "g dvd v" using assms(2) by (auto simp: round_up_def Let_def)
    then show ?thesis using assms(2) by simp
  next
    case False
    then have "round_up v g = min (v + (g - v mod g)) (2 ^ 32 - 1)"
      unfolding round_up_def Let_def sat_add_def by (simp only: if_False de_Morgan_disj)
    then have eq: "round_up v g = v + (g - v mod g)" using assms(1) by linarith
    have lt: "v mod g < g" using assms(2) by simp
    obtain q r where v: "v = g * q + r" "r = v mod g" by (metis mult_div_mod_eq)
    then have sum: "v + (g - v mod g) = g * (q + 1)" using lt by simp
    have "g dvd round_up v g" unfolding eq sum by simp
    moreover have "0 < v mod g" using False by simp
    ultimately show ?thesis using eq lt by linarith
  qed
  then show "v \<le> round_up v g" and "g dvd round_up v g" and "round_up v g < v + g" by auto
qed

lemma lowest_free_loop_Some:
  assumes "lowest_free_loop p taken c g b = Some m"
  shows "\<exists>base. b \<le> base \<and> (if g = 0 then 1 else g) dvd base - b \<and> base + c \<le> p
    \<and> m = run_mask base c \<and> taken AND m = 0"
  using assms
proof (induction p taken c g b rule: lowest_free_loop.induct)
  case (1 p taken c g b)
  let ?step = "if g = 0 then 1 else g"
  show ?case
  proof (cases "b + c \<le> p \<and> taken AND run_mask b c \<noteq> 0")
    case True
    then have "lowest_free_loop p taken c g (b + ?step) = Some m"
      using "1.prems" by (simp add: lowest_free_loop.simps [of p taken c g b] Let_def del: One_nat_def)
    then obtain base where base: "b + ?step \<le> base" "?step dvd base - (b + ?step)" "base + c \<le> p"
        "m = run_mask base c" "taken AND m = 0"
      using "1.IH" [OF refl _ refl] True by blast
    have "base - b = base - (b + ?step) + ?step" using base(1) by linarith
    then have "?step dvd base - b" using base(2) by simp
    then show ?thesis using base by (intro exI [of _ base]) auto
  next
    case False
    then show ?thesis
      using "1.prems" by (auto simp: lowest_free_loop.simps [of p taken c g b] Let_def split: if_splits)
  qed
qed

lemma lowest_free_loop_None:
  assumes "lowest_free_loop p taken c g b = None" and "(if g = 0 then 1 else g) dvd base - b"
    and "b \<le> base" and "base + c \<le> p"
  shows "taken AND run_mask base c \<noteq> 0"
  using assms
proof (induction p taken c g b rule: lowest_free_loop.induct)
  case (1 p taken c g b)
  let ?step = "if g = 0 then 1 else g"
  have "b + c \<le> p" using "1.prems" by linarith
  then have busy: "taken AND run_mask b c \<noteq> 0" and next_none: "lowest_free_loop p taken c g (b + ?step) = None"
    using "1.prems"(1) by (auto simp: lowest_free_loop.simps [of p taken c g b] Let_def split: if_splits)
  show ?case
  proof (cases "base = b")
    case True
    then show ?thesis using busy by simp
  next
    case False
    then have gt: "0 < base - b" using "1.prems"(3) by simp
    then have "?step \<le> base - b" using "1.prems"(2) dvd_imp_le by blast
    moreover from this have "?step dvd base - (b + ?step)"
      using "1.prems"(2) by (metis diff_diff_left dvd_diff_nat dvd_refl)
    ultimately show ?thesis
      using "1.IH" [OF refl _ refl busy next_none] \<open>b + c \<le> p\<close> "1.prems"(3,4) by linarith
  qed
qed

subsection \<open>Splitting a footprint\<close>

lemma with_split_loop_props:
  assumes "\<forall>n. bit r n \<longrightarrow> n < b \<and> bit f n" and "b \<le> 64"
  shows "(\<forall>n. bit (with_split_loop f b l r) n \<longrightarrow> bit f n)
    \<and> count_ones (with_split_loop f b l r) = count_ones r + min l (card {n. b \<le> n \<and> bit f n})"
  using assms
proof (induction f b l r rule: with_split_loop.induct)
  case (1 f b l r)
  have fin: "finite {n. k \<le> n \<and> bit f n}" for k
    by (rule finite_subset [OF _ finite_bits [of f]]) auto
  show ?case
  proof (cases "b < CORES_MAX \<and> l > 0")
    case False
    then have "l = 0 \<or> {n. b \<le> n \<and> bit f n} = {}"
      using bit_imp_le_length [of f] "1.prems"(2) by (fastforce simp: CORES_MAX_def)
    then have "min l (card {n. b \<le> n \<and> bit f n}) = 0" by (elim disjE) (simp_all only: card.empty min_0L min_0R)
    moreover have "with_split_loop f b l r = r" using False by (subst with_split_loop.simps) (simp only: if_False)
    ultimately show ?thesis using "1.prems"(1) by simp
  next
    case True
    then have b: "b < 64" by (simp add: CORES_MAX_def)
    show ?thesis
    proof (cases "bit f b")
      case hit: True
      have "bit (r OR push_bit b 1) n \<longleftrightarrow> bit r n \<or> n = b" for n
        using b by (auto simp: bit_or_push_bit_1 simp del: push_bit_of_1)
      then have bits: "{n. bit (r OR push_bit b 1) n} = insert b {n. bit r n}" by auto
      have "b \<notin> {n. bit r n}" using "1.prems"(1) by auto
      then have ones: "count_ones (r OR push_bit b 1) = Suc (count_ones r)"
        unfolding count_ones_card bits by simp
      have "{n. b \<le> n \<and> bit f n} = insert b {n. b + 1 \<le> n \<and> bit f n}" using hit by auto
      then have "card {n. b \<le> n \<and> bit f n} = Suc (card {n. b + 1 \<le> n \<and> bit f n})"
        using fin [of "b + 1"] by simp
      moreover have "\<forall>n. bit (r OR push_bit b 1) n \<longrightarrow> n < b + 1 \<and> bit f n"
        using "1.prems"(1) hit b by (auto simp: bit_or_push_bit_1 simp del: push_bit_of_1)
      ultimately show ?thesis
        using "1.IH"(1) True hit b ones
        by (auto simp: with_split_loop.simps [of f b l r] and_push_bit_ne_0_iff simp del: push_bit_of_1)
    next
      case miss: False
      have "{n. b \<le> n \<and> bit f n} = {n. b + 1 \<le> n \<and> bit f n}"
        using miss by (auto simp: Suc_le_eq order_less_le)
      moreover have "\<forall>n. bit r n \<longrightarrow> n < b + 1 \<and> bit f n" using "1.prems"(1) by auto
      ultimately show ?thesis
        using "1.IH"(2) True miss b
        by (auto simp: with_split_loop.simps [of f b l r] and_push_bit_ne_0_iff simp del: push_bit_of_1)
    qed
  qed
qed

lemma with_split:
  assumes "wanted \<le> count_ones f"
  shows "count_ones (grt_cores (Grant_with_split g f wanted)) = wanted"
    and "grt_cores (Grant_with_split g f wanted) OR grt_excluded (Grant_with_split g f wanted) = f"
    and "grt_cores (Grant_with_split g f wanted) AND grt_excluded (Grant_with_split g f wanted) = 0"
proof -
  have r: "(\<forall>n. bit (with_split_loop f 0 wanted 0) n \<longrightarrow> bit f n)
    \<and> count_ones (with_split_loop f 0 wanted 0) = min wanted (card {n. bit f n})"
    using with_split_loop_props [of 0 0 f wanted] by simp
  then show "count_ones (grt_cores (Grant_with_split g f wanted)) = wanted"
    using assms by (simp add: Grant_with_split_def Let_def count_ones_card)
  show "grt_cores (Grant_with_split g f wanted) OR grt_excluded (Grant_with_split g f wanted) = f"
    using r by (intro bit_eqI) (auto simp: Grant_with_split_def Let_def bit_simps)
  show "grt_cores (Grant_with_split g f wanted) AND grt_excluded (Grant_with_split g f wanted) = 0"
    by (intro bit_eqI) (auto simp: Grant_with_split_def Let_def bit_simps)
qed

subsection \<open>The invariant\<close>

definition grant_mask :: "Grant \<Rightarrow> u64" where
  "grant_mask g = grt_cores g OR grt_excluded g"

definition grant_ok :: "Machine \<Rightarrow> Grant \<Rightarrow> bool" where
  "grant_ok m g \<longleftrightarrow> grt_cores g AND grt_excluded g = 0
     \<and> (\<forall>n. bit (grant_mask g) n \<longrightarrow> frame_cores m \<le> n \<and> n < physical_cores m)
     \<and> (\<forall>n n'. n < 64 \<and> n' < 64 \<and> n div exclusion_grain m = n' div exclusion_grain m \<longrightarrow>
          bit (grant_mask g) n = bit (grant_mask g) n')
     \<and> (grt_cores g = 0 \<longrightarrow> grt_excluded g = 0)
     \<and> (grt_class g = manifest_class_HARD \<longrightarrow> grt_cores g \<noteq> 0 \<and> 0 < grt_budget_ns g
          \<and> grt_budget_ns g + tick_ns m \<le> grt_period_ns g \<and> HUGE_BYTES dvd grt_memory_bytes g)"

definition hard_memory :: "Grant \<Rightarrow> nat" where
  "hard_memory g = (if grt_class g = manifest_class_HARD then grt_memory_bytes g else 0)"

definition grant_partitions :: "Machine \<Rightarrow> Grant \<Rightarrow> nat" where
  "grant_partitions m g = (if Grant_footprint g > 0 then partitions_wanted m else 0)"

definition res_inv :: "Reservations \<Rightarrow> bool" where
  "res_inv t \<longleftrightarrow> Machine_check (res_machine t) = Inr ()
     \<and> reservable_bytes (res_machine t) < 2 ^ 64 \<and> partitions (res_machine t) < 2 ^ 32
     \<and> length (res_held t) = RESERVATIONS_MAX \<and> res_count t \<le> RESERVATIONS_MAX
     \<and> sorted_wrt (\<lambda>a b. grant_mask a AND grant_mask b = 0) (reserve_grants t)
     \<and> (\<forall>n. bit (res_taken t) n \<longleftrightarrow> (\<exists>g \<in> set (reserve_grants t). bit (grant_mask g) n))
     \<and> (\<forall>g \<in> set (reserve_grants t). grant_ok (res_machine t) g)
     \<and> res_memory_used t = sum_list (map hard_memory (reserve_grants t))
     \<and> res_memory_used t \<le> reservable_bytes (res_machine t)
     \<and> res_partitions_used t = sum_list (map (grant_partitions (res_machine t)) (reserve_grants t))
     \<and> res_partitions_used t \<le> partitions (res_machine t)"

lemma Machine_check_Inr:
  "Machine_check m = Inr () \<Longrightarrow> 0 < frame_cores m \<and> frame_cores m < physical_cores m
     \<and> physical_cores m \<le> 64 \<and> 0 < cores_per_cache m \<and> 0 < cores_per_bandwidth m
     \<and> 0 < threads_per_core m \<and> 0 < tick_ns m"
  by (auto simp: Machine_check_def CORES_MAX_def Let_def split: if_splits)

lemma exclusion_grain_pos: "1 \<le> exclusion_grain m"
  by (auto simp: exclusion_grain_def Let_def)

lemma and_eq_0_iff_bits: "a AND b = 0 \<longleftrightarrow> (\<forall>n. \<not> (bit a n \<and> bit b n))" for a b :: u64
  using bit_imp_le_length [of a] by (auto simp: bit_eq_iff bit_simps)

subsection \<open>Admitting\<close>

text \<open>The core search, on a table that keeps the invariant, with no wrap on the way.\<close>

lemma admit_run:
  assumes "Machine_check m = Inr ()" and "res_machine t = m"
    and "round_up wanted (exclusion_grain m) \<le> Machine_offerable m"
    and "lowest_free t (round_up wanted (exclusion_grain m)) (exclusion_grain m) = Some mk"
  obtains base count where "mk = run_mask base count" "count = round_up wanted (exclusion_grain m)"
    "wanted \<le> count" "frame_cores m \<le> base" "base + count \<le> physical_cores m"
    "exclusion_grain m dvd base" "exclusion_grain m dvd count" "res_taken t AND mk = 0"
proof -
  let ?g = "exclusion_grain m" and ?c = "round_up wanted (exclusion_grain m)"
  let ?b = "round_up (frame_cores m) (exclusion_grain m)"
  note mc = Machine_check_Inr [OF assms(1)]
  have g: "1 \<le> ?g" by (rule exclusion_grain_pos)
  then have g0: "?g \<noteq> 0" by simp
  obtain base where base: "?b \<le> base" "?g dvd base - ?b" "base + ?c \<le> physical_cores m"
      "mk = run_mask base ?c" "res_taken t AND mk = 0"
    using lowest_free_loop_Some [of "physical_cores m" "res_taken t" ?c ?g ?b mk] assms(2,4) g0
    by (auto simp: lowest_free_def Let_def)
  have "physical_cores m < 2 ^ 32 - 1" using mc by simp
  then have small: "?c < 2 ^ 32 - 1" "?b < 2 ^ 32 - 1"
    using base(1,3) by (meson add_leD1 add_leD2 order_le_less_trans order_trans)+
  note c = round_up_small [OF small(1) g] and b = round_up_small [OF small(2) g]
  have "?g dvd base" using base(1,2) b(2) by (metis dvd_diffD)
  moreover have "frame_cores m \<le> base" using b(1) base(1) by linarith
  ultimately show thesis using that [OF base(4) refl c(1) _ base(3) _ c(2) base(5)] by blast
qed

lemma div_grain_run:
  assumes "g dvd base" and "g dvd count" and "n div g = n' div g" and "0 < (g::nat)"
  shows "(base \<le> n \<and> n < base + count) = (base \<le> n' \<and> n' < base + count)"
proof -
  obtain k l where "base = g * k" "count = g * l" using assms(1,2) by (auto elim!: dvdE)
  then have "base \<le> x \<longleftrightarrow> k \<le> x div g" and "x < base + count \<longleftrightarrow> x div g < k + l" for x
    using assms(4)
    by (simp_all add: less_eq_div_iff_mult_less_eq div_less_iff_less_mult algebra_simps)
  then show ?thesis using assms(3) by simp
qed

lemma admit_cores_Inr:
  assumes "res_inv t" and "admit_cores t d = Inr g" and "Demand_whole_cores d \<noteq> 0"
  shows "count_ones (grt_cores g) = Demand_whole_cores d \<and> grt_cores g AND grt_excluded g = 0
    \<and> res_taken t AND grant_mask g = 0
    \<and> (\<forall>n. bit (grant_mask g) n \<longrightarrow> frame_cores (res_machine t) \<le> n \<and> n < physical_cores (res_machine t))
    \<and> (\<forall>n n'. n < 64 \<and> n' < 64 \<and> n div exclusion_grain (res_machine t) = n' div exclusion_grain (res_machine t) \<longrightarrow>
          bit (grant_mask g) n = bit (grant_mask g) n')
    \<and> res_partitions_used t + partitions_wanted (res_machine t) \<le> partitions (res_machine t)
    \<and> grt_class g = dem_class d \<and> grt_period_ns g = dem_period_ns d
    \<and> grt_budget_ns g = dem_budget_ns d \<and> grt_memory_bytes g = dem_memory_bytes d"
proof -
  let ?m = "res_machine t" and ?w = "Demand_whole_cores d"
  have mc: "Machine_check ?m = Inr ()" using assms(1) by (simp add: res_inv_def)
  obtain mk g0 where lf: "round_up ?w (exclusion_grain ?m) \<le> Machine_offerable ?m"
      "lowest_free t (round_up ?w (exclusion_grain ?m)) (exclusion_grain ?m) = Some mk"
    and part: "res_partitions_used t + partitions_wanted ?m \<le> partitions ?m"
    and g: "g = Grant_with_split g0 mk ?w" "grt_class g0 = dem_class d"
      "grt_period_ns g0 = dem_period_ns d" "grt_budget_ns g0 = dem_budget_ns d"
      "grt_memory_bytes g0 = dem_memory_bytes d"
    using assms(2,3) by (auto simp: admit_cores_def Let_def not_less split: if_splits option.splits)
  obtain base count where run: "mk = run_mask base count" "?w \<le> count" "frame_cores ?m \<le> base"
      "base + count \<le> physical_cores ?m" "exclusion_grain ?m dvd base" "exclusion_grain ?m dvd count"
      "res_taken t AND mk = 0"
    using admit_run [OF mc refl lf] by metis
  have p64: "physical_cores ?m \<le> 64" using Machine_check_Inr [OF mc] by simp
  have "{n. bit mk n} = {base..<base + count}"
    using run(1,4) p64 by (auto simp: bit_run_mask)
  then have "count_ones mk = count" by (simp add: count_ones_card)
  then have sp: "count_ones (grt_cores g) = ?w" "grant_mask g = mk" "grt_cores g AND grt_excluded g = 0"
    using with_split [of ?w mk g0] run(2) unfolding g(1) grant_mask_def by auto
  have grp: "bit mk n = bit mk n'"
    if "n < 64" "n' < 64" "n div exclusion_grain ?m = n' div exclusion_grain ?m" for n n'
    using div_grain_run [OF run(5,6) that(3)] exclusion_grain_pos [of ?m] that(1,2)
    by (simp add: run(1) bit_run_mask)
  have rest: "grt_class g = dem_class d" "grt_period_ns g = dem_period_ns d"
    "grt_budget_ns g = dem_budget_ns d" "grt_memory_bytes g = dem_memory_bytes d"
    using g by (simp_all add: Grant_with_split_def Let_def)
  have "frame_cores ?m \<le> n \<and> n < physical_cores ?m" if "bit mk n" for n
    using that run(1,3,4) by (simp add: bit_run_mask)
  then show ?thesis using sp run(7) grp part rest by simp
qed

lemma admit_cpu_hard:
  assumes "admit_cpu m d = Inr ()" and "dem_class d = manifest_class_HARD"
  shows "0 < dem_cores d" "0 < dem_budget_ns d" "dem_budget_ns d + tick_ns m \<le> dem_period_ns d"
  using assms by (auto simp: admit_cpu_def split: if_splits)

lemma admit_cpu_soft:
  assumes "admit_cpu m d = Inr ()" and "dem_class d \<noteq> manifest_class_HARD"
  shows "dem_cores d = 0" "dem_period_ns d = 0" "dem_budget_ns d = 0"
  using assms by (auto simp: admit_cpu_def split: if_splits)

lemma admit_memory_hard:
  assumes "admit_memory t d = Inr ()" and "dem_class d = manifest_class_HARD"
  shows "HUGE_BYTES dvd dem_memory_bytes d"
    "res_memory_used t + dem_memory_bytes d \<le> reservable_bytes (res_machine t)"
  using assms by (auto simp: admit_memory_def not_less split: if_splits)

lemma admit_Inr:
  "reserve_admit t d = Inr g \<longleftrightarrow> manifest_class_known (dem_class d) \<and> domain_known (dem_domain d)
     \<and> admit_cpu (res_machine t) d = Inr () \<and> admit_memory t d = Inr () \<and> admit_cores t d = Inr g"
  by (auto simp: reserve_admit_def and_then_Inr_iff)

lemma admit_ok:
  assumes inv: "res_inv t" and adm: "reserve_admit t d = Inr g"
  shows "grant_ok (res_machine t) g \<and> Grant_answers g d \<and> res_taken t AND grant_mask g = 0
    \<and> res_memory_used t + hard_memory g \<le> reservable_bytes (res_machine t)
    \<and> res_partitions_used t + grant_partitions (res_machine t) g \<le> partitions (res_machine t)"
proof -
  note ok = adm [unfolded admit_Inr]
  have mem: "res_memory_used t \<le> reservable_bytes (res_machine t)"
    and part: "res_partitions_used t \<le> partitions (res_machine t)"
    using inv by (auto simp: res_inv_def)
  show ?thesis
  proof (cases "Demand_whole_cores d = 0")
    case True
    then have soft: "dem_class d \<noteq> manifest_class_HARD"
      using admit_cpu_hard(1) [of _ d] ok by (force simp: Demand_whole_cores_def)
    have g: "grt_cores g = 0" "grt_excluded g = 0" "grt_period_ns g = 0" "grt_budget_ns g = 0"
        "grt_memory_bytes g = dem_memory_bytes d" "grt_class g = dem_class d"
      using ok True by (auto simp: admit_cores_def Let_def)
    then have fp: "Grant_footprint g = 0" "grant_mask g = 0"
      by (simp_all add: Grant_footprint_def grant_mask_def)
    then show ?thesis
      using g soft admit_cpu_soft [of _ d] ok True mem part
      by (auto simp: grant_ok_def Grant_answers_def hard_memory_def grant_partitions_def)
  next
    case False
    from ok have "admit_cores t d = Inr g" by simp
    note c = admit_cores_Inr [OF inv this False]
    have ones: "grt_cores g \<noteq> 0"
    proof
      assume "grt_cores g = 0"
      then have "count_ones (grt_cores g) = 0" by simp
      then show False using c False by linarith
    qed
    have "grant_ok (res_machine t) g"
      unfolding grant_ok_def using c ones ok admit_cpu_hard [of "res_machine t" d] admit_memory_hard [of t d]
      by simp
    moreover have "Grant_answers g d" using c by (simp add: Grant_answers_def)
    moreover have "res_memory_used t + hard_memory g \<le> reservable_bytes (res_machine t)"
      using ok admit_memory_hard(2) [of t d] c mem by (auto simp: hard_memory_def)
    moreover have "res_partitions_used t + grant_partitions (res_machine t) g \<le> partitions (res_machine t)"
      using c part by (simp add: grant_partitions_def)
    ultimately show ?thesis using c by blast
  qed
qed

subsection \<open>Every operation keeps the invariant\<close>

lemma inv_new:
  assumes "reserve_new m = Inr t" and "reservable_bytes m < 2 ^ 64" and "partitions m < 2 ^ 32"
  shows "res_inv t" and "res_machine t = m"
proof -
  from assms(1) have "Machine_check m = Inr ()" and t: "t = \<lparr>res_machine = m,
      res_held = replicate RESERVATIONS_MAX Grant_NONE, res_count = 0, res_taken = 0,
      res_partitions_used = 0, res_memory_used = 0, res_admitted = 0, res_refused = replicate 4 0\<rparr>"
    by (auto simp: reserve_new_def and_then_Inr_iff)
  then show "res_inv t" and "res_machine t = m"
    using assms(2,3) by (simp_all add: res_inv_def reserve_grants_def)
qed

lemma inv_count_refusal: "res_inv t \<Longrightarrow> res_inv (count_refusal why t)"
proof -
  have "reserve_grants (count_refusal why t) = reserve_grants t"
    by (simp add: count_refusal_def reserve_grants_def)
  then show "res_inv t \<Longrightarrow> res_inv (count_refusal why t)"
    unfolding res_inv_def by (simp add: count_refusal_def)
qed

lemma grant_grants:
  assumes "res_inv t" and "reserve_grant d t = (Inr g, t')"
  shows "reserve_grants t' = reserve_grants t @ [g]" and "res_count t < RESERVATIONS_MAX"
proof -
  have c: "res_count t < RESERVATIONS_MAX" and
    h: "res_held t' = (res_held t)[res_count t := g]" "res_count t' = res_count t + 1"
    using assms(2) by (auto simp: reserve_grant_def not_le split: sum.splits if_splits)
  moreover have "length (res_held t) = RESERVATIONS_MAX" using assms(1) by (simp add: res_inv_def)
  ultimately show "reserve_grants t' = reserve_grants t @ [g]"
    by (simp add: reserve_grants_def take_Suc_conv_app_nth)
  show "res_count t < RESERVATIONS_MAX" by (rule c)
qed

lemma inv_grant_Inr:
  assumes inv: "res_inv t" and eq: "reserve_grant d t = (Inr g, t')"
  shows "res_inv t'"
proof -
  note gs = grant_grants [OF inv eq]
  have adm: "reserve_admit t d = Inr g" using eq by (auto simp: reserve_grant_def split: sum.splits if_splits)
  note ok = admit_ok [OF inv adm]
  have t': "res_machine t' = res_machine t" "length (res_held t') = length (res_held t)"
    "res_count t' = res_count t + 1" "res_taken t' = res_taken t OR grant_mask g"
    and mem: "res_memory_used t' = sat_add 64 (res_memory_used t) (hard_memory g)"
    and part: "res_partitions_used t' = sat_add 32 (res_partitions_used t) (grant_partitions (res_machine t) g)"
    using eq inv adm
    by (auto simp: reserve_grant_def grant_mask_def hard_memory_def grant_partitions_def res_inv_def
        sat_add_def split: if_splits)
  have "res_memory_used t + hard_memory g < 2 ^ 64"
    "res_partitions_used t + grant_partitions (res_machine t) g < 2 ^ 32"
    using ok inv unfolding res_inv_def by linarith+
  then have sums: "res_memory_used t' = res_memory_used t + hard_memory g"
    "res_partitions_used t' = res_partitions_used t + grant_partitions (res_machine t) g"
    unfolding mem part sat_add_def by linarith+
  have "\<forall>a \<in> set (reserve_grants t). grant_mask a AND grant_mask g = 0"
    using ok inv unfolding res_inv_def and_eq_0_iff_bits by blast
  then have "sorted_wrt (\<lambda>a b. grant_mask a AND grant_mask b = 0) (reserve_grants t')"
    using inv by (simp add: gs(1) sorted_wrt_append res_inv_def)
  moreover have "\<forall>n. bit (res_taken t') n \<longleftrightarrow> (\<exists>a \<in> set (reserve_grants t'). bit (grant_mask a) n)"
    using inv by (auto simp: t'(4) gs(1) bit_or_iff res_inv_def)
  ultimately show ?thesis
    using inv ok gs(2) unfolding res_inv_def sums t' gs(1) by simp
qed

lemma inv_grant: "res_inv t \<Longrightarrow> reserve_grant d t = (res, t') \<Longrightarrow> res_inv t'"
proof (cases res)
  case (Inl why)
  assume "res_inv t" and "reserve_grant d t = (res, t')"
  then show ?thesis
    using Inl inv_count_refusal by (auto simp: reserve_grant_def split: sum.splits if_splits)
qed (auto intro: inv_grant_Inr)

lemma shift_down_nth:
  assumes "c < length h"
  shows "length (shift_down [a..<c] h) = length h
    \<and> (\<forall>i < length h. shift_down [a..<c] h ! i = (if a \<le> i \<and> i < c then h ! (i + 1) else h ! i))"
  using assms
proof (induction "c - a" arbitrary: a h)
  case 0
  then show ?case by auto
next
  case (Suc k)
  then have a: "a < c" by simp
  have "length (shift_down [a + 1..<c] (h[a := h ! (a + 1)])) = length h
    \<and> (\<forall>i < length h. shift_down [a + 1..<c] (h[a := h ! (a + 1)]) ! i =
         (if a + 1 \<le> i \<and> i < c then h[a := h ! (a + 1)] ! (i + 1) else h[a := h ! (a + 1)] ! i))"
    using Suc.hyps(1) [of "a + 1" "h[a := h ! (a + 1)]"] Suc.hyps(2) Suc.prems by simp
  then show ?case
    using a Suc.prems by (auto simp: upt_conv_Cons nth_list_update less_Suc_eq_le)
qed

definition drop_nth :: "nat \<Rightarrow> 'a list \<Rightarrow> 'a list" where
  "drop_nth i xs = take i xs @ drop (Suc i) xs"

lemma drop_nth_map: "map f (drop_nth i xs) = drop_nth i (map f xs)"
  by (simp add: drop_nth_def take_map drop_map)

lemma split_nth: "i < length xs \<Longrightarrow> xs = take i xs @ xs ! i # drop (Suc i) xs"
  by (rule id_take_nth_drop)

lemma sum_drop_nth: "i < length xs \<Longrightarrow> sum_list xs = xs ! i + sum_list (drop_nth i xs)"
  for xs :: "nat list"
  by (subst (1) split_nth [of i xs]) (simp_all add: drop_nth_def)

lemma release_True:
  assumes inv: "res_inv t" and eq: "reserve_release g t = (True, t')"
  obtains i where "i < length (reserve_grants t)" "grant_matches g (reserve_grants t ! i)"
    "reserve_grants t' = drop_nth i (reserve_grants t)" "length (res_held t') = RESERVATIONS_MAX"
    "res_count t' \<le> RESERVATIONS_MAX" "res_machine t' = res_machine t"
    "res_taken t' = res_taken t AND NOT (grant_mask (reserve_grants t ! i))"
    "res_memory_used t' = res_memory_used t - hard_memory (reserve_grants t ! i)"
    "res_partitions_used t' = res_partitions_used t - grant_partitions (res_machine t) (reserve_grants t ! i)"
proof -
  have len: "length (res_held t) = RESERVATIONS_MAX" and cnt: "res_count t \<le> RESERVATIONS_MAX"
    using inv by (auto simp: res_inv_def)
  have gs: "reserve_grants t = take (res_count t) (res_held t)" using len cnt by (simp add: reserve_grants_def)
  obtain i where f: "List.find (\<lambda>i. grant_matches g (reserve_grants t ! i)) [0..<length (reserve_grants t)] = Some i"
    using eq by (auto simp: reserve_release_def split: option.splits)
  then have i: "i < length (reserve_grants t)" "grant_matches g (reserve_grants t ! i)"
    by (auto simp: find_upt_Some_iff)
  then have ic: "i < res_count t" by (simp add: gs)
  then have gi: "reserve_grants t ! i = res_held t ! i" by (simp add: gs)
  let ?h = "shift_down [i..<res_count t - 1] (res_held t)"
  have t': "t' = t\<lparr>res_held := ?h[res_count t - 1 := Grant_NONE], res_count := res_count t - 1,
      res_taken := res_taken t AND NOT (grant_mask (res_held t ! i)),
      res_memory_used := res_memory_used t - hard_memory (res_held t ! i),
      res_partitions_used := res_partitions_used t - grant_partitions (res_machine t) (res_held t ! i)\<rparr>"
    using eq f by (auto simp: reserve_release_def Let_def grant_mask_def hard_memory_def grant_partitions_def)
  have "res_count t - 1 < length (res_held t)" using ic len cnt by linarith
  note sh = shift_down_nth [OF this, of i]
  have "take (res_count t - 1) (?h[res_count t - 1 := Grant_NONE]) = drop_nth i (reserve_grants t)"
  proof (rule nth_equalityI)
    show "length (take (res_count t - 1) (?h[res_count t - 1 := Grant_NONE])) = length (drop_nth i (reserve_grants t))"
      using sh ic len cnt by (simp add: drop_nth_def gs)
    fix k assume "k < length (take (res_count t - 1) (?h[res_count t - 1 := Grant_NONE]))"
    then have k: "k < res_count t - 1" by simp
    then show "take (res_count t - 1) (?h[res_count t - 1 := Grant_NONE]) ! k = drop_nth i (reserve_grants t) ! k"
      using sh ic len cnt by (auto simp: drop_nth_def gs nth_append min_def)
  qed
  moreover have "res_count t - 1 \<le> RESERVATIONS_MAX" using cnt by linarith
  ultimately have "reserve_grants t' = drop_nth i (reserve_grants t)"
    using sh len by (simp add: t' reserve_grants_def)
  then show thesis using that i gi sh len cnt by (simp add: t')
qed

lemma set_drop_nth: "i < length xs \<Longrightarrow> set xs = insert (xs ! i) (set (drop_nth i xs))"
  by (subst (1) split_nth [of i xs]) (auto simp: drop_nth_def)

lemma sorted_wrt_drop_nth:
  assumes "sorted_wrt R xs" and "i < length xs" and "\<And>a b. R a b \<Longrightarrow> R b a"
  shows "sorted_wrt R (drop_nth i xs) \<and> (\<forall>a \<in> set (drop_nth i xs). R (xs ! i) a)"
proof -
  have "sorted_wrt R (take i xs @ xs ! i # drop (Suc i) xs)"
    using assms(1,2) split_nth by metis
  then show ?thesis using assms(3) by (auto simp: drop_nth_def sorted_wrt_append)
qed

lemma inv_release_True:
  assumes inv: "res_inv t" and eq: "reserve_release g t = (True, t')"
  shows "res_inv t'"
  using assms
proof (rule release_True)
  fix i assume i: "i < length (reserve_grants t)" "reserve_grants t' = drop_nth i (reserve_grants t)"
    and t': "length (res_held t') = RESERVATIONS_MAX" "res_count t' \<le> RESERVATIONS_MAX"
    "res_machine t' = res_machine t"
    "res_taken t' = res_taken t AND NOT (grant_mask (reserve_grants t ! i))"
    "res_memory_used t' = res_memory_used t - hard_memory (reserve_grants t ! i)"
    "res_partitions_used t' = res_partitions_used t - grant_partitions (res_machine t) (reserve_grants t ! i)"
  let ?R = "\<lambda>a b. grant_mask a AND grant_mask b = 0"
  let ?d = "drop_nth i (reserve_grants t)" and ?x = "reserve_grants t ! i"
  have srt: "sorted_wrt ?R (reserve_grants t)" using inv by (simp add: res_inv_def)
  have dj: "sorted_wrt ?R ?d" "\<And>a. a \<in> set ?d \<Longrightarrow> grant_mask ?x AND grant_mask a = 0"
    using sorted_wrt_drop_nth [OF srt i(1)] by (auto simp: and.commute)
  have st: "set (reserve_grants t) = insert ?x (set ?d)" using set_drop_nth [OF i(1)] .
  have "bit (res_taken t') n \<longleftrightarrow> (\<exists>a \<in> set ?d. bit (grant_mask a) n)" for n
  proof -
    have "bit (res_taken t) n \<longleftrightarrow> bit (grant_mask ?x) n \<or> (\<exists>a \<in> set ?d. bit (grant_mask a) n)"
      using inv st by (simp add: res_inv_def)
    moreover have "\<not> (bit (grant_mask ?x) n \<and> bit (grant_mask a) n)" if "a \<in> set ?d" for a
      using dj(2) [OF that] by (auto simp: and_eq_0_iff_bits)
    moreover have "bit (res_taken t) n \<Longrightarrow> n < 64" using bit_imp_le_length [of "res_taken t"] by simp
    ultimately show ?thesis unfolding t'(4) by (auto simp: bit_and_iff bit_not_iff)
  qed
  moreover have "res_memory_used t' = sum_list (map hard_memory ?d)"
    "res_partitions_used t' = sum_list (map (grant_partitions (res_machine t)) ?d)"
    using inv sum_drop_nth [of i "map hard_memory (reserve_grants t)"]
      sum_drop_nth [of i "map (grant_partitions (res_machine t)) (reserve_grants t)"] i(1)
    by (simp_all add: res_inv_def t' drop_nth_map)
  ultimately show ?thesis
    using inv dj(1) st t' unfolding res_inv_def i(2) by auto
qed

lemma inv_release:
  assumes "res_inv t" and "reserve_release g t = (b, t')"
  shows "res_inv t'"
proof (cases b)
  case True
  then show ?thesis using assms by (auto intro: inv_release_True)
next
  case False
  then have "t' = t" using assms(2) by (auto simp: reserve_release_def Let_def split: option.splits)
  then show ?thesis using assms(1) by simp
qed

text \<open>The tables a machine can come to: opened empty, then granted from and released to.\<close>

inductive reservations_of :: "Machine \<Rightarrow> Reservations \<Rightarrow> bool" for m where
  opened: "reserve_new m = Inr t \<Longrightarrow> reservations_of m t"
| granted: "reservations_of m t \<Longrightarrow> reserve_grant d t = (res, t') \<Longrightarrow> reservations_of m t'"
| released: "reservations_of m t \<Longrightarrow> reserve_release g t = (b, t') \<Longrightarrow> reservations_of m t'"

definition Machine_bounded :: "Machine \<Rightarrow> bool" where
  "Machine_bounded m \<longleftrightarrow> reservable_bytes m < 2 ^ 64 \<and> partitions m < 2 ^ 32"

lemma reservations_inv:
  "reservations_of m t \<Longrightarrow> Machine_bounded m \<Longrightarrow> res_inv t \<and> res_machine t = m"
proof (induction rule: reservations_of.induct)
  case (opened t)
  then show ?case using inv_new by (simp add: Machine_bounded_def)
next
  case (granted t d res t')
  have "res_machine t' = res_machine t"
    using granted.hyps(2) by (auto simp: reserve_grant_def count_refusal_def split: sum.splits if_splits)
  then show ?case using granted inv_grant by blast
next
  case (released t g b t')
  have "res_machine t' = res_machine t"
    using released.hyps(2) by (auto simp: reserve_release_def Let_def split: option.splits)
  then show ?case using released inv_release by blast
qed

end
