(* ===== verification/Reserve_Theorems.thy ===== *)
theory Reserve_Theorems
  imports Reserve_Inv
begin

text \<open>
  The properties of admission: what a table of reservations never gives twice, that a grant is
  what was demanded, when a refusal for want of cores is justified, that releasing undoes
  granting, and that a demand without whole cores costs no other demand anything.
\<close>

subsection \<open>A part and a demand to evaluate on\<close>

definition demo_machine :: Machine where
  "demo_machine = \<lparr>physical_cores = 16, threads_per_core = 2, cores_per_cache = 4,
     cores_per_bandwidth = 1, mach_cache = Exclusion, mach_bandwidth = Partition, partitions = 4,
     frame_cores = 1, reservable_bytes = 8 * HUGE_BYTES, tick_ns = 1000000\<rparr>"

definition demo_demand :: Demand where
  "demo_demand = \<lparr>dem_cores = 2, dem_period_ns = 4000000, dem_budget_ns = 1500000,
     dem_memory_bytes = HUGE_BYTES, dem_class = manifest_class_HARD, dem_domain = domain_SHARED\<rparr>"

definition demo_opened :: Reservations where
  "demo_opened = \<lparr>res_machine = demo_machine, res_held = replicate RESERVATIONS_MAX Grant_NONE,
     res_count = 0, res_taken = 0, res_partitions_used = 0, res_memory_used = 0, res_admitted = 0,
     res_refused = replicate 4 0\<rparr>"

definition demo_grant :: Grant where
  "demo_grant = \<lparr>grt_cores = 0x30, grt_excluded = 0xC0, grt_period_ns = 4000000, grt_budget_ns = 1500000,
     grt_memory_bytes = HUGE_BYTES, grt_sibling = obtained_EXCLUSION, grt_cache = obtained_EXCLUSION,
     grt_bandwidth = obtained_PARTITION, grt_memory = obtained_PARTITION,
     grt_class = manifest_class_HARD\<rparr>"

lemma demo_bounded: "Machine_bounded demo_machine"
  by (simp add: Machine_bounded_def demo_machine_def HUGE_BYTES_def)

lemma demo_new: "reserve_new demo_machine = Inr demo_opened"
  by (simp add: reserve_new_def Machine_check_def demo_machine_def demo_opened_def CORES_MAX_def)

lemma demo_opened_of: "reservations_of demo_machine demo_opened"
  using demo_new by (rule reservations_of.opened)

lemma demo_lowest: "lowest_free demo_opened 4 4 = Some (run_mask 4 4)"
  by (simp add: lowest_free_def demo_opened_def demo_machine_def round_up_def sat_add_def
      lowest_free_loop.simps)

lemma demo_split: "with_split_loop (run_mask 4 4) 0 2 0 = 0x30"
  by (simp add: with_split_loop.simps run_mask_def CORES_MAX_def)

lemma demo_admit: "reserve_admit demo_opened demo_demand = Inr demo_grant"
proof -
  have "admit_cores demo_opened demo_demand = Inr demo_grant"
    using demo_lowest demo_split
    by (simp add: admit_cores_def Let_def Demand_whole_cores_def demo_demand_def demo_grant_def
        exclusion_grain_def round_up_def sat_add_def Machine_offerable_def partitions_wanted_def
        demo_opened_def demo_machine_def Grant_with_split_def run_mask_def CORES_MAX_def)
  then show ?thesis
    by (simp add: admit_Inr manifest_class_known_def domain_known_def admit_cpu_def admit_memory_def
        demo_demand_def demo_opened_def demo_machine_def HUGE_BYTES_def)
qed

definition demo_table :: Reservations where
  "demo_table = snd (reserve_grant demo_demand demo_opened)"

lemma demo_granted: "reserve_grant demo_demand demo_opened = (Inr demo_grant, demo_table)"
proof -
  have "fst (reserve_grant demo_demand demo_opened) = Inr demo_grant"
    by (simp add: reserve_grant_def demo_admit) (simp add: demo_opened_def RESERVATIONS_MAX_def)
  then show ?thesis unfolding demo_table_def by (metis prod.collapse)
qed

lemma demo_table_of: "reservations_of demo_machine demo_table"
  using demo_opened_of demo_granted by (rule reservations_of.granted)

lemma demo_grants: "reserve_grants demo_table = [demo_grant]"
  using grant_grants(1) [OF _ demo_granted] reservations_inv [OF demo_opened_of demo_bounded]
  by (simp add: reserve_grants_def demo_opened_def)

subsection \<open>What is never given twice\<close>

text \<open>
  C11: However reservations are granted and released, no core is held by two of them, none is a core
  of the frame or past the machine, a core reads as reserved exactly when some reservation holds
  or excludes it, the hard class's memory never exceeds the pool, and the partitions given out
  never exceed those the part has.
\<close>

theorem reservations_exclusive:
  assumes "reservations_of m t" and "Machine_bounded m"
  shows "(\<forall>i j. i < j \<and> j < length (reserve_grants t) \<longrightarrow>
      grant_mask (reserve_grants t ! i) AND grant_mask (reserve_grants t ! j) = 0)
    \<and> (\<forall>n < CORES_MAX. reserve_reserved t n \<longleftrightarrow> (\<exists>g \<in> set (reserve_grants t). bit (grant_mask g) n))
    \<and> (\<forall>n < CORES_MAX. reserve_reserved t n \<longrightarrow> frame_cores m \<le> n \<and> n < physical_cores m)
    \<and> (\<Sum>g\<leftarrow>reserve_grants t. hard_memory g) \<le> reservable_bytes m
    \<and> (\<Sum>g\<leftarrow>reserve_grants t. grant_partitions m g) \<le> partitions m"
proof -
  have inv: "res_inv t" and m: "res_machine t = m" using reservations_inv [OF assms] by auto
  have res: "reserve_reserved t n \<longleftrightarrow> (\<exists>g \<in> set (reserve_grants t). bit (grant_mask g) n)" if "n < CORES_MAX" for n
    using that inv by (auto simp: reserve_reserved_def res_inv_def and_exp_ne_0_iff)
  have "frame_cores m \<le> n \<and> n < physical_cores m" if "n < CORES_MAX" "reserve_reserved t n" for n
    using that inv m unfolding res [OF that(1)] res_inv_def grant_ok_def by blast
  then show ?thesis
    using inv m res unfolding res_inv_def sorted_wrt_iff_nth_less by auto
qed

theorem reservations_exclusive_witness:
  "reserve_reserved demo_table 5 \<and> \<not> reserve_reserved demo_table 0"
proof -
  have "grant_mask demo_grant = 0xF0" by (simp add: grant_mask_def demo_grant_def)
  then show ?thesis
    using reservations_exclusive [OF demo_table_of demo_bounded]
    by (auto simp: demo_grants CORES_MAX_def)
qed

subsection \<open>A grant is what was demanded\<close>

text \<open>
  C12: A demand that is admitted is answered exactly: as many whole cores as it asked for and its own
  period, budget, memory and class; every core of the grant was free; a grant covers each group of
  cores sharing what the part can only exclude either wholly or not at all; and a hard grant
  leaves at least a tick of slack in every period.
\<close>

theorem admit_exact:
  assumes "reservations_of m t" and "Machine_bounded m" and "reserve_admit t d = Inr g"
  shows "Grant_answers g d \<and> res_taken t AND grant_mask g = 0
    \<and> grt_cores g AND grt_excluded g = 0
    \<and> (\<forall>n n'. n < CORES_MAX \<and> n' < CORES_MAX \<and> n div exclusion_grain m = n' div exclusion_grain m \<longrightarrow>
          bit (grant_mask g) n = bit (grant_mask g) n')
    \<and> (dem_class d = manifest_class_HARD \<longrightarrow>
         grt_cores g \<noteq> 0 \<and> (\<exists>slack. Grant_slack_ns g = Some slack \<and> tick_ns m \<le> slack))"
proof -
  have inv: "res_inv t" and m: "res_machine t = m" using reservations_inv [OF assms(1,2)] by auto
  note ok = admit_ok [OF inv assms(3), unfolded m]
  then have cls: "grt_class g = dem_class d" by (simp add: Grant_answers_def)
  have "\<exists>slack. Grant_slack_ns g = Some slack \<and> tick_ns m \<le> slack"
    if "0 < grt_budget_ns g" "grt_budget_ns g + tick_ns m \<le> grt_period_ns g"
    using that by (simp add: Grant_slack_ns_def)
  then show ?thesis
    using ok unfolding grant_ok_def CORES_MAX_def cls by (intro conjI impI) (elim conjE; simp)+
qed

theorem admit_exact_witness:
  "Grant_answers demo_grant demo_demand \<and> res_taken demo_opened AND grant_mask demo_grant = 0"
  using admit_exact [OF demo_opened_of demo_bounded demo_admit] by blast

lemma round_up_le:
  assumes "g dvd base" and "v \<le> base" and "1 \<le> g"
  shows "round_up v g \<le> base"
proof (cases "g \<le> 1 \<or> v mod g = 0")
  case True
  then show ?thesis using assms by (auto simp: round_up_def Let_def)
next
  case False
  then have "round_up v g \<le> v + (g - v mod g)"
    by (simp add: round_up_def Let_def sat_add_def)
  also have "\<dots> \<le> base"
  proof -
    obtain k where k: "base = g * k" using assms(1) by (auto elim: dvdE)
    obtain q r where v: "v = g * q + r" "r = v mod g" by (metis mult_div_mod_eq)
    have r: "0 < r" "r < g" using False v(2) assms(3) by auto
    have "g * q < g * k" using assms(2) k v(1) r by linarith
    then have "q < k" by simp
    then have "g * (q + 1) \<le> g * k" by (intro mult_le_mono2) simp
    then show ?thesis using k v r by simp
  qed
  finally show ?thesis .
qed

text \<open>
  C13: A demand that is schedulable and fits in memory is refused for want of cores only when there
  is no free run of cores for it: every run of the size it needs, aligned to the part's exclusion
  groups and clear of the frame's cores, meets a core already taken.
\<close>

theorem no_core_justified:
  assumes "reservations_of m t" and "Machine_bounded m" and "reserve_admit t d = Inl NoCore"
    and "exclusion_grain m dvd base" and "frame_cores m \<le> base"
    and "base + round_up (Demand_whole_cores d) (exclusion_grain m) \<le> physical_cores m"
  shows "res_taken t AND run_mask base (round_up (Demand_whole_cores d) (exclusion_grain m)) \<noteq> 0"
proof -
  let ?g = "exclusion_grain m" and ?c = "round_up (Demand_whole_cores d) (exclusion_grain m)"
  have m: "res_machine t = m" and inv: "res_inv t" using reservations_inv [OF assms(1,2)] by auto
  have g: "1 \<le> ?g" by (rule exclusion_grain_pos)
  then have g0: "?g \<noteq> 0" by simp
  have "admit_cores t d = Inl NoCore"
    using assms(3) by (auto simp: reserve_admit_def and_then_Inl_iff admit_cpu_def admit_memory_def
      split: if_splits)
  moreover have "?c \<le> Machine_offerable m" using assms(5,6) by (simp add: Machine_offerable_def)
  ultimately have "lowest_free t ?c ?g = None"
    using m by (auto simp: admit_cores_def Let_def split: if_splits option.splits)
  then have none: "lowest_free_loop (physical_cores m) (res_taken t) ?c ?g (round_up (frame_cores m) ?g) = None"
    using g0 m by (simp add: lowest_free_def Let_def)
  have le: "round_up (frame_cores m) ?g \<le> base" using round_up_le [OF assms(4,5) g] .
  have "physical_cores m \<le> 64" using Machine_check_Inr [of m] inv m by (simp add: res_inv_def)
  then have "round_up (frame_cores m) ?g < 2 ^ 32 - 1" using le assms(6) by simp
  from round_up_small(2) [OF this g] have "?g dvd base - round_up (frame_cores m) ?g"
    using assms(4) by (rule dvd_diff_nat [rotated])
  then show ?thesis using lowest_free_loop_None [OF none _ le assms(6)] g0 by simp
qed

definition demo_wide :: Demand where
  "demo_wide = demo_demand\<lparr>dem_cores := 12\<rparr>"

lemma demo_wide_refused: "reserve_admit demo_table demo_wide = Inl NoCore"
proof -
  have t: "res_machine demo_table = demo_machine" "res_taken demo_table = 0xF0"
      "res_memory_used demo_table = HUGE_BYTES"
    unfolding demo_table_def reserve_grant_def demo_admit
    by (simp_all add: demo_grant_def RESERVATIONS_MAX_def sat_add_def HUGE_BYTES_def demo_opened_def)
  have "lowest_free demo_table 12 4 = None"
    by (simp add: lowest_free_def t demo_machine_def round_up_def sat_add_def lowest_free_loop.simps
        run_mask_def CORES_MAX_def)
  then have "admit_cores demo_table demo_wide = Inl NoCore"
    by (simp add: admit_cores_def Let_def t Demand_whole_cores_def demo_wide_def demo_demand_def
        exclusion_grain_def demo_machine_def round_up_def sat_add_def Machine_offerable_def)
  then show ?thesis
    by (simp add: reserve_admit_def manifest_class_known_def domain_known_def admit_cpu_def
        admit_memory_def demo_wide_def demo_demand_def t demo_machine_def HUGE_BYTES_def)
qed

theorem no_core_justified_witness:
  "res_taken demo_table AND run_mask 4 (round_up 12 4) \<noteq> 0"
  using no_core_justified [OF demo_table_of demo_bounded demo_wide_refused, of 4]
  by (simp add: exclusion_grain_def demo_machine_def demo_wide_def demo_demand_def
      Demand_whole_cores_def round_up_def sat_add_def)

subsection \<open>Releasing undoes granting\<close>

lemma matches_same:
  assumes inv: "res_inv t" and ab: "a \<in> set (reserve_grants t)" "b \<in> set (reserve_grants t)"
    and m: "grant_matches a b"
  shows "grant_mask b = grant_mask a" and "hard_memory b = hard_memory a"
    and "grant_partitions k b = grant_partitions k a"
proof -
  show mk: "grant_mask b = grant_mask a" using m by (simp add: grant_mask_def grant_matches_def)
  then show "grant_partitions k b = grant_partitions k a"
    by (simp add: grant_partitions_def Grant_footprint_def grant_mask_def)
  show "hard_memory b = hard_memory a"
  proof (cases "grt_cores a = 0")
    case True
    then have "grt_cores b = 0" using m by (simp add: grant_matches_def)
    then have "grt_class a \<noteq> manifest_class_HARD" "grt_class b \<noteq> manifest_class_HARD"
      using inv ab True unfolding res_inv_def grant_ok_def by blast+
    then show ?thesis by (simp add: hard_memory_def)
  next
    case False
    obtain i j where ij: "i < length (reserve_grants t)" "j < length (reserve_grants t)"
      "a = reserve_grants t ! i" "b = reserve_grants t ! j"
      using ab by (auto simp: in_set_conv_nth)
    have "i = j"
    proof (rule ccontr)
      assume "i \<noteq> j"
      then have "grant_mask a AND grant_mask b = 0"
        using inv ij unfolding res_inv_def sorted_wrt_iff_nth_less
        by (metis and.commute linorder_neqE_nat)
      then have "grant_mask a = 0" using mk by simp
      then show False using False by (simp add: grant_mask_def or_eq_0_iff)
    qed
    then show ?thesis using ij by simp
  qed
qed

text \<open>
  C14: Releasing a reservation just granted is accepted and gives back what it took and no more: the
  cores taken, the memory and the partitions in use are what they were before the grant.
\<close>

theorem release_undoes_grant:
  assumes "reservations_of m t" and "Machine_bounded m" and "reserve_grant d t = (Inr g, t')"
  shows "\<exists>t''. reserve_release g t' = (True, t'') \<and> res_taken t'' = res_taken t
    \<and> res_memory_used t'' = res_memory_used t \<and> res_partitions_used t'' = res_partitions_used t
    \<and> length (reserve_grants t'') = length (reserve_grants t)"
proof -
  have inv: "res_inv t" and m: "res_machine t = m" using reservations_inv [OF assms(1,2)] by auto
  have inv': "res_inv t'" using inv_grant [OF inv assms(3)] .
  note gs = grant_grants(1) [OF inv assms(3)]
  obtain b t'' where rel: "reserve_release g t' = (b, t'')" by fastforce
  have b
  proof (rule ccontr)
    assume "\<not> b"
    then have "List.find (\<lambda>i. grant_matches g (reserve_grants t' ! i)) [0..<length (reserve_grants t')] = None"
      using rel by (auto simp: reserve_release_def Let_def split: option.splits)
    then have "\<forall>i < length (reserve_grants t'). \<not> grant_matches g (reserve_grants t' ! i)"
      by (simp only: find_upt_None_iff)
    moreover have "length (reserve_grants t) < length (reserve_grants t')" by (simp add: gs)
    ultimately have "\<not> grant_matches g (reserve_grants t' ! length (reserve_grants t))" by blast
    then show False by (simp add: gs grant_matches_def)
  qed
  with rel have rel: "reserve_release g t' = (True, t'')" by simp
  have adm: "reserve_admit t d = Inr g"
    using assms(3) by (auto simp: reserve_grant_def split: sum.splits if_splits)
  have t': "res_machine t' = res_machine t" "res_taken t' = res_taken t OR grant_mask g"
    using assms(3) adm by (auto simp: reserve_grant_def grant_mask_def split: if_splits)
  have used: "res_memory_used t' = res_memory_used t + hard_memory g"
    "res_partitions_used t' = res_partitions_used t + grant_partitions (res_machine t) g"
    using inv inv' by (simp_all add: res_inv_def gs t')
  show ?thesis
    using inv' rel
  proof (rule release_True)
    fix i assume i: "i < length (reserve_grants t')" "grant_matches g (reserve_grants t' ! i)"
        "reserve_grants t'' = drop_nth i (reserve_grants t')"
      and t'': "res_taken t'' = res_taken t' AND NOT (grant_mask (reserve_grants t' ! i))"
        "res_memory_used t'' = res_memory_used t' - hard_memory (reserve_grants t' ! i)"
        "res_partitions_used t'' = res_partitions_used t' - grant_partitions (res_machine t') (reserve_grants t' ! i)"
    have x: "grant_mask (reserve_grants t' ! i) = grant_mask g"
        "hard_memory (reserve_grants t' ! i) = hard_memory g"
        "grant_partitions k (reserve_grants t' ! i) = grant_partitions k g" for k
      using matches_same [OF inv' _ _ i(2)] nth_mem [OF i(1)] gs by auto
    have "res_taken t AND grant_mask g = 0" using admit_ok [OF inv adm] by blast
    then have "(res_taken t OR grant_mask g) AND NOT (grant_mask g) = res_taken t"
      by (intro bit_eqI) (auto simp: and_eq_0_iff_bits bit_simps)
    moreover have "length (reserve_grants t'') = length (reserve_grants t)"
      using i(1) gs by (simp add: i(3) drop_nth_def)
    ultimately show ?thesis using rel t'' x used t' by simp
  qed
qed

theorem release_undoes_grant_witness:
  "\<exists>t''. reserve_release demo_grant demo_table = (True, t'') \<and> res_taken t'' = 0"
  using release_undoes_grant [OF demo_opened_of demo_bounded demo_granted]
  by (auto simp: demo_opened_def)

subsection \<open>Deadlines and idling\<close>

definition periods_on :: "Reservations \<Rightarrow> nat \<Rightarrow> nat set" where
  "periods_on t core = {grt_period_ns g |g. g \<in> set (reserve_grants t) \<and> bit (grt_cores g) core
     \<and> grt_period_ns g \<noteq> 0}"

definition slacks_on :: "Reservations \<Rightarrow> nat \<Rightarrow> nat set" where
  "slacks_on t core = {s. \<exists>g \<in> set (reserve_grants t). bit (grt_cores g) core \<and> Grant_slack_ns g = Some s}"

definition min_opt :: "nat option \<Rightarrow> nat set \<Rightarrow> nat option" where
  "min_opt acc S = (let A = S \<union> set_option acc in if A = {} then None else Some (Min A))"

lemma min_opt_step:
  assumes "finite S"
  shows "min_opt (Some (case acc of Some seen \<Rightarrow> if seen \<le> x then seen else x | None \<Rightarrow> x)) S
    = min_opt acc (insert x S)"
proof (cases acc)
  case None
  then show ?thesis by (simp add: min_opt_def)
next
  case (Some a)
  have "Min (insert (min a x) S) = Min (insert a (insert x S))"
    by (cases "S = {}") (simp_all add: assms min.assoc)
  then show ?thesis
    using Some by (auto simp: min_opt_def min_def insert_commute)
qed

lemma earliest_loop_min:
  "core < CORES_MAX \<Longrightarrow> earliest_loop core gs acc =
     min_opt acc {grt_period_ns g |g. g \<in> set gs \<and> bit (grt_cores g) core \<and> grt_period_ns g \<noteq> 0}"
proof (induction gs arbitrary: acc)
  case Nil
  then show ?case by (cases acc) (simp_all add: min_opt_def)
next
  case (Cons g gs)
  let ?S = "\<lambda>gs. {grt_period_ns g |g. g \<in> set gs \<and> bit (grt_cores g) core \<and> grt_period_ns g \<noteq> 0}"
  have fin: "finite (?S gs)" by simp
  have "?S (g # gs) = (if bit (grt_cores g) core \<and> grt_period_ns g \<noteq> 0
      then insert (grt_period_ns g) (?S gs) else ?S gs)" by auto
  then show ?case
    using Cons min_opt_step [OF fin] by (auto simp: and_exp_eq_0_iff not_le)
qed

lemma slack_loop_min:
  "core < CORES_MAX \<Longrightarrow> slack_loop core gs acc =
     min_opt acc {s. \<exists>g \<in> set gs. bit (grt_cores g) core \<and> Grant_slack_ns g = Some s}"
proof (induction gs arbitrary: acc)
  case Nil
  then show ?case by (cases acc) (simp_all add: min_opt_def)
next
  case (Cons g gs)
  let ?S = "\<lambda>gs. {s. \<exists>g \<in> set gs. bit (grt_cores g) core \<and> Grant_slack_ns g = Some s}"
  have "?S gs \<subseteq> (\<lambda>g. the (Grant_slack_ns g)) ` set gs" by force
  then have fin: "finite (?S gs)" by (rule finite_subset) simp
  have "?S (g # gs) = (case Grant_slack_ns g of
      Some s \<Rightarrow> if bit (grt_cores g) core then insert s (?S gs) else ?S gs | None \<Rightarrow> ?S gs)"
    by (auto split: option.splits)
  then show ?case
    using Cons min_opt_step [OF fin] by (auto simp: and_exp_eq_0_iff not_le split: option.splits)
qed

text \<open>The idle loop stops at the first state that does not fit.\<close>

lemma depth_loop_eq:
  "depth_loop slack depth ls deepest =
     (case length (takeWhile (\<lambda>l. l \<le> slack) ls) of 0 \<Rightarrow> deepest | Suc k \<Rightarrow> depth + k)"
  by (induction slack depth ls deepest rule: depth_loop.induct) (auto split: nat.splits)

definition deepest_fit :: "nat \<Rightarrow> nat list \<Rightarrow> nat \<Rightarrow> bool" where
  "deepest_fit slack ls d \<longleftrightarrow>
     d < length ls \<and> (\<forall>i \<le> d. ls ! i \<le> slack) \<and> (Suc d < length ls \<longrightarrow> slack < ls ! Suc d)"

lemma depth_loop_deepest:
  assumes "ls \<noteq> []" "ls ! 0 \<le> slack"
  shows "deepest_fit slack ls (depth_loop slack 0 ls 0)"
proof -
  let ?n = "length (takeWhile (\<lambda>l. l \<le> slack) ls)"
  have le: "?n \<le> length ls" by (rule length_takeWhile_le)
  obtain k where k: "?n = Suc k" using assms by (cases ls) auto
  have "ls ! i \<le> slack" if "i \<le> k" for i
    using that k le set_takeWhileD [of "ls ! i"] nth_mem [of i "takeWhile (\<lambda>l. l \<le> slack) ls"]
      takeWhile_nth [of i "\<lambda>l. l \<le> slack" ls] by fastforce
  moreover have "slack < ls ! Suc k" if "Suc k < length ls"
    using nth_length_takeWhile [of "\<lambda>l. l \<le> slack" ls] that k by simp
  ultimately show ?thesis using k le by (simp add: depth_loop_eq deepest_fit_def)
qed

lemma deepest_fit_Max:
  assumes "sorted ls" "deepest_fit slack ls d"
  shows "d = Max {i. i < length ls \<and> ls ! i \<le> slack}"
proof -
  have "i \<le> d" if "i < length ls" "ls ! i \<le> slack" for i
  proof (rule ccontr)
    assume "\<not> i \<le> d"
    then have "Suc d < length ls" "ls ! Suc d \<le> ls ! i"
      using that(1) sorted_nth_mono [OF assms(1), of "Suc d" i] by simp_all
    then show False using assms(2) that(2) by (simp add: deepest_fit_def)
  qed
  then show ?thesis
    using assms(2) by (intro Max_eqI [symmetric]) (auto simp: deepest_fit_def)
qed

text \<open>
  C15: For a core under reservation the deadline armed is the shortest period reserved on it and the
  slack is the least slack reserved on it. The idle state computed for it is the deepest up to
  which every state offered exits within that slack, which on a table that ascends, as it is
  documented to, is the deepest state that fits; where not even the shallowest fits, or none is
  offered, it is state 0 all the same. A core with no reserved slack is told to fall back.
\<close>

theorem idle_within_slack:
  assumes "core < CORES_MAX"
  shows "reserve_earliest_deadline_ns t core
      = (if periods_on t core = {} then None else Some (Min (periods_on t core)))
    \<and> reserve_slack_ns t core = (if slacks_on t core = {} then None else Some (Min (slacks_on t core)))
    \<and> (case reserve_idle_depth t core ls of
         Fallback \<Rightarrow> slacks_on t core = {}
       | Computed d \<Rightarrow> slacks_on t core \<noteq> {}
           \<and> (if ls = [] \<or> Min (slacks_on t core) < ls ! 0 then d = 0
              else d < length ls \<and> (\<forall>i \<le> d. ls ! i \<le> Min (slacks_on t core))
                \<and> (Suc d < length ls \<longrightarrow> Min (slacks_on t core) < ls ! Suc d)
                \<and> (sorted ls \<longrightarrow> d = Max {i. i < length ls \<and> ls ! i \<le> Min (slacks_on t core)})))"
proof -
  let ?slack = "Min (slacks_on t core)"
  have e: "reserve_earliest_deadline_ns t core
      = (if periods_on t core = {} then None else Some (Min (periods_on t core)))"
    unfolding reserve_earliest_deadline_ns_def earliest_loop_min [OF assms] periods_on_def
    by (simp add: min_opt_def)
  have s: "reserve_slack_ns t core = (if slacks_on t core = {} then None else Some ?slack)"
    unfolding reserve_slack_ns_def slack_loop_min [OF assms] slacks_on_def
    by (simp add: min_opt_def)
  have shallow: "depth_loop ?slack 0 ls 0 = 0" if "ls = [] \<or> ?slack < ls ! 0"
    using that by (cases ls) auto
  have "deepest_fit ?slack ls (depth_loop ?slack 0 ls 0)" if "\<not> (ls = [] \<or> ?slack < ls ! 0)"
    using that by (intro depth_loop_deepest) auto
  then show ?thesis
    using e s shallow deepest_fit_Max [of ls ?slack] by (auto simp: reserve_idle_depth_def deepest_fit_def)
qed

theorem idle_within_slack_witness:
  "reserve_earliest_deadline_ns demo_table 5 = Some 4000000
    \<and> reserve_idle_depth demo_table 5 [1000, 2000000, 9000000] = Computed 1"
proof -
  let ?ls = "[1000, 2000000, 9000000 :: nat]"
  have p: "periods_on demo_table 5 = {4000000}"
    by (auto simp: periods_on_def demo_grants demo_grant_def)
  have s: "slacks_on demo_table 5 = {2500000}"
    by (auto simp: slacks_on_def demo_grants demo_grant_def Grant_slack_ns_def)
  have "5 < CORES_MAX" by (simp add: CORES_MAX_def)
  note ex = idle_within_slack [OF this, of demo_table ?ls]
  have "reserve_idle_depth demo_table 5 ?ls = Computed 1"
  proof (cases "reserve_idle_depth demo_table 5 ?ls")
    case (Computed d)
    have "\<not> (?ls = [] \<or> Min (slacks_on demo_table 5) < ?ls ! 0)" by (simp add: s)
    with ex [THEN conjunct2, THEN conjunct2, unfolded Computed Depth.case]
    have d: "d < length ?ls" "?ls ! d \<le> Min {2500000}" "Suc d < length ?ls \<longrightarrow> Min {2500000} < ?ls ! Suc d"
      unfolding s if_not_P [OF \<open>\<not> (?ls = [] \<or> Min (slacks_on demo_table 5) < ?ls ! 0)\<close> [unfolded s]] by blast+
    from d(1) consider "d = 0" | "d = 1" | "d = 2" by fastforce
    then show ?thesis using d Computed by cases simp_all
  next
    case Fallback
    then show ?thesis using ex [THEN conjunct2, THEN conjunct2, unfolded Fallback Depth.case] by (simp only: s) simp
  qed
  moreover have "reserve_earliest_deadline_ns demo_table 5 = Some 4000000"
    using ex [THEN conjunct1] by (simp add: p)
  ultimately show ?thesis by blast
qed

subsection \<open>A demand without whole cores displaces nothing\<close>

lemma admit_cong:
  assumes "res_machine t' = res_machine t" "res_taken t' = res_taken t"
    "res_partitions_used t' = res_partitions_used t" "res_memory_used t' = res_memory_used t"
  shows "reserve_admit t' d = reserve_admit t d"
  unfolding reserve_admit_def admit_memory_def admit_cores_def lowest_free_def assms ..

text \<open>Granting a list of demands in turn, whatever becomes of each.\<close>

definition grant_all :: "Demand list \<Rightarrow> Reservations \<Rightarrow> Reservations" where
  "grant_all ds t = fold (\<lambda>d t. snd (reserve_grant d t)) ds t"

definition soft_demand :: "Demand \<Rightarrow> bool" where
  "soft_demand d \<longleftrightarrow> dem_class d = manifest_class_SOFT \<and> dem_domain d \<noteq> domain_HOSTILE"

lemma soft_grant:
  assumes "soft_demand d"
  shows "reserve_admit (snd (reserve_grant d t)) d' = reserve_admit t d'
    \<and> res_count (snd (reserve_grant d t)) \<le> Suc (res_count t)"
proof -
  have soft: "dem_class d \<noteq> manifest_class_HARD" using assms by (simp add: soft_demand_def manifest_consts)
  then have whole: "Demand_whole_cores d = 0" using assms by (simp add: soft_demand_def Demand_whole_cores_def)
  have "grt_cores g = 0 \<and> grt_excluded g = 0 \<and> grt_class g \<noteq> manifest_class_HARD" if "reserve_admit t d = Inr g" for g
    using that soft whole
    by (auto simp: reserve_admit_def admit_cores_def and_then_def split: sum.splits if_splits)
  then have "reserve_admit (snd (reserve_grant d t)) d' = reserve_admit t d'"
    by (intro admit_cong)
      (auto simp: reserve_grant_def count_refusal_def Grant_footprint_def split: sum.splits)
  then show ?thesis by (simp add: reserve_grant_def count_refusal_def split: sum.splits)
qed

lemma soft_grants:
  "list_all soft_demand ds \<Longrightarrow>
   reserve_admit (grant_all ds t) d' = reserve_admit t d' \<and> res_count (grant_all ds t) \<le> res_count t + length ds"
proof (induction ds arbitrary: t)
  case (Cons d ds)
  let ?u = "snd (reserve_grant d t)"
  have "grant_all (d # ds) t = grant_all ds ?u" by (simp add: grant_all_def)
  moreover have "reserve_admit ?u d' = reserve_admit t d' \<and> res_count ?u \<le> Suc (res_count t)"
    using Cons.prems by (intro soft_grant) simp
  moreover have "reserve_admit (grant_all ds ?u) d' = reserve_admit ?u d' \<and> res_count (grant_all ds ?u) \<le> res_count ?u + length ds"
    using Cons by simp
  ultimately show ?case by simp
qed (simp add: grant_all_def)

text \<open>
  C16: Demands of the soft class that are not hostile take no capacity from anyone: after any number
  of them has been asked of any table, every admission is answered as before, and every grant is
  answered as before while the table has rows left. What they do take is rows: a demand that is
  admitted is refused, with \<open>NoCore\<close>, exactly when all \<open>RESERVATIONS_MAX\<close> rows are held. On two
  fresh tables, the question \<open>displaces\<close> asks, none of them displaces any demand.
\<close>

theorem soft_displaces_nothing:
  assumes "list_all (\<lambda>d. dem_class d = manifest_class_SOFT \<and> dem_domain d \<noteq> domain_HOSTILE) ds"
  shows "reserve_admit (grant_all ds t) d' = reserve_admit t d'
    \<and> fst (reserve_grant d' (grant_all ds t)) =
        (if RESERVATIONS_MAX \<le> res_count (grant_all ds t) \<and> is_ok (reserve_admit t d')
         then Inl NoCore else reserve_admit t d')
    \<and> (res_count t + length ds < RESERVATIONS_MAX \<longrightarrow>
         fst (reserve_grant d' (grant_all ds t)) = fst (reserve_grant d' t))
    \<and> (is_ok (reserve_new m) \<longrightarrow> (\<forall>d \<in> set ds. Demand_displaces d m d' = Inr False))"
proof -
  have ds: "list_all soft_demand ds" using assms by (simp add: soft_demand_def [abs_def])
  note all = soft_grants [OF ds, of t d']
  have "fst (reserve_grant d' u) =
      (if RESERVATIONS_MAX \<le> res_count u \<and> is_ok (reserve_admit u d') then Inl NoCore else reserve_admit u d')" for u
    by (simp add: reserve_grant_def is_ok_def split: sum.splits)
  moreover have "Demand_displaces d m d' = Inr False" if d: "d \<in> set ds" and m: "is_ok (reserve_new m)" for d
  proof -
    obtain t0 where t0: "reserve_new m = Inr t0" using m by (auto simp: is_ok_def split: sum.splits)
    have "reserve_admit (snd (reserve_grant d t0)) d' = reserve_admit t0 d'"
      using soft_grant d ds by (auto simp: list_all_iff)
    then show ?thesis using t0 by (auto simp: Demand_displaces_def split: sum.splits prod.splits)
  qed
  ultimately show ?thesis using all by auto
qed

definition soft_demo :: Demand where
  "soft_demo = demo_demand\<lparr>dem_cores := 0, dem_period_ns := 0, dem_budget_ns := 0, dem_class := manifest_class_SOFT\<rparr>"

theorem soft_displaces_nothing_witness:
  "Demand_displaces soft_demo demo_machine demo_demand = Inr False
    \<and> reserve_admit (grant_all [soft_demo, soft_demo] demo_table) demo_demand = reserve_admit demo_table demo_demand"
proof -
  have "list_all (\<lambda>d. dem_class d = manifest_class_SOFT \<and> dem_domain d \<noteq> domain_HOSTILE) [soft_demo, soft_demo]"
    by (simp add: soft_demo_def demo_demand_def manifest_consts)
  from soft_displaces_nothing [OF this, of demo_table demo_demand demo_machine] show ?thesis
    by (simp add: demo_new is_ok_def)
qed

end
