(* ===== verification/Admit.thy ===== *)
theory Admit
  imports Reserve_Theorems
begin

text \<open>
  How the kernel fills in the machine its reservations are granted on, and the demonstration it
  runs at boot (\<open>src/kernel/src/admit.rs\<close>). What the processor answers to \<open>CPUID\<close> and how many
  logical processors were brought up are parameters: the answers are hardware's, and nothing is
  assumed of them.
\<close>

subsection \<open>Reading the processor\<close>

type_synonym cpuid = "u32 \<Rightarrow> u32 \<Rightarrow> u32 \<times> u32 \<times> u32 \<times> u32"

definition TICK_NS :: nat where "TICK_NS = 1000000"
definition FRAME_CORES :: nat where "FRAME_CORES = 1"
definition RESERVABLE_BYTES :: nat where "RESERVABLE_BYTES = 8 * HUGE_BYTES"

definition admit_threads_per_core :: "cpuid \<Rightarrow> u32" where
  "admit_threads_per_core cpuid =
     (case cpuid 0 0 of (highest, _, _, _) \<Rightarrow>
      if highest < 0x0B then 1
      else case cpuid 0x0B 0 of (_, ebx, ecx, _) \<Rightarrow>
        if drop_bit 8 ecx AND 0xFF \<noteq> 1 \<or> ebx = 0 then 1 else ebx)"

definition partitioning :: "cpuid \<Rightarrow> Offers \<times> Offers \<times> u32" where
  "partitioning cpuid =
     (case cpuid 0 0 of (highest, _, _, _) \<Rightarrow>
      if highest < 0x10 then (Exclusion, Exclusion, 0)
      else case cpuid 0x10 0 of (_, ebx, _, _) \<Rightarrow>
        let cache = (if ebx AND push_bit 1 1 \<noteq> 0 then Partition else Exclusion);
            bandwidth = (if ebx AND push_bit 3 1 \<noteq> 0 then Partition else Exclusion);
            classes = (- 1 :: u32);
            classes = (if cache = Partition
              then (case cpuid 0x10 1 of (_, _, _, edx) \<Rightarrow> min classes ((edx AND 0xFFFF) + 1))
              else classes);
            classes = (if bandwidth = Partition
              then (case cpuid 0x10 3 of (_, _, _, edx) \<Rightarrow> min classes ((edx AND 0xFFFF) + 1))
              else classes);
            classes = (if classes = - 1 then 0 else classes)
        in (cache, bandwidth, classes))"

definition admit_machine :: "cpuid \<Rightarrow> u32 \<Rightarrow> Machine" where
  "admit_machine cpuid logical =
     (let threads = admit_threads_per_core cpuid;
          physical = max (logical div max threads 1) 1 in
      case partitioning cpuid of (cache, bandwidth, parts) \<Rightarrow>
        let cores_per_cache = (if cache = Partition then 1 else max physical 1);
            cores_per_bandwidth = (if bandwidth = Partition then 1 else max physical 1) in
        \<lparr>physical_cores = unat physical, threads_per_core = unat threads,
         cores_per_cache = unat cores_per_cache, cores_per_bandwidth = unat cores_per_bandwidth,
         mach_cache = cache, mach_bandwidth = bandwidth, partitions = unat parts,
         frame_cores = FRAME_CORES, reservable_bytes = RESERVABLE_BYTES, tick_ns = TICK_NS\<rparr>)"

definition admit_table :: "cpuid \<Rightarrow> u32 \<Rightarrow> Refusal + Reservations" where
  "admit_table cpuid logical = reserve_new (admit_machine cpuid logical)"

subsection \<open>The demonstration\<close>

definition DESCRIBED :: Machine where
  "DESCRIBED = \<lparr>physical_cores = 16, threads_per_core = 2, cores_per_cache = 8,
     cores_per_bandwidth = 16, mach_cache = Partition, mach_bandwidth = Partition, partitions = 8,
     frame_cores = FRAME_CORES, reservable_bytes = 64 * HUGE_BYTES, tick_ns = TICK_NS\<rparr>"

definition ASKED :: Demand where
  "ASKED = \<lparr>dem_cores = 1, dem_period_ns = 4000000, dem_budget_ns = 1500000,
     dem_memory_bytes = HUGE_BYTES, dem_class = manifest_class_HARD, dem_domain = domain_SHARED\<rparr>"

definition EXIT_LATENCY_NS :: "nat list" where
  "EXIT_LATENCY_NS = [1000, 20000, 400000, 5000000]"

record Report =
  rep_machine :: Machine
  rep_here :: "Refusal option"
  rep_there :: "Grant option"
  rep_over :: "Refusal option"
  rep_admissions :: nat
  rep_refusals :: nat
  rep_depth :: nat
  rep_fallback :: bool

definition trailing_zeros :: "u64 \<Rightarrow> nat" where
  "trailing_zeros x = (case List.find (bit x) [0..<64] of Some n \<Rightarrow> n | None \<Rightarrow> 64)"

definition result_err :: "'e + 'a \<Rightarrow> 'e option" where
  "result_err r = (case r of Inl e \<Rightarrow> Some e | Inr _ \<Rightarrow> None)"

definition demonstrate :: "Machine \<Rightarrow> Refusal + Report" where
  "demonstrate machine =
     (let here = (case reserve_new machine of
            Inl why \<Rightarrow> Some why | Inr table \<Rightarrow> result_err (reserve_admit table ASKED)) in
      and_then (reserve_new DESCRIBED) (\<lambda>described.
      case reserve_grant ASKED described of (first, described1) \<Rightarrow>
      let there = (case first of Inl _ \<Rightarrow> None | Inr grant \<Rightarrow> Some grant);
          big = ASKED\<lparr>dem_cores := physical_cores DESCRIBED - FRAME_CORES\<rparr> in
      case reserve_grant big described1 of (second, described2) \<Rightarrow>
      let (depth, fallback) =
            (case there of
               Some grant \<Rightarrow>
                 ((case reserve_idle_depth described2 (trailing_zeros (grt_cores grant)) EXIT_LATENCY_NS of
                     Computed depth \<Rightarrow> depth | Fallback \<Rightarrow> 2 ^ 32 - 1),
                  reserve_idle_depth described2 (physical_cores DESCRIBED - 1) EXIT_LATENCY_NS = Fallback)
             | None \<Rightarrow> (2 ^ 32 - 1, False)) in
      Inr \<lparr>rep_machine = machine, rep_here = here, rep_there = there, rep_over = result_err second,
           rep_admissions = reserve_admissions described2, rep_refusals = reserve_refusals described2,
           rep_depth = depth, rep_fallback = fallback\<rparr>))"

text \<open>The verdict; a message it fails with is numbered in the order of the source.\<close>

definition Report_verdict :: "Report \<Rightarrow> nat + unit" where
  "Report_verdict r =
     (case rep_there r of
        None \<Rightarrow> Inl 1
      | Some grant \<Rightarrow>
          if \<not> Grant_exercised grant then Inl 2
          else if count_ones (grt_cores grant) \<noteq> dem_cores ASKED then Inl 3
          else case rep_over r of
            None \<Rightarrow> Inl 4
          | Some over \<Rightarrow>
              if over \<noteq> NoCore then Inl 5
              else if rep_admissions r \<noteq> 1 \<or> rep_refusals r \<noteq> 1 then Inl 6
              else if rep_depth r = 2 ^ 32 - 1 then Inl 7
              else if \<not> rep_fallback r then Inl 8
              else if rep_here r = Some NotSchedulable \<and> Machine_offerable (rep_machine r) > 0
              then Inl 9
              else Inr ())"

subsection \<open>The described part, computed\<close>

definition described0 :: Reservations where
  "described0 = \<lparr>res_machine = DESCRIBED, res_held = replicate RESERVATIONS_MAX Grant_NONE,
     res_count = 0, res_taken = 0, res_partitions_used = 0, res_memory_used = 0, res_admitted = 0,
     res_refused = replicate 4 0\<rparr>"

definition asked_grant :: Grant where
  "asked_grant = \<lparr>grt_cores = 2, grt_excluded = 0, grt_period_ns = 4000000, grt_budget_ns = 1500000,
     grt_memory_bytes = HUGE_BYTES, grt_sibling = obtained_EXCLUSION, grt_cache = obtained_PARTITION,
     grt_bandwidth = obtained_PARTITION, grt_memory = obtained_PARTITION,
     grt_class = manifest_class_HARD\<rparr>"

lemma described_new: "reserve_new DESCRIBED = Inr described0"
  by (simp add: reserve_new_def Machine_check_def DESCRIBED_def described0_def CORES_MAX_def
      FRAME_CORES_def TICK_NS_def)

lemma described_lowest: "lowest_free described0 1 1 = Some 2"
  by (simp add: lowest_free_def described0_def DESCRIBED_def FRAME_CORES_def round_up_def
      lowest_free_loop.simps run_mask_def CORES_MAX_def)

lemma split_one: "with_split_loop 2 0 1 0 = 2"
  by (simp add: with_split_loop.simps CORES_MAX_def)

lemma described_admit: "reserve_admit described0 ASKED = Inr asked_grant"
proof -
  have "admit_cores described0 ASKED = Inr asked_grant"
    using described_lowest split_one
    by (simp add: admit_cores_def Let_def Demand_whole_cores_def ASKED_def asked_grant_def
        exclusion_grain_def round_up_def Machine_offerable_def partitions_wanted_def described0_def
        DESCRIBED_def Grant_with_split_def FRAME_CORES_def)
  then show ?thesis
    by (simp add: admit_Inr manifest_class_known_def domain_known_def admit_cpu_def admit_memory_def
        ASKED_def described0_def DESCRIBED_def HUGE_BYTES_def TICK_NS_def)
qed

definition described1 :: Reservations where
  "described1 = snd (reserve_grant ASKED described0)"

lemma described_grant: "reserve_grant ASKED described0 = (Inr asked_grant, described1)"
proof -
  have "fst (reserve_grant ASKED described0) = Inr asked_grant"
    by (simp add: reserve_grant_def described_admit) (simp add: described0_def RESERVATIONS_MAX_def)
  then show ?thesis unfolding described1_def by (metis prod.collapse)
qed

lemma described1_fields:
  "res_machine described1 = DESCRIBED" "res_taken described1 = 2" "res_memory_used described1 = HUGE_BYTES"
  "res_admitted described1 = 1" "res_refused described1 = [0, 0, 0, 0]"
proof -
  have "replicate 4 (0 :: nat) = [0, 0, 0, 0]" by (simp add: numeral_eq_Suc)
  then show "res_machine described1 = DESCRIBED" "res_taken described1 = 2"
    "res_memory_used described1 = HUGE_BYTES" "res_admitted described1 = 1"
    "res_refused described1 = [0, 0, 0, 0]"
    unfolding described1_def reserve_grant_def described_admit
    by (simp_all add: asked_grant_def RESERVATIONS_MAX_def sat_add_def HUGE_BYTES_def described0_def)
qed

lemma described1_grants: "reserve_grants described1 = [asked_grant]"
proof -
  have "res_inv described0"
    by (rule inv_new(1) [OF described_new]) (simp_all add: DESCRIBED_def HUGE_BYTES_def)
  from grant_grants(1) [OF this described_grant] show ?thesis
    by (simp add: reserve_grants_def described0_def)
qed

definition described2 :: Reservations where
  "described2 = count_refusal NoCore described1"

lemma described_big:
  "reserve_grant (ASKED\<lparr>dem_cores := physical_cores DESCRIBED - FRAME_CORES\<rparr>) described1
     = (Inl NoCore, described2)"
proof -
  let ?big = "ASKED\<lparr>dem_cores := physical_cores DESCRIBED - FRAME_CORES\<rparr>"
  have "lowest_free described1 15 1 = None"
    by (simp add: lowest_free_def described1_fields DESCRIBED_def FRAME_CORES_def round_up_def
        lowest_free_loop.simps run_mask_def CORES_MAX_def)
  then have "admit_cores described1 ?big = Inl NoCore"
    by (simp add: admit_cores_def Let_def Demand_whole_cores_def ASKED_def exclusion_grain_def
        round_up_def Machine_offerable_def described1_fields DESCRIBED_def FRAME_CORES_def)
  then have "reserve_admit described1 ?big = Inl NoCore"
    by (simp add: reserve_admit_def manifest_class_known_def domain_known_def admit_cpu_def
        admit_memory_def ASKED_def described1_fields DESCRIBED_def HUGE_BYTES_def TICK_NS_def FRAME_CORES_def)
  then show ?thesis by (simp add: reserve_grant_def described2_def)
qed

lemma described2_fields:
  "reserve_grants described2 = [asked_grant]" "reserve_admissions described2 = 1"
  "reserve_refusals described2 = 1"
proof -
  have "reserve_grants described2 = reserve_grants described1"
    by (simp add: described2_def count_refusal_def reserve_grants_def)
  then show "reserve_grants described2 = [asked_grant]" using described1_grants by simp
  show "reserve_admissions described2 = 1" "reserve_refusals described2 = 1"
    by (simp_all add: described2_def count_refusal_def reserve_admissions_def reserve_refusals_def
        described1_fields sat_add_def)
qed

lemma described_depth:
  "trailing_zeros (grt_cores asked_grant) = 1"
  "reserve_idle_depth described2 1 EXIT_LATENCY_NS = Computed 2"
  "reserve_idle_depth described2 15 EXIT_LATENCY_NS = Fallback"
proof -
  show "trailing_zeros (grt_cores asked_grant) = 1"
    unfolding trailing_zeros_def asked_grant_def by (simp add: upt_conv_Cons)
  have "slack_loop 1 [asked_grant] None = Some 2500000" "slack_loop 15 [asked_grant] None = None"
    by (simp_all add: asked_grant_def Grant_slack_ns_def CORES_MAX_def)
  then show "reserve_idle_depth described2 1 EXIT_LATENCY_NS = Computed 2"
    "reserve_idle_depth described2 15 EXIT_LATENCY_NS = Fallback"
    by (simp_all add: reserve_idle_depth_def reserve_slack_ns_def described2_fields EXIT_LATENCY_NS_def)
qed

subsection \<open>The machine and the verdict\<close>

lemma classes_small:
  "(edx AND 0xFFFF) + 1 \<noteq> 0" "\<not> - 1 \<le> (edx AND 0xFFFF) + 1" "(edx AND 0xFFFF) + 1 \<noteq> - 1"
  for edx :: u32
proof -
  have "edx AND 0xFFFF = take_bit 16 edx" by (simp add: take_bit_eq_mask mask_eq_exp_minus_1)
  then have "unat (edx AND 0xFFFF) = take_bit 16 (unat edx)" by (simp add: unsigned_take_bit_eq)
  then have lt: "unat (edx AND 0xFFFF) < 65536"
    using take_bit_nat_less_exp [of 16 "unat edx"] by simp
  then have u: "unat ((edx AND 0xFFFF) + 1) = unat (edx AND 0xFFFF) + 1"
    by (simp add: unat_word_ariths)
  show "(edx AND 0xFFFF) + 1 \<noteq> 0" using u by (metis unsigned_0 add_is_0 one_neq_zero)
  show "\<not> - 1 \<le> (edx AND 0xFFFF) + 1"
    using lt u by (simp add: word_le_nat_alt unsigned_minus_1_eq_mask mask_eq_exp_minus_1)
  then show "(edx AND 0xFFFF) + 1 \<noteq> - 1" by (metis order_refl)
qed

lemma partitioning_offers:
  assumes "partitioning cpuid = (cache, bandwidth, parts)" and "cache = Partition \<or> bandwidth = Partition"
  shows "unat parts \<noteq> 0"
proof -
  have "parts \<noteq> 0"
    using assms classes_small
    by (auto simp: partitioning_def Let_def min_def split: prod.splits if_splits)
  then show ?thesis by (simp add: unat_eq_0)
qed

lemma threads_nonzero: "unat (admit_threads_per_core cpuid) \<noteq> 0"
proof -
  have "admit_threads_per_core cpuid \<noteq> 0"
    by (auto simp: admit_threads_per_core_def split: prod.splits if_splits)
  then show ?thesis by (simp add: unat_eq_0)
qed

lemma machine_check_iff:
  "Machine_check (admit_machine cpuid logical) = Inr () \<longleftrightarrow>
     2 \<le> physical_cores (admit_machine cpuid logical)
     \<and> physical_cores (admit_machine cpuid logical) \<le> CORES_MAX"
proof -
  obtain cache bandwidth parts where p: "partitioning cpuid = (cache, bandwidth, parts)"
    by (metis prod_cases3)
  define phys where "phys = max (logical div max (admit_threads_per_core cpuid) 1) 1"
  have one: "unat (max (x :: u32) 1) \<noteq> 0" for x
  proof -
    have "unat (1 :: u32) \<le> unat (max x 1)" unfolding word_le_nat_alt [symmetric] by simp
    then show ?thesis by simp
  qed
  have m: "admit_machine cpuid logical = \<lparr>physical_cores = unat phys,
      threads_per_core = unat (admit_threads_per_core cpuid),
      cores_per_cache = unat (if cache = Partition then 1 else max phys 1),
      cores_per_bandwidth = unat (if bandwidth = Partition then 1 else max phys 1),
      mach_cache = cache, mach_bandwidth = bandwidth, partitions = unat parts,
      frame_cores = FRAME_CORES, reservable_bytes = RESERVABLE_BYTES, tick_ns = TICK_NS\<rparr>"
    by (simp add: admit_machine_def Let_def p phys_def)
  have groups: "unat (if c = Partition then 1 else max phys 1) \<noteq> 0" for c using one by simp
  have "Machine_check (admit_machine cpuid logical) = Inr () \<longleftrightarrow>
      \<not> (unat phys = 0 \<or> unat phys > CORES_MAX) \<and> \<not> FRAME_CORES \<ge> unat phys"
    unfolding m Machine_check_def using threads_nonzero [of cpuid] groups [of cache] groups [of bandwidth] partitioning_offers [OF p]
    by (auto simp: FRAME_CORES_def TICK_NS_def Let_def)
  then show ?thesis by (auto simp: m FRAME_CORES_def)
qed

lemma admit_memory_why: "admit_memory t d = Inl w \<Longrightarrow> w = Memory"
  by (auto simp: admit_memory_def split: if_splits)

lemma admit_cores_why: "admit_cores t d = Inl w \<Longrightarrow> w = NoCore \<or> w = NoBandwidth"
  by (auto simp: admit_cores_def Let_def split: if_splits option.splits)

text \<open>
  Whatever the processor answers, the machine the kernel describes is one admission control
  accepts exactly when it has a core besides the frame's and no more than the table can name, and
  on every machine small enough to name the boot demonstration passes its own verdict.
\<close>

theorem demonstration_passes:
  assumes "physical_cores (admit_machine cpuid logical) \<le> CORES_MAX"
  shows "(is_ok (admit_table cpuid logical) \<longleftrightarrow> 2 \<le> physical_cores (admit_machine cpuid logical))
    \<and> (\<exists>r. demonstrate (admit_machine cpuid logical) = Inr r \<and> Report_verdict r = Inr ())"
proof
  let ?m = "admit_machine cpuid logical"
  have chk: "Machine_check ?m = Inr () \<longleftrightarrow> 2 \<le> physical_cores ?m"
    using machine_check_iff [of cpuid logical] assms by simp
  then show "is_ok (admit_table cpuid logical) \<longleftrightarrow> 2 \<le> physical_cores ?m"
    by (cases "Machine_check ?m") (auto simp: admit_table_def reserve_new_def)
  have frame: "frame_cores ?m = 1" and tick: "tick_ns ?m = TICK_NS"
    by (simp_all add: admit_machine_def Let_def FRAME_CORES_def split: prod.splits)
  define here where "here = (case reserve_new ?m of
      Inl why \<Rightarrow> Some why | Inr table \<Rightarrow> result_err (reserve_admit table ASKED))"
  have "\<not> (here = Some NotSchedulable \<and> Machine_offerable ?m > 0)"
  proof (cases "reserve_new ?m")
    case (Inl why)
    then have "Machine_check ?m \<noteq> Inr ()" by (auto simp: reserve_new_def)
    then have "Machine_offerable ?m = 0" using chk frame by (simp add: Machine_offerable_def)
    then show ?thesis by simp
  next
    case (Inr t)
    then have t: "res_machine t = ?m" by (auto simp: reserve_new_def and_then_Inr_iff)
    have "admit_cpu ?m ASKED = Inr ()" using tick by (simp add: admit_cpu_def ASKED_def TICK_NS_def)
    then have "reserve_admit t ASKED = and_then (admit_memory t ASKED) (\<lambda>_. admit_cores t ASKED)"
      by (simp add: reserve_admit_def t ASKED_def manifest_class_known_def domain_known_def)
    then have "reserve_admit t ASKED \<noteq> Inl NotSchedulable"
      using admit_memory_why [of t ASKED NotSchedulable] admit_cores_why [of t ASKED NotSchedulable]
      by (auto simp: and_then_Inl_iff)
    then show ?thesis using Inr by (auto simp: here_def result_err_def split: sum.splits)
  qed
  moreover have "demonstrate ?m = Inr \<lparr>rep_machine = ?m, rep_here = here, rep_there = Some asked_grant,
      rep_over = Some NoCore, rep_admissions = 1, rep_refusals = 1, rep_depth = 2, rep_fallback = True\<rparr>"
    unfolding demonstrate_def described_new here_def [symmetric] Let_def and_then_simps described_grant
      prod.case sum.case option.case described_big described_depth described2_fields
    using described_depth by (simp add: result_err_def DESCRIBED_def)
  moreover have "Grant_exercised asked_grant" by (simp add: Grant_exercised_def asked_grant_def obtained_consts)
  moreover have "count_ones (grt_cores asked_grant) = dem_cores ASKED"
    by (simp add: count_ones_def upt_conv_Cons asked_grant_def ASKED_def)
  ultimately show "\<exists>r. demonstrate ?m = Inr r \<and> Report_verdict r = Inr ()"
    by (simp add: Report_verdict_def)
qed

definition demo_cpuid :: cpuid where
  "demo_cpuid leaf sub = (0x0D, 2, 0x100, 0)"

theorem demonstration_passes_witness:
  "is_ok (admit_table demo_cpuid 8)
   \<and> (\<exists>r. demonstrate (admit_machine demo_cpuid 8) = Inr r \<and> Report_verdict r = Inr ())"
proof -
  have "physical_cores (admit_machine demo_cpuid 8) = 4"
    by (simp add: admit_machine_def Let_def partitioning_def admit_threads_per_core_def demo_cpuid_def
        max_def word_le_nat_alt)
  then show ?thesis using demonstration_passes [of demo_cpuid 8] by (simp add: CORES_MAX_def)
qed

end
