(* ===== verification/Ring.thy ===== *)
theory Ring
  imports Control
begin

text \<open>
  The channel's rings (\<open>src/ring/src/lib.rs\<close>): the submission ring with its index, the
  completion ring, the payload arena, the frame's service and its two opcodes.

  The memory of a ring is shared by two processes, so it is a value of its own (\<open>Channel\<close>,
  \<open>Completions\<close>) which every operation of an end takes and returns. An end holds besides that
  only its \<open>mask\<close>, computed once by \<open>new\<close>; it is the first argument of the end's operations.
  An operation is one step on the memory. What the orderings of the loads and stores buy between
  the steps of one operation is the subject of the theory on wakeups.
\<close>

subsection \<open>Entries\<close>

record Sqe =
  sqe_opcode :: u8
  sqe_flags :: u8
  sqe_class :: u16
  sqe_cap :: u32
  sqe_user_data :: u64
  sqe_deadline :: u64
  sqe_offset :: u64
  sqe_buf_set :: u32
  sqe_buf_index :: u32
  sqe_len :: u32
  sqe_reserved :: u32
  sqe_ext :: "u64 list"

definition Sqe_ZERO :: Sqe where
  "Sqe_ZERO = \<lparr>sqe_opcode = 0, sqe_flags = 0, sqe_class = 2, sqe_cap = 0, sqe_user_data = 0,
     sqe_deadline = 0, sqe_offset = 0, sqe_buf_set = 0, sqe_buf_index = 0, sqe_len = 0,
     sqe_reserved = 0, sqe_ext = [0, 0]\<rparr>"

definition Cqe_ZERO :: Cqe where
  "Cqe_ZERO = \<lparr>cqe_user_data = 0, cqe_result = 0, cqe_flags = 0, cqe_timestamp = 0, cqe_ext = 0\<rparr>"

definition Cqe_is_error :: "Cqe \<Rightarrow> bool" where
  "Cqe_is_error c \<longleftrightarrow> cqe_result c < 0"

definition Cqe_error :: "Cqe \<Rightarrow> (u8 \<times> u16) option" where
  "Cqe_error c = error_unpack (cqe_result c)"

definition Cqe_was_cancelled :: "Cqe \<Rightarrow> bool" where
  "Cqe_was_cancelled c \<longleftrightarrow> cqe_flags c AND cflags_CANCELLED \<noteq> 0"

definition op_NOP :: u8 where "op_NOP = 0"
definition op_WRITE_SERIAL :: u8 where "op_WRITE_SERIAL = 1"

definition frame_op_known :: "u8 \<Rightarrow> bool" where
  "frame_op_known opcode \<longleftrightarrow> opcode = op_NOP \<or> opcode = op_WRITE_SERIAL"

definition flags_LINK :: u8 where "flags_LINK = push_bit 0 1"
definition flags_DRAIN :: u8 where "flags_DRAIN = push_bit 1 1"
definition flags_FIXED_BUF :: u8 where "flags_FIXED_BUF = push_bit 2 1"
definition flags_NO_CQE :: u8 where "flags_NO_CQE = push_bit 3 1"

definition flags_KNOWN :: u8 where
  "flags_KNOWN = flags_LINK OR flags_DRAIN OR flags_FIXED_BUF OR flags_NO_CQE"

definition chan_NEED_WAKEUP :: u32 where "chan_NEED_WAKEUP = push_bit 0 1"

subsection \<open>The submission ring\<close>

datatype RingError = Full | Corrupt | EpochChanged

record Channel =
  chan_head :: u32
  chan_tail :: u32
  chan_flags :: u32
  chan_index :: "u32 list"
  chan_entries :: "Sqe list"

text \<open>
  \<open>u32::try_from(len)\<close> and \<open>is_power_of_two\<close> on the number of entries: the mask of a table, or
  nothing. Shared by both rings.
\<close>

definition is_power_of_two :: "u32 \<Rightarrow> bool" where
  "is_power_of_two w \<longleftrightarrow> list_ex (\<lambda>k. w = 2 ^ k) [0..<32]"

definition table_mask :: "nat \<Rightarrow> u32 option" where
  "table_mask n =
     (if n < 2 ^ 32
      then let len = (of_nat n :: u32) in
        if len = 0 \<or> \<not> is_power_of_two len then None else Some (len - 1)
      else None)"

definition Channel_mask :: "Channel \<Rightarrow> u32 option" where
  "Channel_mask c =
     (case table_mask (length (chan_entries c)) of
        None \<Rightarrow> None
      | Some m \<Rightarrow> if length (chan_index c) \<noteq> length (chan_entries c) then None else Some m)"

definition Producer_new :: "Channel \<Rightarrow> u32 option" where
  "Producer_new c = Channel_mask c"

definition Producer_occupancy :: "u32 \<Rightarrow> Channel \<Rightarrow> RingError + u32" where
  "Producer_occupancy m c =
     (let used = chan_head c - chan_tail c in if used > m + 1 then Inl Corrupt else Inr used)"

definition Producer_stage :: "u32 \<Rightarrow> u32 \<Rightarrow> Sqe \<Rightarrow> Channel \<Rightarrow> Channel" where
  "Producer_stage m at entry c =
     (let slot = unat (at AND m) in
      c\<lparr>chan_entries := (chan_entries c)[slot := entry],
        chan_index := (chan_index c)[slot := of_nat slot]\<rparr>)"

definition doorbell_wanted :: "Channel \<Rightarrow> bool" where
  "doorbell_wanted c \<longleftrightarrow> chan_flags c AND chan_NEED_WAKEUP \<noteq> 0"

definition Producer_submit :: "u32 \<Rightarrow> Sqe \<Rightarrow> Channel \<Rightarrow> (RingError + bool) \<times> Channel" where
  "Producer_submit m entry c =
     (let head = chan_head c; used = head - chan_tail c in
      if used > m + 1 then (Inl Corrupt, c)
      else if used = m + 1 then (Inl Full, c)
      else let c = Producer_stage m head entry c; c = c\<lparr>chan_head := head + 1\<rparr> in
        (Inr (doorbell_wanted c), c))"

text \<open>
  A batch stages entries past the published head and publishes them with one store. \<open>staged\<close> is
  a \<open>u32\<close> that \<open>push\<close> increments only below the capacity.
\<close>

record Batch =
  bat_base :: u32
  bat_staged :: u32

definition Producer_batch :: "Channel \<Rightarrow> Batch" where
  "Producer_batch c = \<lparr>bat_base = chan_head c, bat_staged = 0\<rparr>"

definition Batch_push :: "u32 \<Rightarrow> Sqe \<Rightarrow> Batch \<times> Channel \<Rightarrow> (RingError + unit) \<times> Batch \<times> Channel" where
  "Batch_push m entry = (\<lambda>(b, c).
     (let capacity = m + 1; at = bat_base b + bat_staged b; used = at - chan_tail c in
      if used > capacity then (Inl Corrupt, b, c)
      else if used = capacity then (Inl Full, b, c)
      else (Inr (), b\<lparr>bat_staged := bat_staged b + 1\<rparr>, Producer_stage m at entry c)))"

definition Batch_publish :: "Batch \<Rightarrow> Channel \<Rightarrow> (RingError + bool) \<times> Channel" where
  "Batch_publish b c =
     (if bat_staged b = 0 then (Inr False, c)
      else let c = c\<lparr>chan_head := bat_base b + bat_staged b\<rparr> in (Inr (doorbell_wanted c), c))"

definition Consumer_new :: "Channel \<Rightarrow> u32 option" where
  "Consumer_new c = Channel_mask c"

definition Consumer_pop :: "u32 \<Rightarrow> Channel \<Rightarrow> (RingError + Sqe option) \<times> Channel" where
  "Consumer_pop m c =
     (let tail = chan_tail c; used = chan_head c - tail in
      if used > m + 1 then (Inl Corrupt, c)
      else if used = 0 then (Inr None, c)
      else let position = unat (tail AND m); slot = unat (chan_index c ! position) in
        if slot \<ge> length (chan_entries c) then (Inl Corrupt, c)
        else (Inr (Some (chan_entries c ! slot)), c\<lparr>chan_tail := tail + 1\<rparr>))"

definition Consumer_arm_wakeup :: "Channel \<Rightarrow> Channel" where
  "Consumer_arm_wakeup c = c\<lparr>chan_flags := chan_flags c OR chan_NEED_WAKEUP\<rparr>"

definition Consumer_disarm_wakeup :: "Channel \<Rightarrow> Channel" where
  "Consumer_disarm_wakeup c = c\<lparr>chan_flags := chan_flags c AND NOT chan_NEED_WAKEUP\<rparr>"

subsection \<open>The completion ring\<close>

definition completion :: "u64 \<Rightarrow> i32 \<Rightarrow> u64 \<Rightarrow> Cqe" where
  "completion user_data result timestamp =
     \<lparr>cqe_user_data = user_data, cqe_result = result, cqe_flags = 0, cqe_timestamp = timestamp,
      cqe_ext = 0\<rparr>"

definition refusal :: "u64 \<Rightarrow> i32 \<Rightarrow> u64 \<Rightarrow> u64 \<Rightarrow> Cqe" where
  "refusal user_data packed detail timestamp =
     \<lparr>cqe_user_data = user_data, cqe_result = packed, cqe_flags = 0, cqe_timestamp = timestamp,
      cqe_ext = detail\<rparr>"

record Completions =
  cq_head :: u32
  cq_tail :: u32
  cq_slots :: "Cqe list"

definition Completions_mask :: "Completions \<Rightarrow> u32 option" where
  "Completions_mask q = table_mask (length (cq_slots q))"

definition Poster_new :: "Completions \<Rightarrow> u32 option" where
  "Poster_new q = Completions_mask q"

definition Poster_free :: "u32 \<Rightarrow> Completions \<Rightarrow> RingError + u32" where
  "Poster_free m q =
     (let used = cq_head q - cq_tail q in
      if used > m + 1 then Inl Corrupt else Inr (m + 1 - used))"

definition Poster_post :: "u32 \<Rightarrow> Cqe \<Rightarrow> Completions \<Rightarrow> (RingError + unit) \<times> Completions" where
  "Poster_post m cqe q =
     (case Poster_free m q of
        Inl e \<Rightarrow> (Inl e, q)
      | Inr free \<Rightarrow>
          if free = 0 then (Inl Full, q)
          else let head = cq_head q; slot = unat (head AND m) in
            (Inr (), q\<lparr>cq_slots := (cq_slots q)[slot := cqe], cq_head := head + 1\<rparr>))"

definition Collector_new :: "Completions \<Rightarrow> u32 option" where
  "Collector_new q = Completions_mask q"

definition Collector_take :: "u32 \<Rightarrow> Completions \<Rightarrow> (RingError + Cqe option) \<times> Completions" where
  "Collector_take m q =
     (let tail = cq_tail q; used = cq_head q - tail in
      if used > m + 1 then (Inl Corrupt, q)
      else if used = 0 then (Inr None, q)
      else (Inr (Some (cq_slots q ! unat (tail AND m))), q\<lparr>cq_tail := tail + 1\<rparr>))"

subsection \<open>The arena\<close>

text \<open>
  The arena is the bytes of the mapping that follow the rings; \<open>usize\<close> is 64 bits wide, and
  \<open>checked_add\<close> answers nothing past it. \<open>copy_out\<close> answers the bytes, or nothing where the
  source answers \<open>false\<close> having written none.
\<close>

definition Arena_len :: "u8 list \<Rightarrow> nat" where
  "Arena_len arena = length arena"

definition Arena_is_empty :: "u8 list \<Rightarrow> bool" where
  "Arena_is_empty arena \<longleftrightarrow> arena = []"

definition usize_checked_add :: "nat \<Rightarrow> nat \<Rightarrow> nat option" where
  "usize_checked_add a b = (if a + b < 2 ^ 64 then Some (a + b) else None)"

definition Arena_copy_out :: "u8 list \<Rightarrow> nat \<Rightarrow> nat \<Rightarrow> u8 list option" where
  "Arena_copy_out arena offset n =
     (case usize_checked_add offset n of
        None \<Rightarrow> None
      | Some end' \<Rightarrow>
          if end' > length arena then None else Some (map (\<lambda>i. arena ! (offset + i)) [0..<n]))"

fun write_bytes :: "u8 list \<Rightarrow> nat \<Rightarrow> u8 list \<Rightarrow> u8 list" where
  "write_bytes arena at [] = arena"
| "write_bytes arena at (b # bs) = write_bytes (arena[at := b]) (Suc at) bs"

definition Arena_copy_in :: "u8 list \<Rightarrow> nat \<Rightarrow> u8 list \<Rightarrow> bool \<times> u8 list" where
  "Arena_copy_in arena offset from' =
     (case usize_checked_add offset (length from') of
        None \<Rightarrow> (False, arena)
      | Some end' \<Rightarrow>
          if end' > length arena then (False, arena) else (True, write_bytes arena offset from'))"

subsection \<open>The service\<close>

text \<open>
  A \<open>Sink\<close> is its state and its \<open>write\<close>, which answers how many of the bytes it took. The
  service is polymorphic in it, as the source is; the frame's own sink is the serial port, polled
  until it has taken everything, whose state is here the bytes it has sent.
\<close>

type_synonym 'k sink_write = "'k \<Rightarrow> u8 list \<Rightarrow> nat \<times> 'k"

definition SerialSink_write :: "u8 list sink_write" where
  "SerialSink_write sent bytes = (length bytes, sent @ bytes)"

definition CHUNK :: nat where "CHUNK = 256"

definition as_i32 :: "nat \<Rightarrow> i32" where
  "as_i32 n = (int n + 2 ^ 31) mod 2 ^ 32 - 2 ^ 31"

function write_loop ::
  "'k sink_write \<Rightarrow> u8 list \<Rightarrow> nat \<Rightarrow> nat \<Rightarrow> nat \<Rightarrow> 'k \<Rightarrow> nat option \<times> 'k" where
  "write_loop write arena offset len written sink =
     (if written < len
      then let take = min CHUNK (len - written) in
        (case Arena_copy_out arena (offset + written) take of
           None \<Rightarrow> (None, sink)
         | Some chunk \<Rightarrow>
             (let (accepted, sink) = write sink chunk in
              if accepted < take then (Some (written + accepted), sink)
              else write_loop write arena offset len (written + accepted) sink))
      else (Some written, sink))"
  by pat_completeness auto
termination
  by (relation "measure (\<lambda>(_, _, _, len, written, _). len - written)") (auto simp: CHUNK_def)

declare write_loop.simps [simp del]

definition write_serial ::
  "'k sink_write \<Rightarrow> Sqe \<Rightarrow> u8 list \<Rightarrow> 'k \<Rightarrow> ((u16 \<times> u64) + i32) \<times> 'k" where
  "write_serial write entry arena sink =
     (if unat (sqe_len entry) > 2 ^ 31 - 1
      then (Inl (argument_BAD_ADDRESS, ucast (sqe_len entry)), sink)
      else
        let offset = unat (sqe_offset entry); len = unat (sqe_len entry);
            within = (case usize_checked_add offset len of
                        None \<Rightarrow> False | Some end' \<Rightarrow> end' \<le> Arena_len arena)
        in
        if \<not> within then (Inl (argument_BAD_ADDRESS, sqe_offset entry), sink)
        else
          (case write_loop write arena offset len 0 sink of
             (None, sink) \<Rightarrow> (Inl (argument_BAD_ADDRESS, sqe_offset entry), sink)
           | (Some written, sink) \<Rightarrow> (Inr (as_i32 written), sink)))"

definition execute ::
  "'k sink_write \<Rightarrow> Sqe \<Rightarrow> u8 list \<Rightarrow> 'k \<Rightarrow> u64 \<Rightarrow> Cqe option \<times> 'k" where
  "execute write entry arena sink now =
     (let refuse = (\<lambda>domain code detail.
            Some (refusal (sqe_user_data entry) (error_pack domain code) detail now));
          unknown = sqe_flags entry AND NOT flags_KNOWN;
          finish = (\<lambda>result.
            if sqe_flags entry AND flags_NO_CQE \<noteq> 0 then None
            else Some (completion (sqe_user_data entry) result now))
      in
      if sqe_reserved entry \<noteq> 0
      then (refuse error_ARGUMENT argument_RESERVED_NOT_ZERO (ucast (sqe_reserved entry)), sink)
      else if unknown \<noteq> 0
      then (refuse error_ARGUMENT argument_UNKNOWN_FLAG (ucast unknown), sink)
      else if \<not> frame_op_known (sqe_opcode entry)
      then (refuse error_ARGUMENT argument_UNKNOWN_OPCODE (ucast (sqe_opcode entry)), sink)
      else if sqe_opcode entry = op_NOP then (finish 0, sink)
      else if sqe_opcode entry = op_WRITE_SERIAL
      then (case write_serial write entry arena sink of
              (Inl (code, detail), sink) \<Rightarrow> (refuse error_ARGUMENT code detail, sink)
            | (Inr written, sink) \<Rightarrow> (finish written, sink))
      else (refuse error_ARGUMENT argument_UNKNOWN_OPCODE (ucast (sqe_opcode entry)), sink))"

record Drained =
  drn_executed :: u32
  drn_completed :: u32
  drn_refused :: u32

definition Drained_default :: Drained where
  "Drained_default = \<lparr>drn_executed = 0, drn_completed = 0, drn_refused = 0\<rparr>"

text \<open>
  A service holds the consumer of one ring and the poster of the other, each as the ring's
  memory and the mask of its end.
\<close>

record 'k Service =
  svc_submissions :: Channel
  svc_sub_mask :: u32
  svc_completions :: Completions
  svc_cq_mask :: u32
  svc_arena :: "u8 list"
  svc_sink :: 'k

fun drain_loop ::
  "'k sink_write \<Rightarrow> nat \<Rightarrow> u64 \<Rightarrow> Drained \<Rightarrow> 'k Service \<Rightarrow> (RingError + Drained) \<times> 'k Service" where
  "drain_loop write 0 now done s = (Inr done, s)"
| "drain_loop write (Suc n) now done s =
     (case Poster_free (svc_cq_mask s) (svc_completions s) of
        Inl e \<Rightarrow> (Inl e, s)
      | Inr free \<Rightarrow>
          if free = 0 then (Inr done, s)
          else
            (case Consumer_pop (svc_sub_mask s) (svc_submissions s) of
               (Inl e, c) \<Rightarrow> (Inl e, s\<lparr>svc_submissions := c\<rparr>)
             | (Inr None, c) \<Rightarrow> (Inr done, s\<lparr>svc_submissions := c\<rparr>)
             | (Inr (Some entry), c) \<Rightarrow>
                 (let s = s\<lparr>svc_submissions := c\<rparr>;
                      done = done\<lparr>drn_executed := drn_executed done + 1\<rparr>
                  in
                  (case execute write entry (svc_arena s) (svc_sink s) now of
                     (None, sink) \<Rightarrow> drain_loop write n now done (s\<lparr>svc_sink := sink\<rparr>)
                   | (Some cqe, sink) \<Rightarrow>
                       (let s = s\<lparr>svc_sink := sink\<rparr>;
                            done = (if Cqe_is_error cqe
                                    then done\<lparr>drn_refused := drn_refused done + 1\<rparr> else done)
                        in
                        (case Poster_post (svc_cq_mask s) cqe (svc_completions s) of
                           (Inl e, q) \<Rightarrow> (Inl e, s\<lparr>svc_completions := q\<rparr>)
                         | (Inr _, q) \<Rightarrow>
                             drain_loop write n now
                               (done\<lparr>drn_completed := drn_completed done + 1\<rparr>)
                               (s\<lparr>svc_completions := q\<rparr>)))))))"

definition Service_drain ::
  "'k sink_write \<Rightarrow> u32 \<Rightarrow> u64 \<Rightarrow> 'k Service \<Rightarrow> (RingError + Drained) \<times> 'k Service" where
  "Service_drain write budget now s = drain_loop write (unat budget) now Drained_default s"

subsection \<open>The doorbell\<close>

text \<open>\<open>src/ring/src/doorbell.rs\<close>, and the part of a negotiation it reads.\<close>

record Negotiated =
  neg_version :: u32
  neg_features :: u64

definition feature_USER_INTERRUPT_DOORBELL :: u64 where
  "feature_USER_INTERRUPT_DOORBELL = push_bit 1 1"

datatype Path = Polling | KernelIpi | UserInterrupt

record Hardware =
  hw_user_interrupts :: bool
  hw_cross_core_interrupts :: bool

definition Path_select :: "Negotiated \<Rightarrow> Hardware \<Rightarrow> Path" where
  "Path_select agreed hardware =
     (if neg_features agreed AND feature_USER_INTERRUPT_DOORBELL \<noteq> 0 \<and> hw_user_interrupts hardware
      then UserInterrupt
      else if hw_cross_core_interrupts hardware then KernelIpi
      else Polling)"

record 'r Bell =
  bell_path :: Path
  bell_ringer :: 'r
  bell_rings :: u64
  bell_operations :: u64

definition Bell_new :: "Path \<Rightarrow> Hardware \<Rightarrow> 'r \<Rightarrow> Path + 'r Bell" where
  "Bell_new path hardware ringer =
     (if path = UserInterrupt \<and> \<not> hw_user_interrupts hardware then Inl UserInterrupt
      else Inr \<lparr>bell_path = path, bell_ringer = ringer, bell_rings = 0, bell_operations = 0\<rparr>)"

definition Bell_submitted :: "('r \<Rightarrow> 'r) \<Rightarrow> bool \<Rightarrow> 'r Bell \<Rightarrow> 'r Bell" where
  "Bell_submitted ring wanted b =
     (let b = b\<lparr>bell_operations := bell_operations b + 1\<rparr> in
      if wanted then b\<lparr>bell_rings := bell_rings b + 1, bell_ringer := ring (bell_ringer b)\<rparr>
      else b)"

definition Bell_per_thousand :: "'r Bell \<Rightarrow> u64" where
  "Bell_per_thousand b =
     (let scaled = (if unat (bell_rings b) * 1000 < 2 ^ 64 then bell_rings b * 1000 else - 1) in
      if bell_operations b = 0 then 0 else scaled div bell_operations b)"

end
