(* ===== verification/Ring_Fifo.thy ===== *)
theory Ring_Fifo
  imports Ring
begin

text \<open>
  Both rings implement a bounded first-in first-out queue. The interface is the locale
  \<open>bounded_fifo\<close>, whose lemmas about whole histories are proved once; it is interpreted on the
  submission ring (\<open>Producer\<close>, \<open>Consumer\<close>) and on the completion ring (\<open>Poster\<close>,
  \<open>Collector\<close>). The cursors are 32-bit and wrap: the entries between them are \<open>live\<close>.
\<close>

subsection \<open>Masks and cursors\<close>

lemma unat_exp: "k < 32 \<Longrightarrow> unat (2 ^ k :: u32) = 2 ^ k"
proof -
  assume k: "k < 32"
  then have "(2::nat) ^ k < 2 ^ 32" by (intro power_strict_increasing) simp_all
  then have "unat (of_nat (2 ^ k) :: u32) = 2 ^ k"
    using k by (simp only: unsigned_of_nat) (simp add: take_bit_nat_eq_self)
  then show ?thesis by simp
qed

lemma is_power_of_two_iff: "is_power_of_two w \<longleftrightarrow> (\<exists>k<32. w = 2 ^ k)"
  by (auto simp: is_power_of_two_def list_ex_iff)

lemma table_mask_SomeE:
  assumes "table_mask n = Some m"
  obtains k where "k < 32" "n = 2 ^ k" "m = Bit_Operations.mask k"
proof -
  from assms have n: "n < 2 ^ 32" and p: "is_power_of_two (of_nat n)" and m: "m = of_nat n - 1"
    by (auto simp: table_mask_def Let_def split: if_splits)
  from p obtain k where k: "k < 32" "(of_nat n :: u32) = 2 ^ k"
    by (auto simp: is_power_of_two_iff)
  have "n = unat (of_nat n :: u32)" using n by (simp add: unsigned_of_nat take_bit_nat_eq_self)
  also have "\<dots> = 2 ^ k" using k by (simp add: unat_exp)
  finally show ?thesis using k m by (intro that [of k]) (simp_all add: mask_eq_exp_minus_1)
qed

lemma table_mask_power: "k < 32 \<Longrightarrow> table_mask (2 ^ k) = Some (Bit_Operations.mask k)"
proof -
  assume k: "k < 32"
  then have "(2::nat) ^ k < 2 ^ 32" by (intro power_strict_increasing) simp_all
  moreover have "(2 ^ k :: u32) \<noteq> 0" using k by (simp add: exp_eq_zero_iff not_le)
  ultimately show ?thesis
    using k by (auto simp: table_mask_def Let_def is_power_of_two_iff mask_eq_exp_minus_1)
qed

text \<open>What a valid mask gives: the number of slots, the capacity and the slot of a cursor.\<close>

lemma table_mask_facts:
  assumes "table_mask n = Some m"
  shows "0 < n" "n \<le> 2 ^ 31" "n dvd 2 ^ 32" "unat (m + 1) = n" "unat (w AND m) = unat w mod n"
proof -
  obtain k where k: "k < 32" "n = 2 ^ k" "m = Bit_Operations.mask k"
    using assms by (rule table_mask_SomeE)
  show "0 < n" using k by simp
  show "n \<le> 2 ^ 31" unfolding k(2) using k(1) by (intro power_increasing) simp_all
  show "n dvd 2 ^ 32" unfolding k(2) using k(1) by (intro le_imp_power_dvd) simp
  show "unat (m + 1) = n" using k by (simp add: mask_eq_exp_minus_1 unat_exp)
  have "unat (w AND m) = unat (take_bit k w)" by (simp add: k(3) take_bit_eq_mask)
  also have "\<dots> = take_bit k (unat w)" by (rule unsigned_take_bit_eq)
  also have "\<dots> = unat w mod n" by (simp add: take_bit_eq_mod k(2))
  finally show "unat (w AND m) = unat w mod n" .
qed

definition live :: "nat \<Rightarrow> u32 \<Rightarrow> u32 \<Rightarrow> nat list" where
  "live n head tail = map (\<lambda>i. (unat tail + i) mod n) [0..<unat (head - tail)]"

lemma length_live [simp]: "length (live n h t) = unat (h - t)"
  by (simp add: live_def)

lemma live_less: "0 < n \<Longrightarrow> s \<in> set (live n h t) \<Longrightarrow> s < n"
  by (auto simp: live_def)

lemma live_empty [simp]: "live n h h = []"
  by (simp add: live_def)

lemma live_Nil_iff: "live n h t = [] \<longleftrightarrow> h = t"
  by (simp add: live_def unat_eq_zero)

lemma mod_offset_inj:
  fixes a i j n :: nat
  assumes "(a + i) mod n = (a + j) mod n" "i < n" "j < n"
  shows "i = j"
proof -
  have "int n dvd int (a + i) - int (a + j)"
    using assms(1) by (metis mod_eq_dvd_iff zmod_int)
  then have "int n dvd int i - int j" by simp
  moreover have "\<bar>int i - int j\<bar> < int n" using assms by linarith
  ultimately show ?thesis by (metis dvd_imp_le_int eq_iff_diff_eq_0 not_le of_nat_eq_iff abs_of_nat)
qed

lemma unat_mod_dvd_add: "n dvd 2 ^ 32 \<Longrightarrow> unat (a + b) mod n = (unat a + unat b) mod n"
  for a b :: u32
  by (simp add: unat_word_ariths mod_mod_cancel)

lemma unat_succ_used: "unat (h - t) < 2 ^ 32 - 1 \<Longrightarrow> unat (h + 1 - t) = Suc (unat (h - t))"
  for h t :: u32
proof -
  assume less: "unat (h - t) < 2 ^ 32 - 1"
  have "h + 1 - t = (h - t) + 1" by simp
  then show ?thesis using less by (simp only: unat_word_ariths) simp
qed

lemma unat_pred_used: "h \<noteq> t \<Longrightarrow> Suc (unat (h - (t + 1))) = unat (h - t)"
  for h t :: u32
proof -
  assume "h \<noteq> t"
  then have ne: "h - t \<noteq> 0" by simp
  have "unat (h - (t + 1)) = unat ((h - t) - 1)" by (simp only: diff_diff_eq)
  moreover have "unat ((h - t) - 1) = unat (h - t) - 1"
  proof -
    have "1 \<le> h - t" using ne by (metis word_less_1 not_le)
    then show ?thesis by (simp add: unat_sub_le)
  qed
  moreover have "0 < unat (h - t)" using ne unat_gt_0 by blast
  ultimately show ?thesis by linarith
qed

lemma live_put:
  assumes "n dvd 2 ^ 32" "unat (h - t) < 2 ^ 32 - 1"
  shows "live n (h + 1) t = live n h t @ [unat h mod n]"
proof -
  have "(unat t + unat (h - t)) mod n = unat h mod n"
    using unat_mod_dvd_add [OF assms(1), of t "h - t"] by simp
  then show ?thesis by (simp add: live_def unat_succ_used [OF assms(2)])
qed

lemma live_get:
  assumes "n dvd 2 ^ 32" "h \<noteq> t"
  shows "live n h t = (unat t mod n) # live n h (t + 1)"
proof -
  have "(unat (t + 1) + i) mod n = (unat t + Suc i) mod n" for i
  proof -
    have "(unat (t + 1) + i) mod n = (unat (t + 1) mod n + i) mod n" by (simp add: mod_add_left_eq)
    also have "\<dots> = ((unat t + 1) mod n + i) mod n"
      using unat_mod_dvd_add [OF assms(1), of t 1] by simp
    also have "\<dots> = (unat t + Suc i) mod n" by (simp add: mod_add_left_eq)
    finally show ?thesis .
  qed
  moreover have "[0..<unat (h - t)] = 0 # map Suc [0..<unat (h - (t + 1))]"
    using unat_pred_used [OF assms(2)] by (metis map_Suc_upt upt_conv_Cons zero_less_Suc)
  ultimately show ?thesis by (simp add: live_def comp_def)
qed

lemma distinct_live:
  assumes "unat (h - t) \<le> n"
  shows "distinct (live n h t)"
  using assms unfolding live_def distinct_map
  by (auto intro!: inj_onI elim: mod_offset_inj)

text \<open>The slot the next entry goes to holds no live entry.\<close>

lemma next_slot_free:
  assumes "n dvd 2 ^ 32" "unat (h - t) < n" "n \<le> 2 ^ 31"
  shows "unat h mod n \<notin> set (live n h t)"
proof -
  have less: "unat (h - t) < 2 ^ 32 - 1" using assms by simp
  have "distinct (live n (h + 1) t)"
    using assms(2) by (intro distinct_live) (simp add: unat_succ_used [OF less])
  then show ?thesis by (simp add: live_put [OF assms(1) less])
qed

lemma used_cases:
  fixes h t m :: u32
  assumes "table_mask n = Some m"
  shows "h - t > m + 1 \<longleftrightarrow> n < unat (h - t)" "h - t = m + 1 \<longleftrightarrow> unat (h - t) = n"
    "h - t \<le> m + 1 \<longleftrightarrow> unat (h - t) \<le> n"
  using table_mask_facts(4) [OF assms] by (auto simp: word_less_nat_alt word_le_nat_alt word_unat_eq_iff)

subsection \<open>The interface\<close>

datatype 'a ring_op = Put 'a | Get

text \<open>
  A history of operations by the two ends, in any order: what was accepted, what was delivered,
  and the final memory.
\<close>

fun ring_run ::
  "('a \<Rightarrow> 's \<Rightarrow> (RingError + 'r) \<times> 's) \<Rightarrow> ('s \<Rightarrow> (RingError + 'a option) \<times> 's) \<Rightarrow> 'a ring_op list \<Rightarrow> 's
     \<Rightarrow> 'a list \<times> 'a list \<times> 's" where
  "ring_run put get [] s = ([], [], s)"
| "ring_run put get (Put x # ops) s =
     (let (r, s) = put x s; (acc, del, s) = ring_run put get ops s in
      (if is_ok r then x # acc else acc, del, s))"
| "ring_run put get (Get # ops) s =
     (let (r, s) = get s; (acc, del, s) = ring_run put get ops s in
      (acc, case r of Inr (Some x) \<Rightarrow> x # del | _ \<Rightarrow> del, s))"

locale bounded_fifo =
  fixes capacity :: nat
    and ok :: "'s \<Rightarrow> bool"
    and contents :: "'s \<Rightarrow> 'a list"
    and put :: "'a \<Rightarrow> 's \<Rightarrow> (RingError + 'r) \<times> 's"
    and get :: "'s \<Rightarrow> (RingError + 'a option) \<times> 's"
  assumes bounded: "ok s \<Longrightarrow> length (contents s) \<le> capacity"
    and put_room: "ok s \<Longrightarrow> length (contents s) < capacity \<Longrightarrow>
      \<exists>r s'. put x s = (Inr r, s') \<and> ok s' \<and> contents s' = contents s @ [x]"
    and put_full: "ok s \<Longrightarrow> length (contents s) = capacity \<Longrightarrow> put x s = (Inl Full, s)"
    and get_empty: "ok s \<Longrightarrow> contents s = [] \<Longrightarrow> get s = (Inr None, s)"
    and get_cons: "ok s \<Longrightarrow> contents s = x # xs \<Longrightarrow>
      \<exists>s'. get s = (Inr (Some x), s') \<and> ok s' \<and> contents s' = xs"
begin

lemma put_cases:
  assumes "ok s"
  obtains (full) "length (contents s) = capacity" "put x s = (Inl Full, s)"
  | (room) r s' where "length (contents s) < capacity" "put x s = (Inr r, s')" "ok s'"
      "contents s' = contents s @ [x]"
  using bounded [OF assms] put_full [OF assms] put_room [OF assms] by (meson le_neq_implies_less)

lemma run_exact:
  assumes "ok s" "ring_run put get ops s = (acc, del, s')"
  shows "ok s' \<and> contents s @ acc = del @ contents s'"
  using assms
proof (induction ops arbitrary: s acc del)
  case Nil
  then show ?case by simp
next
  case (Cons op ops)
  show ?case
  proof (cases op)
    case (Put x)
    show ?thesis
      using Cons.prems(1)
    proof (cases rule: put_cases [of s x])
      case full
      with Cons Put show ?thesis by (auto split: prod.splits)
    next
      case (room r t)
      obtain acc' where run: "ring_run put get ops t = (acc', del, s')" and acc: "acc = x # acc'"
        using Cons.prems(2) Put room(2) by (auto split: prod.splits)
      show ?thesis using Cons.IH [OF room(3) run] room(4) acc by simp
    qed
  next
    case Get
    show ?thesis
    proof (cases "contents s")
      case Nil
      have "ring_run put get ops s = (acc, del, s')"
        using Cons.prems(2) Get get_empty [OF Cons.prems(1) Nil] by (auto split: prod.splits)
      then show ?thesis using Cons.IH [OF Cons.prems(1)] by simp
    next
      case (Cons y ys)
      obtain t where t: "get s = (Inr (Some y), t)" "ok t" "contents t = ys"
        using get_cons [OF Cons.prems(1) Cons] by blast
      obtain del' where run: "ring_run put get ops t = (acc, del', s')" and del: "del = y # del'"
        using Cons.prems(2) Get t(1) by (auto split: prod.splits)
      show ?thesis using Cons.IH [OF t(2) run] t(3) del Cons by simp
    qed
  qed
qed

text \<open>As many gets as there are entries empty the ring, in order, and none is refused.\<close>

lemma run_drains:
  assumes "ok s"
  shows "\<exists>s'. ring_run put get (replicate (length (contents s)) Get) s = ([], contents s, s')
    \<and> ok s' \<and> contents s' = []"
  using assms
proof (induction "contents s" arbitrary: s)
  case Nil
  then show ?case by (intro exI [of _ s]) (simp flip: Nil(1))
next
  case (Cons x xs)
  obtain t where t: "get s = (Inr (Some x), t)" "ok t" "contents t = xs"
    using get_cons [OF Cons.prems, of x xs] Cons.hyps(2) by auto
  show ?case using Cons.hyps(1) [of t] t by (fastforce simp flip: Cons.hyps(2))
qed

lemma put_within: "ok s \<Longrightarrow> put x s = (r, s') \<Longrightarrow> ok s'"
  by (cases rule: put_cases [of s x]) auto

end

subsection \<open>The submission ring\<close>

definition submissions :: "Channel \<Rightarrow> Sqe list" where
  "submissions c =
     map (\<lambda>s. chan_entries c ! unat (chan_index c ! s))
       (live (length (chan_entries c)) (chan_head c) (chan_tail c))"

text \<open>
  A channel neither end has broken: its mask, cursors no further apart than the table is long,
  and an index that names each live slot in its own place, which is how \<open>stage\<close> writes it.
\<close>

definition chan_ok :: "u32 \<Rightarrow> Channel \<Rightarrow> bool" where
  "chan_ok m c \<longleftrightarrow> Channel_mask c = Some m \<and> chan_head c - chan_tail c \<le> m + 1
     \<and> list_all (\<lambda>s. chan_index c ! s = of_nat s)
         (live (length (chan_entries c)) (chan_head c) (chan_tail c))"

lemma Channel_mask_Some_iff:
  "Channel_mask c = Some m \<longleftrightarrow>
     table_mask (length (chan_entries c)) = Some m \<and> length (chan_index c) = length (chan_entries c)"
  by (auto simp: Channel_mask_def split: option.splits)

lemma unat_of_nat_slot: "n \<le> 2 ^ 31 \<Longrightarrow> s < n \<Longrightarrow> unat (of_nat s :: u32) = s"
  by (simp add: unsigned_of_nat take_bit_nat_eq_self)

lemma chan_ok_facts:
  assumes "chan_ok m c"
  shows "table_mask (length (chan_entries c)) = Some m"
    "length (chan_index c) = length (chan_entries c)"
    "unat (chan_head c - chan_tail c) \<le> length (chan_entries c)"
    "length (submissions c) = unat (chan_head c - chan_tail c)"
    "Suc (unat m) = length (chan_entries c)"
proof -
  show mask: "table_mask (length (chan_entries c)) = Some m"
    and len: "length (chan_index c) = length (chan_entries c)"
    using assms by (simp_all add: chan_ok_def Channel_mask_Some_iff)
  show "unat (chan_head c - chan_tail c) \<le> length (chan_entries c)"
    using assms by (simp add: chan_ok_def used_cases(3) [OF mask])
  show "length (submissions c) = unat (chan_head c - chan_tail c)" by (simp add: submissions_def)
  obtain k where "k < 32" "length (chan_entries c) = 2 ^ k" "m = Bit_Operations.mask k"
    using mask by (rule table_mask_SomeE)
  then show "Suc (unat m) = length (chan_entries c)"
    by (simp add: mask_eq_exp_minus_1 unat_sub_le unat_exp word_le_nat_alt)
qed

text \<open>In a sound channel the index is the identity on the live slots.\<close>

lemma submissions_eq:
  assumes "chan_ok m c"
  shows "submissions c =
    map ((!) (chan_entries c)) (live (length (chan_entries c)) (chan_head c) (chan_tail c))"
proof -
  note T = table_mask_facts [OF chan_ok_facts(1) [OF assms]]
  have "unat (chan_index c ! s) = s"
    if "s \<in> set (live (length (chan_entries c)) (chan_head c) (chan_tail c))" for s
  proof -
    have "chan_index c ! s = of_nat s" using assms that by (auto simp: chan_ok_def list_all_iff)
    then show ?thesis using unat_of_nat_slot [OF T(2) live_less [OF T(1) that]] by simp
  qed
  then show ?thesis by (simp add: submissions_def)
qed

text \<open>
  Staging an entry at a position past the head, then moving the head there: what is live is
  what was live and the new slot. Both \<open>submit\<close> and a batch of one are this.
\<close>

lemma stage_live:
  fixes e :: Sqe
  assumes ok: "chan_ok m c" and room: "unat (chan_head c - chan_tail c) < length (chan_entries c)"
  defines "c' \<equiv> (Producer_stage m (chan_head c) e c)\<lparr>chan_head := chan_head c + 1\<rparr>"
  shows "chan_ok m c'" "submissions c' = submissions c @ [e]"
proof -
  let ?n = "length (chan_entries c)" and ?s = "unat (chan_head c) mod length (chan_entries c)"
  let ?l = "live ?n (chan_head c) (chan_tail c)"
  note mask = chan_ok_facts(1) [OF ok]
  note T = table_mask_facts [OF mask]
  have used: "unat (chan_head c - chan_tail c) < 2 ^ 32 - 1" using room T(2) by simp
  have l: "live ?n (chan_head c + 1) (chan_tail c) = ?l @ [?s]" by (rule live_put [OF T(3) used])
  have fresh: "?s \<notin> set ?l" by (rule next_slot_free [OF T(3) room T(2)])
  have c': "c' = c\<lparr>chan_head := chan_head c + 1, chan_entries := (chan_entries c)[?s := e],
      chan_index := (chan_index c)[?s := of_nat ?s]\<rparr>"
    by (simp add: c'_def Producer_stage_def Let_def T(5))
  have s: "?s < length (chan_index c)" using T(1) chan_ok_facts(2) [OF ok] by simp
  have index: "list_all (\<lambda>s. (chan_index c)[?s := of_nat ?s] ! s = of_nat s) (?l @ [?s])"
    using ok fresh s by (auto simp: chan_ok_def list_all_iff nth_list_update)
  have "chan_head c + 1 - chan_tail c \<le> m + 1"
    unfolding used_cases(3) [OF mask] using unat_succ_used [OF used] room by simp
  then show ok': "chan_ok m c'"
    using index ok unfolding chan_ok_def by (simp add: c' l Channel_mask_Some_iff)
  show "submissions c' = submissions c @ [e]"
    unfolding submissions_eq [OF ok'] submissions_eq [OF ok]
    using fresh T(1) by (auto simp: c' l nth_list_update)
qed

lemma submit_room:
  assumes "chan_ok m c" "length (submissions c) < Suc (unat m)"
  shows "\<exists>r c'. Producer_submit m e c = (Inr r, c') \<and> chan_ok m c' \<and> submissions c' = submissions c @ [e]"
proof -
  note F = chan_ok_facts [OF assms(1)]
  have room: "unat (chan_head c - chan_tail c) < length (chan_entries c)" using assms(2) F by simp
  then have "\<not> chan_head c - chan_tail c > m + 1" "chan_head c - chan_tail c \<noteq> m + 1"
    using used_cases [OF F(1)] by auto
  then show ?thesis
    using stage_live [OF assms(1) room] by (auto simp: Producer_submit_def Let_def not_less)
qed

lemma submit_full:
  assumes "chan_ok m c" "length (submissions c) = Suc (unat m)"
  shows "Producer_submit m e c = (Inl Full, c)"
proof -
  note F = chan_ok_facts [OF assms(1)]
  have "chan_head c - chan_tail c = m + 1" using assms(2) F used_cases(2) [OF F(1)] by simp
  then show ?thesis by (simp add: Producer_submit_def Let_def)
qed

lemma pop_empty:
  assumes "submissions c = []"
  shows "Consumer_pop m c = (Inr None, c)"
  using assms by (simp add: submissions_def live_Nil_iff Consumer_pop_def Let_def)

lemma pop_cons:
  assumes ok: "chan_ok m c" and x: "submissions c = x # xs"
  shows "Consumer_pop m c = (Inr (Some x), c\<lparr>chan_tail := chan_tail c + 1\<rparr>)"
    "chan_ok m (c\<lparr>chan_tail := chan_tail c + 1\<rparr>)"
    "submissions (c\<lparr>chan_tail := chan_tail c + 1\<rparr>) = xs"
proof -
  let ?n = "length (chan_entries c)" and ?p = "unat (chan_tail c) mod length (chan_entries c)"
  note F = chan_ok_facts [OF ok]
  note T = table_mask_facts [OF F(1)]
  have ne: "chan_head c \<noteq> chan_tail c" using x by (auto simp: submissions_def)
  note l = live_get [OF T(3) ne]
  have p: "?p < ?n" "unat (chan_index c ! ?p) = ?p"
    using ok T unat_of_nat_slot [OF T(2), of ?p] by (simp_all add: chan_ok_def l)
  show ok': "chan_ok m (c\<lparr>chan_tail := chan_tail c + 1\<rparr>)"
    using ok unat_pred_used [OF ne] F(3)
    by (simp add: chan_ok_def l Channel_mask_Some_iff used_cases(3) [OF F(1)])
  show "submissions (c\<lparr>chan_tail := chan_tail c + 1\<rparr>) = xs"
    using x by (simp add: submissions_def l)
  have "\<not> chan_head c - chan_tail c > m + 1" using F used_cases(1) [OF F(1)] by simp
  then show "Consumer_pop m c = (Inr (Some x), c\<lparr>chan_tail := chan_tail c + 1\<rparr>)"
    using x p ne by (simp add: Consumer_pop_def Let_def T(5) submissions_def l)
qed

interpretation sq: bounded_fifo "Suc (unat m)" "chan_ok m" submissions "Producer_submit m" "Consumer_pop m"
  for m
proof unfold_locales
  fix c :: Channel and e x :: Sqe and xs
  assume ok: "chan_ok m c"
  show "length (submissions c) \<le> Suc (unat m)" using chan_ok_facts [OF ok] by simp
  show "length (submissions c) < Suc (unat m) \<Longrightarrow>
      \<exists>r c'. Producer_submit m e c = (Inr r, c') \<and> chan_ok m c' \<and> submissions c' = submissions c @ [e]"
    by (rule submit_room [OF ok])
  show "length (submissions c) = Suc (unat m) \<Longrightarrow> Producer_submit m e c = (Inl Full, c)"
    by (rule submit_full [OF ok])
  show "submissions c = [] \<Longrightarrow> Consumer_pop m c = (Inr None, c)" by (rule pop_empty)
  show "submissions c = x # xs \<Longrightarrow>
      \<exists>c'. Consumer_pop m c = (Inr (Some x), c') \<and> chan_ok m c' \<and> submissions c' = xs"
    using pop_cons [OF ok] by blast
qed

subsection \<open>The completion ring\<close>

definition completions :: "Completions \<Rightarrow> Cqe list" where
  "completions q = map ((!) (cq_slots q)) (live (length (cq_slots q)) (cq_head q) (cq_tail q))"

definition cq_ok :: "u32 \<Rightarrow> Completions \<Rightarrow> bool" where
  "cq_ok m q \<longleftrightarrow> Completions_mask q = Some m \<and> cq_head q - cq_tail q \<le> m + 1"

lemma cq_ok_facts:
  assumes "cq_ok m q"
  shows "table_mask (length (cq_slots q)) = Some m"
    "unat (cq_head q - cq_tail q) \<le> length (cq_slots q)"
    "length (completions q) = unat (cq_head q - cq_tail q)"
    "Suc (unat m) = length (cq_slots q)"
proof -
  show mask: "table_mask (length (cq_slots q)) = Some m"
    using assms by (simp add: cq_ok_def Completions_mask_def)
  show "unat (cq_head q - cq_tail q) \<le> length (cq_slots q)"
    using assms by (simp add: cq_ok_def used_cases(3) [OF mask])
  show "length (completions q) = unat (cq_head q - cq_tail q)" by (simp add: completions_def)
  obtain k where "k < 32" "length (cq_slots q) = 2 ^ k" "m = Bit_Operations.mask k"
    using mask by (rule table_mask_SomeE)
  then show "Suc (unat m) = length (cq_slots q)"
    by (simp add: mask_eq_exp_minus_1 unat_sub_le unat_exp word_le_nat_alt)
qed

lemma free_eq:
  assumes "cq_ok m q"
  shows "\<exists>f. Poster_free m q = Inr f \<and> unat f = Suc (unat m) - length (completions q)"
proof -
  note F = cq_ok_facts [OF assms]
  have "cq_head q - cq_tail q \<le> m + 1" using assms by (simp add: cq_ok_def)
  then show ?thesis
    using table_mask_facts(4) [OF F(1)] F by (simp add: Poster_free_def Let_def not_less unat_sub_le)
qed

lemma free_room:
  assumes "cq_ok m q" "length (completions q) < Suc (unat m)"
  obtains f where "Poster_free m q = Inr f" "f \<noteq> 0"
proof -
  obtain f where f: "Poster_free m q = Inr f" "unat f = Suc (unat m) - length (completions q)"
    using free_eq [OF assms(1)] by blast
  then have "f \<noteq> 0" using assms(2) by auto
  with f(1) show thesis by (rule that)
qed

lemma post_room:
  assumes ok: "cq_ok m q" and room: "length (completions q) < Suc (unat m)"
  shows "\<exists>q'. Poster_post m e q = (Inr (), q') \<and> cq_ok m q' \<and> completions q' = completions q @ [e]"
proof -
  let ?n = "length (cq_slots q)" and ?s = "unat (cq_head q) mod length (cq_slots q)"
  let ?l = "live ?n (cq_head q) (cq_tail q)"
  note F = cq_ok_facts [OF ok]
  note T = table_mask_facts [OF F(1)]
  have room': "unat (cq_head q - cq_tail q) < ?n" using room F by simp
  have used: "unat (cq_head q - cq_tail q) < 2 ^ 32 - 1" using room' T(2) by simp
  have l: "live ?n (cq_head q + 1) (cq_tail q) = ?l @ [?s]" by (rule live_put [OF T(3) used])
  have fresh: "?s \<notin> set ?l" by (rule next_slot_free [OF T(3) room' T(2)])
  obtain f where f: "Poster_free m q = Inr f" "f \<noteq> 0" using ok room by (rule free_room)
  define q' where "q' = q\<lparr>cq_slots := (cq_slots q)[?s := e], cq_head := cq_head q + 1\<rparr>"
  have "Poster_post m e q = (Inr (), q')"
    using f by (simp add: Poster_post_def Let_def T(5) q'_def)
  moreover have "cq_ok m q'"
    using ok unat_succ_used [OF used] room'
    by (simp add: cq_ok_def q'_def Completions_mask_def used_cases(3) [OF F(1)])
  moreover have "completions q' = completions q @ [e]"
    using fresh T(1) by (auto simp: completions_def q'_def l nth_list_update)
  ultimately show ?thesis by blast
qed

lemma post_full:
  assumes "cq_ok m q" "length (completions q) = Suc (unat m)"
  shows "Poster_post m e q = (Inl Full, q)"
  using free_eq [OF assms(1)] assms(2) by (auto simp: Poster_post_def unat_eq_zero)

lemma take_empty:
  assumes "completions q = []"
  shows "Collector_take m q = (Inr None, q)"
  using assms by (simp add: completions_def live_Nil_iff Collector_take_def Let_def)

lemma take_cons:
  assumes ok: "cq_ok m q" and x: "completions q = x # xs"
  shows "\<exists>q'. Collector_take m q = (Inr (Some x), q') \<and> cq_ok m q' \<and> completions q' = xs"
proof -
  note F = cq_ok_facts [OF ok]
  note T = table_mask_facts [OF F(1)]
  have ne: "cq_head q \<noteq> cq_tail q" using x by (auto simp: completions_def)
  note l = live_get [OF T(3) ne]
  let ?q = "q\<lparr>cq_tail := cq_tail q + 1\<rparr>"
  have "\<not> cq_head q - cq_tail q > m + 1" using F used_cases(1) [OF F(1)] by simp
  then have "Collector_take m q = (Inr (Some x), ?q)"
    using x ne by (simp add: Collector_take_def Let_def T(5) completions_def l)
  moreover have "cq_ok m ?q"
    using ok unat_pred_used [OF ne] F(2)
    by (simp add: cq_ok_def Completions_mask_def used_cases(3) [OF F(1)])
  moreover have "completions ?q = xs" using x by (simp add: completions_def l)
  ultimately show ?thesis by blast
qed

interpretation cq: bounded_fifo "Suc (unat m)" "cq_ok m" completions "Poster_post m" "Collector_take m"
  for m
proof unfold_locales
  fix q :: Completions and e x :: Cqe and xs
  assume ok: "cq_ok m q"
  show "length (completions q) \<le> Suc (unat m)" using cq_ok_facts [OF ok] by simp
  show "length (completions q) < Suc (unat m) \<Longrightarrow>
      \<exists>r q'. Poster_post m e q = (Inr r, q') \<and> cq_ok m q' \<and> completions q' = completions q @ [e]"
    using post_room [OF ok] by blast
  show "length (completions q) = Suc (unat m) \<Longrightarrow> Poster_post m e q = (Inl Full, q)"
    by (rule post_full [OF ok])
  show "completions q = [] \<Longrightarrow> Collector_take m q = (Inr None, q)" by (rule take_empty)
  show "completions q = x # xs \<Longrightarrow>
      \<exists>q'. Collector_take m q = (Inr (Some x), q') \<and> cq_ok m q' \<and> completions q' = xs"
    by (rule take_cons [OF ok])
qed

end
