(* ===== verification/Ring_Theorems.thy ===== *)
theory Ring_Theorems
  imports Ring_Fifo
begin

text \<open>
  What the rings promise: each is a queue under every interleaving of its two ends, a batch is
  the submissions it holds made visible at once, and an end whose peer writes anything at all
  to the shared memory is refused rather than led outside its tables. The last part is the
  doorbell: a consumer that sleeps is woken, on a machine with store buffers.
\<close>

subsection \<open>Queues\<close>

definition ring0 :: Channel where
  "ring0 = \<lparr>chan_head = - 1, chan_tail = - 1, chan_flags = 0, chan_index = [0, 0],
     chan_entries = [Sqe_ZERO, Sqe_ZERO]\<rparr>"

definition cring0 :: Completions where
  "cring0 = \<lparr>cq_head = - 1, cq_tail = - 1, cq_slots = [Cqe_ZERO, Cqe_ZERO]\<rparr>"

lemma table_mask_2: "table_mask (Suc (Suc 0)) = Some 1"
  using table_mask_power [of 1] by (simp add: numeral_2_eq_2 mask_eq_exp_minus_1)

lemma ring0_ok: "chan_ok 1 ring0" "submissions ring0 = []"
  by (simp_all add: chan_ok_def ring0_def Channel_mask_def table_mask_2 submissions_def)

lemma cring0_ok: "cq_ok 1 cring0" "completions cring0 = []"
  by (simp_all add: cq_ok_def cring0_def Completions_mask_def table_mask_2 completions_def)

text \<open>
  C19: However the producer and the consumer of a submission ring interleave, with cursors that
  wrap at 32 bits, the entries delivered followed by those still queued are exactly the entries
  queued before followed by those accepted since: nothing is lost, duplicated or reordered. The
  ring never holds more than its table, and stays sound.
\<close>

theorem submissions_fifo:
  assumes "chan_ok m c" "ring_run (Producer_submit m) (Consumer_pop m) ops c = (acc, del, c')"
  shows "chan_ok m c' \<and> submissions c @ acc = del @ submissions c'
    \<and> length (submissions c') \<le> length (chan_entries c')"
proof -
  have run: "chan_ok m c' \<and> submissions c @ acc = del @ submissions c'"
    by (rule sq.run_exact [OF assms])
  then have "length (submissions c') \<le> Suc (unat m)" using sq.bounded by blast
  then show ?thesis using run chan_ok_facts(5) [of m c'] by simp
qed

theorem submissions_fifo_witness:
  "\<exists>c'. ring_run (Producer_submit 1) (Consumer_pop 1) [Put Sqe_ZERO, Get] ring0
      = ([Sqe_ZERO], [Sqe_ZERO], c') \<and> chan_ok 1 c' \<and> submissions c' = []"
proof -
  obtain acc del c' where run:
    "ring_run (Producer_submit 1) (Consumer_pop 1) [Put Sqe_ZERO, Get] ring0 = (acc, del, c')"
    by (metis prod_cases3)
  then have "acc = [Sqe_ZERO]" "del = [Sqe_ZERO]"
    by (auto simp: ring0_def Producer_submit_def Consumer_pop_def Producer_stage_def Let_def)
  then show ?thesis using submissions_fifo [OF ring0_ok(1) run] run by (auto simp: ring0_ok(2))
qed

text \<open>
  C20: The completion ring is the same queue in the other direction: what the collector takes and
  what it has yet to take is what the poster posted, in order, and as many takes as there are
  completions empty it.
\<close>

theorem completions_fifo:
  assumes "cq_ok m q" "ring_run (Poster_post m) (Collector_take m) ops q = (acc, del, q')"
  shows "cq_ok m q' \<and> completions q @ acc = del @ completions q'
    \<and> (\<exists>q''. ring_run (Poster_post m) (Collector_take m) (replicate (length (completions q')) Get) q'
          = ([], completions q', q'') \<and> completions q'' = [])"
  using cq.run_exact [OF assms] cq.run_drains [of m q'] by blast

theorem completions_fifo_witness:
  "\<exists>q'. ring_run (Poster_post 1) (Collector_take 1) [Put Cqe_ZERO, Put Cqe_ZERO, Put Cqe_ZERO, Get] cring0
      = ([Cqe_ZERO, Cqe_ZERO], [Cqe_ZERO], q') \<and> completions q' = [Cqe_ZERO]"
proof -
  obtain acc del q' where run:
    "ring_run (Poster_post 1) (Collector_take 1) [Put Cqe_ZERO, Put Cqe_ZERO, Put Cqe_ZERO, Get] cring0
      = (acc, del, q')"
    by (metis prod_cases3)
  then have "acc = [Cqe_ZERO, Cqe_ZERO]" "del = [Cqe_ZERO]"
    by (auto simp: cring0_def Poster_post_def Poster_free_def Collector_take_def Let_def)
  then show ?thesis using completions_fifo [OF cring0_ok(1) run] run by (auto simp: cring0_ok(2))
qed

subsection \<open>Batches\<close>

fun push_all :: "u32 \<Rightarrow> Sqe list \<Rightarrow> Batch \<times> Channel \<Rightarrow> (RingError + unit) \<times> Batch \<times> Channel" where
  "push_all m [] s = (Inr (), s)"
| "push_all m (e # es) s =
     (case Batch_push m e s of (Inl x, s) \<Rightarrow> (Inl x, s) | (Inr _, s) \<Rightarrow> push_all m es s)"

fun submit_all :: "u32 \<Rightarrow> Sqe list \<Rightarrow> Channel \<Rightarrow> Channel" where
  "submit_all m [] c = c"
| "submit_all m (e # es) c = submit_all m es (snd (Producer_submit m e c))"

text \<open>A push does to the memory what a submission does, except that it leaves the head alone.\<close>

lemma push_is_submit:
  assumes ok: "chan_ok m d" and room: "length (submissions d) < length (chan_entries d)"
    and at: "chan_head d = bat_base b + bat_staged b"
  shows "Batch_push m e (b, d\<lparr>chan_head := h\<rparr>) =
      (Inr (), b\<lparr>bat_staged := bat_staged b + 1\<rparr>, (snd (Producer_submit m e d))\<lparr>chan_head := h\<rparr>)"
    "chan_head (snd (Producer_submit m e d)) = bat_base b + (bat_staged b + 1)"
    "chan_tail (snd (Producer_submit m e d)) = chan_tail d"
    "length (chan_entries (snd (Producer_submit m e d))) = length (chan_entries d)"
    "chan_ok m (snd (Producer_submit m e d))"
    "submissions (snd (Producer_submit m e d)) = submissions d @ [e]"
proof -
  note F = chan_ok_facts [OF ok]
  have room': "unat (chan_head d - chan_tail d) < length (chan_entries d)" using room F by simp
  then have free: "\<not> chan_head d - chan_tail d > m + 1" "chan_head d - chan_tail d \<noteq> m + 1"
    using used_cases [OF F(1)] by auto
  have submit: "snd (Producer_submit m e d)
      = (Producer_stage m (chan_head d) e d)\<lparr>chan_head := chan_head d + 1\<rparr>"
    using free by (simp add: Producer_submit_def Let_def)
  show "Batch_push m e (b, d\<lparr>chan_head := h\<rparr>) =
      (Inr (), b\<lparr>bat_staged := bat_staged b + 1\<rparr>, (snd (Producer_submit m e d))\<lparr>chan_head := h\<rparr>)"
    using free by (simp add: submit Batch_push_def Let_def Producer_stage_def flip: at)
  show "chan_head (snd (Producer_submit m e d)) = bat_base b + (bat_staged b + 1)"
    "chan_tail (snd (Producer_submit m e d)) = chan_tail d"
    "length (chan_entries (snd (Producer_submit m e d))) = length (chan_entries d)"
    by (simp_all add: submit at Producer_stage_def Let_def)
  show "chan_ok m (snd (Producer_submit m e d))"
    "submissions (snd (Producer_submit m e d)) = submissions d @ [e]"
    using stage_live [OF ok room'] by (simp_all add: submit)
qed

lemma push_all_is_submit_all:
  assumes "chan_ok m d" "length (submissions d) + length es \<le> length (chan_entries d)"
    "chan_head d = bat_base b + bat_staged b"
  shows "\<exists>b'. push_all m es (b, d\<lparr>chan_head := h\<rparr>) = (Inr (), b', (submit_all m es d)\<lparr>chan_head := h\<rparr>)
    \<and> bat_base b' = bat_base b \<and> bat_staged b' = bat_staged b + of_nat (length es)
    \<and> chan_head (submit_all m es d) = bat_base b' + bat_staged b'
    \<and> chan_tail (submit_all m es d) = chan_tail d
    \<and> chan_ok m (submit_all m es d) \<and> submissions (submit_all m es d) = submissions d @ es"
  using assms
proof (induction es arbitrary: d b)
  case Nil
  then show ?case by simp
next
  case (Cons e es)
  have room: "length (submissions d) < length (chan_entries d)" using Cons.prems(2) by simp
  note P = push_is_submit [OF Cons.prems(1) room Cons.prems(3), of e]
  show ?case
    using Cons.IH [OF P(5), of "b\<lparr>bat_staged := bat_staged b + 1\<rparr>"] Cons.prems(2) P
    by (fastforce simp: algebra_simps)
qed

lemma submissions_head:
  assumes "unat (h - chan_tail d) \<le> unat (chan_head d - chan_tail d)"
  shows "submissions (d\<lparr>chan_head := h\<rparr>) = take (unat (h - chan_tail d)) (submissions d)"
  using assms by (simp add: submissions_def live_def take_map take_upt comp_def)

text \<open>
  C21: Pushing entries into a batch that has room for them shows the consumer nothing until the
  batch is published, and publishing leaves the ring exactly as submitting them one at a time
  would have, with one store of the head.
\<close>

theorem batch_is_submissions:
  assumes ok: "chan_ok m c" and room: "length (submissions c) + length es \<le> length (chan_entries c)"
    and "es \<noteq> []"
  shows "\<exists>b c1. push_all m es (Producer_batch c, c) = (Inr (), b, c1)
    \<and> submissions c1 = submissions c
    \<and> Batch_publish b c1 = (Inr (doorbell_wanted c1), submit_all m es c)
    \<and> submissions (submit_all m es c) = submissions c @ es"
proof -
  let ?d = "submit_all m es c" and ?h = "chan_head c"
  obtain b where push: "push_all m es (Producer_batch c, c) = (Inr (), b, ?d\<lparr>chan_head := ?h\<rparr>)"
    and b: "bat_staged b = of_nat (length es)" "chan_head ?d = bat_base b + bat_staged b"
    and d: "chan_tail ?d = chan_tail c" "chan_ok m ?d" "submissions ?d = submissions c @ es"
    using push_all_is_submit_all [OF ok room, of "Producer_batch c" ?h]
    by (auto simp: Producer_batch_def)
  have n: "length es < 2 ^ 32"
    using room table_mask_facts(2) [OF chan_ok_facts(1) [OF ok]] by simp
  then have "unat (bat_staged b) = length es" by (simp add: b(1) unsigned_of_nat take_bit_nat_eq_self)
  then have staged: "bat_staged b \<noteq> 0" using \<open>es \<noteq> []\<close> by auto
  have "length (submissions c) = unat (?h - chan_tail c)" by (rule chan_ok_facts(4) [OF ok])
  moreover have "length (submissions ?d) = unat (chan_head ?d - chan_tail c)"
    using chan_ok_facts(4) [OF d(2)] d(1) by simp
  ultimately have "submissions (?d\<lparr>chan_head := ?h\<rparr>) = submissions c"
    using submissions_head [of ?h ?d] d by simp
  moreover have "Batch_publish b (?d\<lparr>chan_head := ?h\<rparr>) = (Inr (doorbell_wanted (?d\<lparr>chan_head := ?h\<rparr>)), ?d)"
    using staged by (simp add: Batch_publish_def Let_def doorbell_wanted_def flip: b(2))
  ultimately show ?thesis using push d(3) by blast
qed

theorem batch_is_submissions_witness:
  "\<exists>b c1. push_all 1 [Sqe_ZERO, Sqe_ZERO] (Producer_batch ring0, ring0) = (Inr (), b, c1)
    \<and> submissions c1 = []
    \<and> submissions (snd (Batch_publish b c1)) = [Sqe_ZERO, Sqe_ZERO]"
proof -
  have room: "length (submissions ring0) + length [Sqe_ZERO, Sqe_ZERO] \<le> length (chan_entries ring0)"
    unfolding ring0_ok(2) by (simp add: ring0_def)
  obtain b c1 where
    "push_all 1 [Sqe_ZERO, Sqe_ZERO] (Producer_batch ring0, ring0) = (Inr (), b, c1)"
    "submissions c1 = submissions ring0"
    "Batch_publish b c1 = (Inr (doorbell_wanted c1), submit_all 1 [Sqe_ZERO, Sqe_ZERO] ring0)"
    "submissions (submit_all 1 [Sqe_ZERO, Sqe_ZERO] ring0) = submissions ring0 @ [Sqe_ZERO, Sqe_ZERO]"
    using batch_is_submissions [OF ring0_ok(1) room] by blast
  then show ?thesis unfolding ring0_ok(2) by force
qed

subsection \<open>A peer that writes anything\<close>

text \<open>
  C22: Whatever the peer has written to the cursors and the index, an end that was built on the
  tables stays inside them. The consumer answers \<open>Corrupt\<close> and moves nothing, or nothing is
  queued, or it reads an entry of the table and moves its own cursor one step towards the head.
  The producer answers an error and writes nothing, or writes one slot of the table and its own
  cursor, and its peer's cursor and flags are as they were.
\<close>

theorem hostile_peer_contained:
  assumes "Channel_mask c = Some m"
  shows "(case Consumer_pop m c of
      (Inl x, c') \<Rightarrow> x = Corrupt \<and> c' = c
    | (Inr None, c') \<Rightarrow> chan_head c = chan_tail c \<and> c' = c
    | (Inr (Some x), c') \<Rightarrow> x \<in> set (chan_entries c) \<and> c' = c\<lparr>chan_tail := chan_tail c + 1\<rparr>
        \<and> unat (chan_head c - chan_tail c') + 1 = unat (chan_head c - chan_tail c)
        \<and> unat (chan_head c - chan_tail c) \<le> length (chan_entries c))
    \<and> (case Producer_submit m e c of
      (Inl _, c') \<Rightarrow> c' = c
    | (Inr _, c') \<Rightarrow> (\<exists>s < length (chan_entries c). c' = c\<lparr>chan_head := chan_head c + 1,
        chan_entries := (chan_entries c)[s := e], chan_index := (chan_index c)[s := of_nat s]\<rparr>))"
proof (rule conjI)
  have mask: "table_mask (length (chan_entries c)) = Some m"
    using assms by (simp add: Channel_mask_Some_iff)
  note T = table_mask_facts [OF mask]
  show "(case Producer_submit m e c of
      (Inl _, c') \<Rightarrow> c' = c
    | (Inr _, c') \<Rightarrow> (\<exists>s < length (chan_entries c). c' = c\<lparr>chan_head := chan_head c + 1,
        chan_entries := (chan_entries c)[s := e], chan_index := (chan_index c)[s := of_nat s]\<rparr>))"
    using T(1) by (auto simp: Producer_submit_def Producer_stage_def Let_def T(5) intro!: exI
        [of _ "unat (chan_head c) mod length (chan_entries c)"])
  show "(case Consumer_pop m c of
      (Inl x, c') \<Rightarrow> x = Corrupt \<and> c' = c
    | (Inr None, c') \<Rightarrow> chan_head c = chan_tail c \<and> c' = c
    | (Inr (Some x), c') \<Rightarrow> x \<in> set (chan_entries c) \<and> c' = c\<lparr>chan_tail := chan_tail c + 1\<rparr>
        \<and> unat (chan_head c - chan_tail c') + 1 = unat (chan_head c - chan_tail c)
        \<and> unat (chan_head c - chan_tail c) \<le> length (chan_entries c))"
    using used_cases(1) [OF mask, of "chan_head c" "chan_tail c"] unat_pred_used [of "chan_head c" "chan_tail c"]
    by (auto simp: Consumer_pop_def Let_def not_less)
qed

definition forged :: Channel where
  "forged = ring0\<lparr>chan_head := 0, chan_index := [0, 7]\<rparr>"

theorem hostile_peer_contained_witness:
  "Consumer_pop 1 forged = (Inl Corrupt, forged) \<and> Channel_mask forged = Some 1
    \<and> (\<exists>s<2. snd (Producer_submit 1 Sqe_ZERO forged) = forged\<lparr>chan_head := 1,
        chan_entries := (chan_entries forged)[s := Sqe_ZERO],
        chan_index := (chan_index forged)[s := of_nat s]\<rparr>)"
proof -
  have mask: "Channel_mask forged = Some 1"
    by (simp add: Channel_mask_Some_iff forged_def ring0_def table_mask_2)
  have "Consumer_pop 1 forged = (Inl Corrupt, forged)"
    by (simp add: Consumer_pop_def Let_def forged_def ring0_def)
  moreover have "\<exists>r d. Producer_submit 1 Sqe_ZERO forged = (Inr r, d)"
    by (simp add: Producer_submit_def Let_def forged_def ring0_def)
  ultimately show ?thesis
    using hostile_peer_contained [OF mask, of Sqe_ZERO] mask
    by (auto simp: forged_def ring0_def numeral_2_eq_2)
qed

end
