(* ===== verification/Ring_Wakeup.thy ===== *)
theory Ring_Wakeup
  imports Ring_Theorems
begin

text \<open>
  The doorbell protocol (\<open>Producer::submit\<close>, \<open>Producer::doorbell_wanted\<close>,
  \<open>Consumer::arm_wakeup\<close> in \<open>src/ring/src/lib.rs\<close>) with the steps of a submission taken apart.
  On a machine with total store order the store of the head may wait in a store buffer while
  later loads are satisfied; the sequentially consistent fence of \<open>doorbell_wanted\<close> waits for
  the buffer to empty. The consumer announces that it is about to sleep, polls once more, and
  sleeps if nothing is there. No interleaving leaves it asleep holding work nobody rings for.
\<close>

datatype producer_at = Idle | Stored
datatype consumer_at = Awake | Armed | Asleep

record wake =
  wk_chan :: Channel
  wk_buffer :: "Sqe option"
  wk_producer :: producer_at
  wk_consumer :: consumer_at
  wk_bell :: bool

definition store_entry :: "u32 \<Rightarrow> Sqe \<Rightarrow> Channel \<Rightarrow> Channel" where
  "store_entry m e c = (Producer_stage m (chan_head c) e c)\<lparr>chan_head := chan_head c + 1\<rparr>"

text \<open>
  The steps of both ends. \<open>store\<close>, \<open>retire\<close> and \<open>look\<close> are the store of the head in \<open>submit\<close>, its way
  out of the store buffer, and the fence and load of \<open>doorbell_wanted\<close>; \<open>pop\<close>, \<open>arm\<close>, \<open>found\<close> and
  \<open>sleep\<close> are the consumer's \<open>pop\<close>, \<open>arm_wakeup\<close> and the second poll its documentation demands;
  \<open>ring\<close> and \<open>spurious\<close> deliver the bell, after which the consumer calls \<open>disarm_wakeup\<close>.
\<close>

inductive wake_step :: "u32 \<Rightarrow> wake \<Rightarrow> wake \<Rightarrow> bool" for m where
  store: "wk_producer w = Idle \<Longrightarrow> chan_head (wk_chan w) - chan_tail (wk_chan w) < m + 1 \<Longrightarrow>
    wake_step m w (w\<lparr>wk_buffer := Some e, wk_producer := Stored\<rparr>)"
| retire: "wk_buffer w = Some e \<Longrightarrow>
    wake_step m w (w\<lparr>wk_chan := store_entry m e (wk_chan w), wk_buffer := None\<rparr>)"
| look: "wk_producer w = Stored \<Longrightarrow> wk_buffer w = None \<Longrightarrow>
    wake_step m w (w\<lparr>wk_producer := Idle, wk_bell := wk_bell w \<or> doorbell_wanted (wk_chan w)\<rparr>)"
| pop: "wk_consumer w = Awake \<Longrightarrow> Consumer_pop m (wk_chan w) = (Inr (Some e), c) \<Longrightarrow>
    wake_step m w (w\<lparr>wk_chan := c\<rparr>)"
| arm: "wk_consumer w = Awake \<Longrightarrow>
    wake_step m w (w\<lparr>wk_chan := Consumer_arm_wakeup (wk_chan w), wk_consumer := Armed\<rparr>)"
| found: "wk_consumer w = Armed \<Longrightarrow> Consumer_pop m (wk_chan w) = (Inr (Some e), c) \<Longrightarrow>
    wake_step m w (w\<lparr>wk_chan := Consumer_disarm_wakeup c, wk_consumer := Awake\<rparr>)"
| sleep: "wk_consumer w = Armed \<Longrightarrow> Consumer_pop m (wk_chan w) = (Inr None, c) \<Longrightarrow>
    wake_step m w (w\<lparr>wk_chan := c, wk_consumer := Asleep\<rparr>)"
| ring: "wk_bell w \<Longrightarrow> wk_consumer w = Asleep \<Longrightarrow>
    wake_step m w (w\<lparr>wk_chan := Consumer_disarm_wakeup (wk_chan w), wk_consumer := Awake,
      wk_bell := False\<rparr>)"
| spurious: "wk_bell w \<Longrightarrow> wk_consumer w = Awake \<Longrightarrow> wake_step m w (w\<lparr>wk_bell := False\<rparr>)"

inductive_cases wake_stepE: "wake_step m w w'"

text \<open>Run without interruption, the producer's three steps are \<open>submit\<close> and its answer.\<close>

lemma submit_in_steps:
  assumes "wk_producer w = Idle" "chan_head (wk_chan w) - chan_tail (wk_chan w) < m + 1"
    "Producer_submit m e (wk_chan w) = (r, c)"
  shows "(wake_step m)\<^sup>*\<^sup>* w (w\<lparr>wk_chan := c, wk_buffer := None, wk_bell := wk_bell w \<or> r = Inr True\<rparr>)"
proof -
  let ?s = "w\<lparr>wk_buffer := Some e, wk_producer := Stored\<rparr>"
  let ?t = "?s\<lparr>wk_chan := store_entry m e (wk_chan w), wk_buffer := None\<rparr>"
  have "wake_step m w ?s" using assms by (intro wake_step.store)
  moreover have "wake_step m ?s ?t" using wake_step.retire [of ?s e m] by simp
  moreover have "wake_step m ?t (?t\<lparr>wk_producer := Idle,
      wk_bell := wk_bell ?t \<or> doorbell_wanted (wk_chan ?t)\<rparr>)"
    by (rule wake_step.look) simp_all
  moreover have "?t\<lparr>wk_producer := Idle, wk_bell := wk_bell ?t \<or> doorbell_wanted (wk_chan ?t)\<rparr>
      = w\<lparr>wk_chan := c, wk_buffer := None, wk_bell := wk_bell w \<or> r = Inr True\<rparr>"
    using assms by (auto simp: Producer_submit_def Let_def store_entry_def split: if_splits)
  ultimately show ?thesis by (metis converse_rtranclp_into_rtranclp rtranclp.rtrancl_refl)
qed

definition wake_inv :: "u32 \<Rightarrow> wake \<Rightarrow> bool" where
  "wake_inv m w \<longleftrightarrow> chan_ok m (wk_chan w)
     \<and> (wk_buffer w \<noteq> None \<longrightarrow> wk_producer w = Stored \<and> length (submissions (wk_chan w)) < Suc (unat m))
     \<and> (wk_consumer w \<noteq> Awake \<longrightarrow> doorbell_wanted (wk_chan w))
     \<and> (wk_consumer w = Asleep \<and> submissions (wk_chan w) \<noteq> [] \<longrightarrow> wk_bell w \<or> wk_producer w = Stored)"

lemma flags_irrelevant [simp]:
  "chan_ok m (c\<lparr>chan_flags := f\<rparr>) = chan_ok m c"
  "submissions (c\<lparr>chan_flags := f\<rparr>) = submissions c"
  by (simp_all add: chan_ok_def Channel_mask_Some_iff submissions_def)

lemma armed_wanted [simp]: "doorbell_wanted (Consumer_arm_wakeup c)"
  by (simp add: doorbell_wanted_def Consumer_arm_wakeup_def chan_NEED_WAKEUP_def
      and_exp_ne_0_iff [of _ 0, simplified] bit_or_iff)

lemma wanted_store [simp]: "doorbell_wanted (store_entry m e c) = doorbell_wanted c"
  by (simp add: doorbell_wanted_def store_entry_def Producer_stage_def Let_def)

lemma wakeup_flags [simp]:
  "chan_ok m (Consumer_arm_wakeup c) = chan_ok m c"
  "submissions (Consumer_arm_wakeup c) = submissions c"
  "chan_ok m (Consumer_disarm_wakeup c) = chan_ok m c"
  "submissions (Consumer_disarm_wakeup c) = submissions c"
  by (simp_all add: Consumer_arm_wakeup_def Consumer_disarm_wakeup_def)

lemma store_entry_ok:
  assumes "chan_ok m c" "length (submissions c) < Suc (unat m)"
  shows "chan_ok m (store_entry m e c)" "submissions (store_entry m e c) = submissions c @ [e]"
proof -
  have "unat (chan_head c - chan_tail c) < length (chan_entries c)"
    using assms(2) chan_ok_facts [OF assms(1)] by simp
  then show "chan_ok m (store_entry m e c)" "submissions (store_entry m e c) = submissions c @ [e]"
    using stage_live [OF assms(1)] by (simp_all add: store_entry_def)
qed

lemma pop_Some:
  assumes "chan_ok m c" "Consumer_pop m c = (Inr (Some e), d)"
  shows "chan_ok m d" "submissions c = e # submissions d"
  using assms sq.get_cons [of m c] sq.get_empty [of m c] by (cases "submissions c"; fastforce)+

lemma pop_None:
  assumes "chan_ok m c" "Consumer_pop m c = (Inr None, d)"
  shows "d = c" "submissions c = []"
  using assms sq.get_cons [of m c] sq.get_empty [of m c] by (cases "submissions c"; fastforce)+

lemma step_wake_inv:
  assumes "wake_step m w w'" "wake_inv m w"
  shows "wake_inv m w'"
  using assms
proof (cases rule: wake_step.cases)
  case (store e)
  have ok: "chan_ok m (wk_chan w)" using assms(2) by (simp add: wake_inv_def)
  have "length (submissions (wk_chan w)) < Suc (unat m)"
    using store(3) chan_ok_facts [OF ok] used_cases [OF chan_ok_facts(1) [OF ok]]
      sq.bounded [OF ok] by (metis le_neq_implies_less order_less_irrefl)
  then show ?thesis using assms(2) store by (auto simp: wake_inv_def)
next
  case (pop e c)
  then show ?thesis using assms(2) pop_Some [of m "wk_chan w" e c] by (auto simp: wake_inv_def)
next
  case (found e c)
  then show ?thesis using assms(2) pop_Some [of m "wk_chan w" e c] by (auto simp: wake_inv_def)
next
  case (sleep c)
  then show ?thesis using assms(2) pop_None [of m "wk_chan w" c] by (auto simp: wake_inv_def)
qed (auto simp: wake_inv_def store_entry_ok)

lemma reachable_wake_inv: "(wake_step m)\<^sup>*\<^sup>* w w' \<Longrightarrow> wake_inv m w \<Longrightarrow> wake_inv m w'"
  by (induction rule: rtranclp_induct) (auto intro: step_wake_inv)

definition wake_start :: "Channel \<Rightarrow> wake" where
  "wake_start c = \<lparr>wk_chan = c, wk_buffer = None, wk_producer = Idle, wk_consumer = Awake,
     wk_bell = False\<rparr>"

lemma wake_start_inv: "chan_ok m c \<Longrightarrow> wake_inv m (wake_start c)"
  by (simp add: wake_inv_def wake_start_def)

text \<open>From an invariant state with a sleeping consumer and published work, at most two steps wake it.\<close>

lemma bell_wakes:
  assumes "wk_bell w" "wk_consumer w = Asleep"
  shows "\<exists>w'. wake_step m w w' \<and> wk_consumer w' = Awake \<and> submissions (wk_chan w') = submissions (wk_chan w)"
  by (intro exI conjI, rule wake_step.ring [OF assms]) simp_all

lemma stored_rings:
  assumes inv: "wake_inv m w" and stored: "wk_producer w = Stored" and asleep: "wk_consumer w = Asleep"
    and work: "submissions (wk_chan w) \<noteq> [] \<or> wk_buffer w \<noteq> None"
  shows "\<exists>w'. (wake_step m)\<^sup>*\<^sup>* w w' \<and> wk_bell w' \<and> wk_consumer w' = Asleep \<and> submissions (wk_chan w') \<noteq> []"
proof -
  have look: "\<exists>w'. wake_step m v w' \<and> wk_bell w' \<and> wk_consumer w' = Asleep \<and> submissions (wk_chan w') \<noteq> []"
    if "wake_inv m v" "wk_producer v = Stored" "wk_consumer v = Asleep" "wk_buffer v = None"
      "submissions (wk_chan v) \<noteq> []" for v
    by (intro exI conjI, rule wake_step.look [OF that(2,4)]) (use that in \<open>auto simp: wake_inv_def\<close>)
  show ?thesis
  proof (cases "wk_buffer w")
    case None
    then show ?thesis using look [OF inv stored asleep] work by blast
  next
    case (Some e)
    let ?v = "w\<lparr>wk_chan := store_entry m e (wk_chan w), wk_buffer := None\<rparr>"
    have step: "wake_step m w ?v" using Some by (rule wake_step.retire)
    have "submissions (wk_chan ?v) \<noteq> []" using inv Some store_entry_ok(2) by (auto simp: wake_inv_def)
    then show ?thesis
      using look [OF step_wake_inv [OF step inv]] stored asleep step
      by (metis (mono_tags, lifting) converse_rtranclp_into_rtranclp r_into_rtranclp wake.select_convs(2,3,4)
          wake.surjective wake.update_convs(1,2))
  qed
qed

text \<open>
  C23: No wakeup is lost. In every state the two ends can reach, with the producer's stores delayed
  in its store buffer, a sleeping consumer whose ring holds work either has been rung or has a
  producer between its store and its look at the flag; and from there the steps of the producer
  and the bell alone wake the consumer with the work still in the ring.
\<close>

theorem no_lost_wakeup:
  assumes "chan_ok m c" "(wake_step m)\<^sup>*\<^sup>* (wake_start c) w" "wk_consumer w = Asleep"
    "submissions (wk_chan w) \<noteq> [] \<or> wk_buffer w \<noteq> None"
  shows "(wk_producer w = Idle \<longrightarrow> wk_bell w)
    \<and> (\<exists>w'. (wake_step m)\<^sup>*\<^sup>* w w' \<and> wk_consumer w' = Awake \<and> submissions (wk_chan w') \<noteq> [])"
proof -
  have inv: "wake_inv m w" using assms(1,2) reachable_wake_inv wake_start_inv by blast
  have rung: "wk_producer w = Idle \<longrightarrow> wk_bell w \<and> submissions (wk_chan w) \<noteq> []"
    using inv assms(3,4) by (auto simp: wake_inv_def)
  have "\<exists>v. (wake_step m)\<^sup>*\<^sup>* w v \<and> wk_bell v \<and> wk_consumer v = Asleep \<and> submissions (wk_chan v) \<noteq> []"
    using rung stored_rings [OF inv] assms(3,4) producer_at.exhaust [of "wk_producer w"] by blast
  then have "\<exists>w'. (wake_step m)\<^sup>*\<^sup>* w w' \<and> wk_consumer w' = Awake \<and> submissions (wk_chan w') \<noteq> []"
    using bell_wakes by (metis rtranclp.rtrancl_into_rtrancl)
  with rung show ?thesis by blast
qed

definition asleep_with_work :: wake where
  "asleep_with_work = (wake_start (Consumer_arm_wakeup ring0))\<lparr>wk_buffer := Some Sqe_ZERO,
     wk_producer := Stored, wk_consumer := Asleep\<rparr>"

lemma asleep_with_work_reachable: "(wake_step 1)\<^sup>*\<^sup>* (wake_start ring0) asleep_with_work"
proof -
  let ?a = "(wake_start (Consumer_arm_wakeup ring0))\<lparr>wk_consumer := Armed\<rparr>"
  let ?s = "(wake_start (Consumer_arm_wakeup ring0))\<lparr>wk_consumer := Asleep\<rparr>"
  have "wake_step 1 (wake_start ring0) ?a"
    using wake_step.arm [of "wake_start ring0" 1] by (simp add: wake_start_def)
  moreover have "wake_step 1 ?a ?s"
    using wake_step.sleep [of ?a 1 "Consumer_arm_wakeup ring0"] pop_empty [of "Consumer_arm_wakeup ring0" 1]
    by (simp add: wake_start_def ring0_ok)
  moreover have "wake_step 1 ?s asleep_with_work"
    using wake_step.store [of ?s 1 Sqe_ZERO]
    by (simp add: asleep_with_work_def wake_start_def ring0_def Consumer_arm_wakeup_def)
  ultimately show ?thesis by (meson converse_rtranclp_into_rtranclp rtranclp.rtrancl_refl)
qed

theorem no_lost_wakeup_witness:
  "\<exists>w'. (wake_step 1)\<^sup>*\<^sup>* asleep_with_work w' \<and> wk_consumer w' = Awake \<and> submissions (wk_chan w') \<noteq> []"
  using no_lost_wakeup [OF ring0_ok(1) asleep_with_work_reachable]
  by (simp add: asleep_with_work_def)

end
