(* ===== verification/Ring_Service.thy ===== *)
theory Ring_Service
  imports Ring_Theorems
begin

text \<open>
  The service over the rings (\<open>execute\<close>, \<open>write_serial\<close> and \<open>Service::drain\<close> of
  \<open>src/ring/src/lib.rs\<close>). What a sink promises is the locale \<open>sink_contract\<close>, with the
  serial port of \<open>src/kernel/src/ring.rs\<close> as the sink the frame runs; \<open>drain\<close> is compared with
  executing a prefix of the queue entry by entry.
\<close>

subsection \<open>Sinks\<close>

locale sink_contract =
  fixes wr :: "'k sink_write" and got :: "'k \<Rightarrow> u8 list"
  assumes takes: "wr k bytes = (n, k') \<Longrightarrow> n \<le> length bytes \<and> got k' = got k @ take n bytes"

locale blocking_sink = sink_contract +
  assumes takes_all: "fst (wr k bytes) = length bytes"

lemma map_nth_upt: "offset + n \<le> length xs \<Longrightarrow>
    map (\<lambda>i. xs ! (offset + i)) [0..<n] = take n (drop offset xs)"
  by (rule nth_equalityI) auto

lemma copy_out_eq:
  "Arena_copy_out arena offset n =
     (if offset + n < 2 ^ 64 \<and> offset + n \<le> length arena then Some (take n (drop offset arena)) else None)"
  by (auto simp: Arena_copy_out_def usize_checked_add_def map_nth_upt)

lemma chunk_out:
  assumes "offset + len \<le> length arena" "length arena < 2 ^ 64" "written \<le> len"
  shows "Arena_copy_out arena (offset + written) (min CHUNK (len - written))
    = Some (take (min CHUNK (len - written)) (drop (offset + written) arena))"
proof -
  have "offset + written + min CHUNK (len - written) \<le> length arena"
    using assms min.cobounded2 [of CHUNK "len - written"] by linarith
  then show ?thesis using assms(2) by (simp add: copy_out_eq)
qed

lemma take_drop_add: "take a (drop i xs) @ take b (drop (i + a) xs) = take (a + b) (drop i xs)"
  by (simp add: take_add add.commute)

context sink_contract
begin

lemma write_loop_exact:
  assumes "offset + len \<le> length arena" "length arena < 2 ^ 64" "written \<le> len"
  shows "\<exists>n k'. write_loop wr arena offset len written k = (Some n, k') \<and> written \<le> n \<and> n \<le> len
    \<and> got k' = got k @ take (n - written) (drop (offset + written) arena)"
  using assms
proof (induction "len - written" arbitrary: written k rule: less_induct)
  case less
  show ?case
  proof (cases "written < len")
    case False
    then have "write_loop wr arena offset len written k = (Some written, k)"
      by (simp add: write_loop.simps)
    then show ?thesis using less.prems(3) by simp
  next
    case True
    let ?take = "min CHUNK (len - written)" and ?chunk = "take (min CHUNK (len - written)) (drop (offset + written) arena)"
    have out: "Arena_copy_out arena (offset + written) ?take = Some ?chunk"
      by (rule chunk_out [OF less.prems])
    have len: "length ?chunk = ?take" using less.prems True by simp
    obtain acc k1 where w: "wr k ?chunk = (acc, k1)" by fastforce
    have acc: "acc \<le> ?take" "got k1 = got k @ take acc (drop (offset + written) arena)"
      using takes [OF w] len by (simp_all add: min_absorb1)
    have loop: "write_loop wr arena offset len written k =
        (if acc < ?take then (Some (written + acc), k1)
         else write_loop wr arena offset len (written + acc) k1)"
      using True out w by (subst write_loop.simps) simp
    show ?thesis
    proof (cases "acc < ?take")
      case True
      then show ?thesis using loop acc(2) by (auto intro: less_imp_le)
    next
      case False
      then have eq: "acc = ?take" using acc(1) by linarith
      moreover have "0 < ?take" using True by (simp add: CHUNK_def)
      ultimately have full: "acc \<le> len - written" "0 < acc" by (simp, linarith)
      have le: "len - (written + acc) < len - written" "written + acc \<le> len" using full True by linarith+
      obtain n k' where
        "write_loop wr arena offset len (written + acc) k1 = (Some n, k')" "written + acc \<le> n" "n \<le> len"
        "got k' = got k1 @ take (n - (written + acc)) (drop (offset + (written + acc)) arena)"
        using less.hyps [of "written + acc" k1] less.prems(1,2) le by blast
      then show ?thesis
        using loop False acc(2) take_drop_add [of acc "offset + written" arena "n - (written + acc)"]
        by (auto simp: add.assoc)
    qed
  qed
qed

end

context blocking_sink
begin

lemma write_loop_all:
  assumes "offset + len \<le> length arena" "length arena < 2 ^ 64" "written \<le> len"
  shows "fst (write_loop wr arena offset len written k) = Some len"
  using assms
proof (induction "len - written" arbitrary: written k rule: less_induct)
  case less
  show ?case
  proof (cases "written < len")
    case False
    then show ?thesis using less.prems(3) by (simp add: write_loop.simps)
  next
    case True
    let ?take = "min CHUNK (len - written)"
    obtain k1 where w: "wr k (take ?take (drop (offset + written) arena)) = (?take, k1)"
      using takes_all [of k "take ?take (drop (offset + written) arena)"] less.prems True
      by (cases "wr k (take ?take (drop (offset + written) arena))") (simp add: min_absorb1)
    have "write_loop wr arena offset len written k = write_loop wr arena offset len (written + ?take) k1"
      using True w by (subst write_loop.simps) (simp only: Let_def chunk_out [OF less.prems] if_True
          option.case prod.case less_irrefl if_False)
    then show ?thesis using less.hyps [of "written + ?take" k1] less.prems True by (simp add: CHUNK_def)
  qed
qed

end

interpretation serial: blocking_sink SerialSink_write "\<lambda>sent. sent"
  by unfold_locales (auto simp: SerialSink_write_def)

subsection \<open>One entry\<close>

text \<open>
  What is wrong with an entry, if anything: the first of the checks that fails, in the order the
  service makes them, with the value it reports.
\<close>

definition fault :: "Sqe \<Rightarrow> nat \<Rightarrow> (u16 \<times> u64) option" where
  "fault e room =
     (if sqe_reserved e \<noteq> 0 then Some (argument_RESERVED_NOT_ZERO, ucast (sqe_reserved e))
      else if sqe_flags e AND NOT flags_KNOWN \<noteq> 0
      then Some (argument_UNKNOWN_FLAG, ucast (sqe_flags e AND NOT flags_KNOWN))
      else if sqe_opcode e \<noteq> op_NOP \<and> sqe_opcode e \<noteq> op_WRITE_SERIAL
      then Some (argument_UNKNOWN_OPCODE, ucast (sqe_opcode e))
      else if sqe_opcode e = op_WRITE_SERIAL \<and> unat (sqe_len e) > 2 ^ 31 - 1
      then Some (argument_BAD_ADDRESS, ucast (sqe_len e))
      else if sqe_opcode e = op_WRITE_SERIAL \<and> unat (sqe_offset e) + unat (sqe_len e) > room
      then Some (argument_BAD_ADDRESS, sqe_offset e)
      else None)"

lemma as_i32_id: "n < 2 ^ 31 \<Longrightarrow> as_i32 n = int n"
  by (simp add: as_i32_def)

lemma write_serial_bad:
  assumes "length arena < 2 ^ 64"
  shows "unat (sqe_len e) > 2 ^ 31 - 1 \<Longrightarrow>
      write_serial write e arena k = (Inl (argument_BAD_ADDRESS, ucast (sqe_len e)), k)"
    "\<not> unat (sqe_len e) > 2 ^ 31 - 1 \<Longrightarrow> unat (sqe_offset e) + unat (sqe_len e) > length arena \<Longrightarrow>
      write_serial write e arena k = (Inl (argument_BAD_ADDRESS, sqe_offset e), k)"
  using assms by (auto simp: write_serial_def Let_def usize_checked_add_def Arena_len_def)

lemma write_serial_ok:
  assumes "sink_contract write got" "length arena < 2 ^ 64" "\<not> unat (sqe_len e) > 2 ^ 31 - 1"
    "\<not> unat (sqe_offset e) + unat (sqe_len e) > length arena"
  shows "\<exists>n k'. write_serial write e arena k = (Inr (int n), k') \<and> n \<le> unat (sqe_len e)
    \<and> got k' = got k @ take n (drop (unat (sqe_offset e)) arena)"
proof -
  obtain n k' where loop:
    "write_loop write arena (unat (sqe_offset e)) (unat (sqe_len e)) 0 k = (Some n, k')"
    "n \<le> unat (sqe_len e)" "got k' = got k @ take n (drop (unat (sqe_offset e)) arena)"
    using sink_contract.write_loop_exact [OF assms(1), of "unat (sqe_offset e)" "unat (sqe_len e)" arena 0 k]
      assms by auto
  have "write_serial write e arena k = (Inr (as_i32 n), k')"
    using assms loop(1) by (simp add: write_serial_def Let_def usize_checked_add_def Arena_len_def)
  then show ?thesis using loop(2,3) assms(3) by (simp add: as_i32_id)
qed

lemma refusal_reads:
  "Cqe_is_error (refusal u (error_pack error_ARGUMENT code) detail now)"
  "Cqe_error (refusal u (error_pack error_ARGUMENT code) detail now) = Some (error_ARGUMENT, code)"
  "cqe_ext (refusal u p detail now) = detail" "cqe_user_data (refusal u p detail now) = u"
  "cqe_timestamp (refusal u p detail now) = now"
  using unpack_pack [of error_ARGUMENT code]
  by (simp_all add: Cqe_is_error_def Cqe_error_def refusal_def error_ARGUMENT_def)

lemma ops_distinct: "op_NOP \<noteq> op_WRITE_SERIAL"
  by (simp add: op_NOP_def op_WRITE_SERIAL_def)

text \<open>
  C24: Executing an entry refuses exactly the malformed ones. A refusal is posted whatever the
  flags say, carries the entry's own \<open>user_data\<close>, the first failing check as its code and the
  offending value, and nothing reaches the sink. An entry that is not malformed completes
  with a count that is not negative, unless it asked for no completion; for a write the count is
  the number of bytes the sink took, which are the leading bytes of the payload it names.
\<close>

theorem execute_exact:
  assumes sink: "sink_contract write got" and arena: "length arena < 2 ^ 64"
  shows "case fault e (length arena) of
      Some (code, detail) \<Rightarrow> (\<exists>c. execute write e arena k now = (Some c, k) \<and> Cqe_is_error c
        \<and> Cqe_error c = Some (error_ARGUMENT, code) \<and> cqe_ext c = detail
        \<and> cqe_user_data c = sqe_user_data e \<and> cqe_timestamp c = now)
    | None \<Rightarrow> (\<exists>n k'. execute write e arena k now =
          (if sqe_flags e AND flags_NO_CQE \<noteq> 0 then None
           else Some (completion (sqe_user_data e) (int n) now), k')
        \<and> n \<le> unat (sqe_len e)
        \<and> (if sqe_opcode e = op_NOP then n = 0 \<and> k' = k
           else got k' = got k @ take n (drop (unat (sqe_offset e)) arena)))"
proof (cases "fault e (length arena)")
  case (Some f)
  obtain code detail where f: "f = (code, detail)" by fastforce
  have "execute write e arena k now
      = (Some (refusal (sqe_user_data e) (error_pack error_ARGUMENT code) detail now), k)"
    using Some [unfolded f fault_def] write_serial_bad [OF arena, of e "write" k] ops_distinct
    by (auto simp: execute_def Let_def frame_op_known_def split: if_splits)
  then show ?thesis using Some by (simp add: f refusal_reads)
next
  case None
  show ?thesis
  proof (cases "sqe_opcode e = op_NOP")
    case True
    then show ?thesis using None [unfolded fault_def]
      by (auto simp: None execute_def Let_def frame_op_known_def split: if_splits)
  next
    case False
    then have opc: "sqe_opcode e = op_WRITE_SERIAL" and len: "\<not> unat (sqe_len e) > 2 ^ 31 - 1"
      and within: "\<not> unat (sqe_offset e) + unat (sqe_len e) > length arena"
      using None [unfolded fault_def] by (auto split: if_splits)
    obtain n k' where w: "write_serial write e arena k = (Inr (int n), k')" "n \<le> unat (sqe_len e)"
        "got k' = got k @ take n (drop (unat (sqe_offset e)) arena)"
      using write_serial_ok [OF sink arena len within] by blast
    have "execute write e arena k now = (if sqe_flags e AND flags_NO_CQE \<noteq> 0 then None
        else Some (completion (sqe_user_data e) (int n) now), k')"
      using None [unfolded fault_def] opc w(1) ops_distinct
      by (auto simp: execute_def Let_def frame_op_known_def split: if_splits)
    then show ?thesis using None w(2,3) False by auto
  qed
qed

definition greeting :: Sqe where
  "greeting = Sqe_ZERO\<lparr>sqe_opcode := 1, sqe_len := 2, sqe_offset := 1\<rparr>"

theorem execute_exact_witness:
  "(\<exists>n k'. execute SerialSink_write greeting [7, 8, 9] [] 5 = (Some (completion 0 (int n) 5), k')
      \<and> k' = take n [8, 9])
   \<and> (\<exists>c. execute SerialSink_write greeting [7, 8] [] 5 = (Some c, [])
      \<and> Cqe_error c = Some (error_ARGUMENT, argument_BAD_ADDRESS) \<and> cqe_ext c = 1)"
  using execute_exact [OF serial.sink_contract_axioms, of "[7, 8, 9]" greeting "[]" 5]
    execute_exact [OF serial.sink_contract_axioms, of "[7, 8]" greeting "[]" 5]
  by (auto simp: greeting_def Sqe_ZERO_def fault_def flags_NO_CQE_def op_NOP_def op_WRITE_SERIAL_def)

text \<open>
  C25: A write on the frame's serial port is complete: whatever its length, the loop over chunks
  ends, and every byte the entry names has been sent, in order, exactly once.
\<close>

theorem serial_write_complete:
  assumes "fault e (length arena) = None" "sqe_opcode e = op_WRITE_SERIAL" "length arena < 2 ^ 64"
  shows "execute SerialSink_write e arena sent now =
    (if sqe_flags e AND flags_NO_CQE \<noteq> 0 then None
     else Some (completion (sqe_user_data e) (int (unat (sqe_len e))) now),
     sent @ take (unat (sqe_len e)) (drop (unat (sqe_offset e)) arena))"
proof -
  let ?n = "unat (sqe_len e)" and ?o = "unat (sqe_offset e)"
  have len: "?n < 2 ^ 31" and within: "?o + ?n \<le> length arena"
    using assms(1,2) by (auto simp: fault_def split: if_splits)
  obtain n k' where "write_loop SerialSink_write arena ?o ?n 0 sent = (Some n, k')"
      "k' = sent @ take n (drop ?o arena)"
    using serial.write_loop_exact [OF within assms(3), of 0 sent] by auto
  moreover have "fst (write_loop SerialSink_write arena ?o ?n 0 sent) = Some ?n"
    by (rule serial.write_loop_all [OF within assms(3)]) simp
  ultimately have "write_serial SerialSink_write e arena sent = (Inr (int ?n), sent @ take ?n (drop ?o arena))"
    using len within assms(3)
    by (simp add: write_serial_def Let_def usize_checked_add_def Arena_len_def as_i32_id)
  then show ?thesis
    using assms(1,2) ops_distinct
    by (auto simp: fault_def execute_def Let_def frame_op_known_def split: if_splits)
qed

theorem serial_write_complete_witness:
  "execute SerialSink_write greeting [7, 8, 9] [4] 5 = (Some (completion 0 2 5), [4, 8, 9])"
proof -
  have "fault greeting (length [7 :: u8, 8, 9]) = None" "length [7 :: u8, 8, 9] < 2 ^ 64"
    by (simp_all add: greeting_def Sqe_ZERO_def fault_def op_NOP_def op_WRITE_SERIAL_def)
  moreover have "sqe_opcode greeting = op_WRITE_SERIAL" "unat (sqe_len greeting) = 2"
    "unat (sqe_offset greeting) = 1" "sqe_flags greeting = 0" "sqe_user_data greeting = 0"
    by (simp_all add: greeting_def Sqe_ZERO_def op_WRITE_SERIAL_def)
  ultimately show ?thesis
    using serial_write_complete [of greeting "[7, 8, 9]" "[4]" 5] by (simp only:) (simp add: take_Suc numeral_2_eq_2)
qed

subsection \<open>Draining\<close>

text \<open>Executing entries one after another: the completions they earn and the sink afterwards.\<close>

fun serve_all :: "'k sink_write \<Rightarrow> u8 list \<Rightarrow> u64 \<Rightarrow> Sqe list \<Rightarrow> 'k \<Rightarrow> Cqe list \<times> 'k" where
  "serve_all write arena now [] k = ([], k)"
| "serve_all write arena now (e # es) k =
     (let (c, k) = execute write e arena k now; (cs, k) = serve_all write arena now es k in
      (case c of None \<Rightarrow> cs | Some x \<Rightarrow> x # cs, k))"

definition svc_ok :: "'k Service \<Rightarrow> bool" where
  "svc_ok s \<longleftrightarrow> chan_ok (svc_sub_mask s) (svc_submissions s) \<and> cq_ok (svc_cq_mask s) (svc_completions s)"

definition queued :: "'k Service \<Rightarrow> Sqe list" where
  "queued s = submissions (svc_submissions s)"

definition answered :: "'k Service \<Rightarrow> Cqe list" where
  "answered s = completions (svc_completions s)"

text \<open>
  Draining from \<open>s\<close> to \<open>s'\<close> took the first \<open>n\<close> entries: they are gone from one ring, their
  completions are on the other, and \<open>d\<close> counts them on top of \<open>d0\<close>.
\<close>

definition drained_to ::
  "'k sink_write \<Rightarrow> u64 \<Rightarrow> 'k Service \<Rightarrow> Drained \<Rightarrow> nat \<Rightarrow> 'k Service \<Rightarrow> Drained \<Rightarrow> bool" where
  "drained_to write now s d0 n s' d \<longleftrightarrow>
     (let (cs, k) = serve_all write (svc_arena s) now (take n (queued s)) (svc_sink s) in
      n \<le> length (queued s) \<and> queued s' = drop n (queued s) \<and> answered s' = answered s @ cs
      \<and> svc_sink s' = k \<and> svc_ok s' \<and> svc_arena s' = svc_arena s \<and> svc_cq_mask s' = svc_cq_mask s
      \<and> drn_executed d = drn_executed d0 + of_nat n
      \<and> drn_completed d = drn_completed d0 + of_nat (length cs)
      \<and> drn_refused d = drn_refused d0 + of_nat (length (filter Cqe_is_error cs)))"

lemma drained_to_refl: "svc_ok s \<Longrightarrow> drained_to write now s d 0 s d"
  by (simp add: drained_to_def)

text \<open>One round of the loop, with the entry it takes.\<close>

definition served :: "Drained \<Rightarrow> Cqe option \<Rightarrow> Drained" where
  "served d c =
     (case c of
        None \<Rightarrow> d\<lparr>drn_executed := drn_executed d + 1\<rparr>
      | Some x \<Rightarrow> d\<lparr>drn_executed := drn_executed d + 1,
          drn_refused := drn_refused d + (if Cqe_is_error x then 1 else 0),
          drn_completed := drn_completed d + 1\<rparr>)"

lemma drain_round:
  assumes ok: "svc_ok s" and room: "length (answered s) < Suc (unat (svc_cq_mask s))"
    and q: "queued s = e # es" and ex: "execute write e (svc_arena s) (svc_sink s) now = (c, k)"
  obtains t where "drain_loop write (Suc n) now d s = drain_loop write n now (served d c) t"
    "svc_ok t" "queued t = es" "answered t = answered s @ (case c of None \<Rightarrow> [] | Some x \<Rightarrow> [x])"
    "svc_sink t = k" "svc_arena t = svc_arena s" "svc_cq_mask t = svc_cq_mask s"
proof -
  have oks: "chan_ok (svc_sub_mask s) (svc_submissions s)" "cq_ok (svc_cq_mask s) (svc_completions s)"
    using ok by (simp_all add: svc_ok_def)
  obtain f where f: "Poster_free (svc_cq_mask s) (svc_completions s) = Inr f" "f \<noteq> 0"
    using oks(2) room unfolding answered_def by (rule free_room)
  obtain c1 where pop: "Consumer_pop (svc_sub_mask s) (svc_submissions s) = (Inr (Some e), c1)"
      "chan_ok (svc_sub_mask s) c1" "submissions c1 = es"
    using sq.get_cons [OF oks(1)] q by (auto simp: queued_def)
  show thesis
  proof (cases c)
    case None
    then show thesis
      using f pop ex oks
      by (intro that [of "s\<lparr>svc_submissions := c1, svc_sink := k\<rparr>"])
        (simp_all add: Let_def served_def svc_ok_def queued_def answered_def)
  next
    case (Some x)
    obtain q1 where "Poster_post (svc_cq_mask s) x (svc_completions s) = (Inr (), q1)"
        "cq_ok (svc_cq_mask s) q1" "completions q1 = answered s @ [x]"
      using post_room [OF oks(2), of x] room by (auto simp: answered_def)
    then show thesis
      using Some f pop ex
      by (intro that [of "s\<lparr>svc_submissions := c1, svc_sink := k, svc_completions := q1\<rparr>"])
        (simp_all add: Let_def served_def svc_ok_def queued_def answered_def)
  qed
qed

lemma drain_stops:
  assumes ok: "svc_ok s" and stop: "queued s = [] \<or> length (answered s) = Suc (unat (svc_cq_mask s))"
  shows "drain_loop write n now d s = (Inr d, s)"
proof (cases n)
  case (Suc k)
  obtain f where f: "Poster_free (svc_cq_mask s) (svc_completions s) = Inr f"
      "unat f = Suc (unat (svc_cq_mask s)) - length (answered s)"
    using ok free_eq by (auto simp: svc_ok_def answered_def)
  show ?thesis
    using Suc f stop pop_empty [of "svc_submissions s" "svc_sub_mask s"] ok
    by (auto simp: queued_def unat_eq_zero)
qed simp

lemma drain_loop_exact:
  assumes "svc_ok s"
  shows "\<exists>i d' s'. drain_loop write n now d s = (Inr d', s') \<and> i \<le> n \<and> drained_to write now s d i s' d'
    \<and> (i = n \<or> queued s' = [] \<or> length (answered s') = Suc (unat (svc_cq_mask s')))"
  using assms
proof (induction n arbitrary: s d)
  case 0
  then show ?case using drained_to_refl by (auto intro!: exI [of _ 0])
next
  case (Suc n)
  show ?case
  proof (cases "queued s = [] \<or> length (answered s) = Suc (unat (svc_cq_mask s))")
    case True
    then show ?thesis
      using drain_stops [OF Suc.prems True] drained_to_refl [OF Suc.prems] by (auto intro!: exI [of _ 0])
  next
    case False
    then obtain e es where q: "queued s = e # es" by (cases "queued s") auto
    have room: "length (answered s) < Suc (unat (svc_cq_mask s))"
      using False Suc.prems cq.bounded by (fastforce simp: svc_ok_def answered_def)
    obtain c k where ex: "execute write e (svc_arena s) (svc_sink s) now = (c, k)" by fastforce
    obtain t where t: "drain_loop write (Suc n) now d s = drain_loop write n now (served d c) t"
      "svc_ok t" "queued t = es" "answered t = answered s @ (case c of None \<Rightarrow> [] | Some x \<Rightarrow> [x])"
      "svc_sink t = k" "svc_arena t = svc_arena s" "svc_cq_mask t = svc_cq_mask s"
      using drain_round [OF Suc.prems room q ex] by metis
    obtain i d' s' where IH: "drain_loop write n now (served d c) t = (Inr d', s')" "i \<le> n"
        "drained_to write now t (served d c) i s' d'"
        "i = n \<or> queued s' = [] \<or> length (answered s') = Suc (unat (svc_cq_mask s'))"
      using Suc.IH [OF t(2), of "served d c"] by blast
    have "drained_to write now s d (Suc i) s' d'"
      using IH(3) t q ex
      by (cases c) (auto simp: drained_to_def served_def split: prod.splits)
    then show ?thesis using IH(1,2,4) t(1) by (intro exI [of _ "Suc i"]) auto
  qed
qed

lemma length_serve_all:
  "serve_all write arena now es k = (cs, k') \<Longrightarrow> length cs \<le> length es"
  by (induction es arbitrary: k cs) (fastforce split: prod.splits option.splits)+

lemma unat_of_nat_u32: "n \<le> unat (b :: u32) \<Longrightarrow> unat (of_nat n :: u32) = n"
proof -
  have "unat b < 2 ^ LENGTH(32)" by (rule unsigned_less)
  moreover assume "n \<le> unat b"
  ultimately show ?thesis by (simp add: unsigned_of_nat take_bit_nat_eq_self)
qed

text \<open>
  C26: On sound rings \<open>drain\<close> succeeds and does to the two rings and the sink what executing the
  first \<open>n\<close> queued entries one by one would, for an \<open>n\<close> no larger than the budget and no larger than
  the number queued: the entries leave one ring in order, every completion they earn is on the
  other in the same order, none is dropped for want of room, and the three counts are of these
  \<open>n\<close> entries and no other. It stops short of the budget only when nothing is queued or the
  completion ring is full.
\<close>

theorem drain_exact:
  assumes "svc_ok s"
  shows "\<exists>n d s' cs k. Service_drain write budget now s = (Inr d, s')
    \<and> serve_all write (svc_arena s) now (take n (queued s)) (svc_sink s) = (cs, k)
    \<and> n \<le> unat budget \<and> n \<le> length (queued s)
    \<and> queued s' = drop n (queued s) \<and> answered s' = answered s @ cs
    \<and> svc_sink s' = k \<and> svc_ok s' \<and> svc_arena s' = svc_arena s \<and> svc_cq_mask s' = svc_cq_mask s
    \<and> unat (drn_executed d) = n \<and> unat (drn_completed d) = length cs
    \<and> unat (drn_refused d) = length (filter Cqe_is_error cs)
    \<and> (n = unat budget \<or> queued s' = [] \<or> length (answered s') = Suc (unat (svc_cq_mask s')))"
proof -
  obtain n d s' where D: "Service_drain write budget now s = (Inr d, s')" "n \<le> unat budget"
      "drained_to write now s Drained_default n s' d"
      "n = unat budget \<or> queued s' = [] \<or> length (answered s') = Suc (unat (svc_cq_mask s'))"
    using drain_loop_exact [OF assms, of "write" "unat budget" now Drained_default]
    unfolding Service_drain_def by blast
  obtain cs k where cs: "serve_all write (svc_arena s) now (take n (queued s)) (svc_sink s) = (cs, k)"
    by fastforce
  have n: "length cs \<le> unat budget" "length (filter Cqe_is_error cs) \<le> unat budget"
    using length_serve_all [OF cs] D(2) order_trans [OF length_filter_le [of Cqe_is_error cs]] by simp_all
  show ?thesis
    using D(3) unfolding drained_to_def cs
    by (intro exI [of _ n] exI [of _ d] exI [of _ s'] exI [of _ cs] exI [of _ k])
      (use D(1,2,4) cs n in \<open>simp add: Drained_default_def unat_of_nat_u32\<close>)
qed

definition svc0 :: "u8 list Service" where
  "svc0 = \<lparr>svc_submissions = snd (Producer_submit 1 greeting ring0), svc_sub_mask = 1,
     svc_completions = cring0, svc_cq_mask = 1, svc_arena = [7, 8, 9], svc_sink = []\<rparr>"

lemma svc0_ok: "svc_ok svc0" "queued svc0 = [greeting]" "answered svc0 = []"
proof -
  obtain r c where "Producer_submit 1 greeting ring0 = (Inr r, c)" "chan_ok 1 c" "submissions c = [greeting]"
    using submit_room [OF ring0_ok(1), of greeting] by (auto simp: ring0_ok(2))
  then show "svc_ok svc0" "queued svc0 = [greeting]" "answered svc0 = []"
    by (simp_all add: svc_ok_def svc0_def cring0_ok queued_def answered_def)
qed

theorem drain_exact_witness:
  "\<exists>d s'. Service_drain SerialSink_write 4 5 svc0 = (Inr d, s') \<and> queued s' = [] \<and> unat (drn_executed d) = 1"
proof -
  obtain n d s' cs where D: "Service_drain SerialSink_write 4 5 svc0 = (Inr d, s')" "n \<le> 1"
    "queued s' = drop n [greeting]" "answered s' = cs" "length cs \<le> n" "unat (drn_executed d) = n"
    "n = 4 \<or> queued s' = [] \<or> length (answered s') = 2"
    using drain_exact [OF svc0_ok(1), of SerialSink_write 4 5] svc0_ok(2,3) length_serve_all
    by (fastforce simp: svc0_def)
  then show ?thesis by (cases n) auto
qed

text \<open>
  What a drain has done to the memory when nothing is known of the cursors: \<open>i\<close> entries taken,
  \<open>j\<close> completions posted.
\<close>

definition moved :: "'k Service \<Rightarrow> nat \<Rightarrow> nat \<Rightarrow> 'k Service \<Rightarrow> bool" where
  "moved s i j s' \<longleftrightarrow> svc_submissions s' = (svc_submissions s)\<lparr>chan_tail := chan_tail (svc_submissions s) + of_nat i\<rparr>
     \<and> cq_head (svc_completions s') = cq_head (svc_completions s) + of_nat j
     \<and> cq_tail (svc_completions s') = cq_tail (svc_completions s)
     \<and> length (cq_slots (svc_completions s')) = length (cq_slots (svc_completions s))
     \<and> svc_sub_mask s' = svc_sub_mask s \<and> svc_cq_mask s' = svc_cq_mask s"

lemma moved_trans: "moved s i j t \<Longrightarrow> moved t i' j' u \<Longrightarrow> moved s (i + i') (j + j') u"
  by (simp add: moved_def add.assoc)

lemma pop_shape:
  "Consumer_pop m c = (Inl e, c') \<Longrightarrow> e = Corrupt \<and> c' = c"
  "Consumer_pop m c = (Inr None, c') \<Longrightarrow> c' = c"
  "Consumer_pop m c = (Inr (Some x), c') \<Longrightarrow> c' = c\<lparr>chan_tail := chan_tail c + 1\<rparr>"
  by (auto simp: Consumer_pop_def Let_def split: if_splits)

lemma post_shape:
  assumes "Poster_free m q = Inr f" "f \<noteq> 0"
  shows "\<exists>q'. Poster_post m x q = (Inr (), q') \<and> cq_head q' = cq_head q + 1 \<and> cq_tail q' = cq_tail q
    \<and> length (cq_slots q') = length (cq_slots q)"
  using assms by (simp add: Poster_post_def Let_def)

lemma free_corrupt: "Poster_free m q = Inl e \<Longrightarrow> e = Corrupt"
  by (auto simp: Poster_free_def Let_def split: if_splits)

text \<open>A round either ends the drain having moved nothing, or takes one entry.\<close>

lemma drain_round_cases:
  obtains (stop) r where "drain_loop write (Suc n) now d s = (r, s)" "r = Inl Corrupt \<or> r = Inr d"
  | (go) j t d' where "drain_loop write (Suc n) now d s = drain_loop write n now d' t" "j \<le> 1"
      "moved s 1 j t" "drn_executed d' = drn_executed d + 1"
      "drn_completed d' = drn_completed d + of_nat j"
proof (cases "Poster_free (svc_cq_mask s) (svc_completions s)")
  case (Inl e)
  then show thesis using free_corrupt [OF Inl] by (intro stop [of "Inl e"]) simp_all
next
  case (Inr f)
  obtain r c where pop: "Consumer_pop (svc_sub_mask s) (svc_submissions s) = (r, c)" by fastforce
  consider "f = 0" | e where "f \<noteq> 0" "r = Inl e" | "f \<noteq> 0" "r = Inr None" | e where "f \<noteq> 0" "r = Inr (Some e)"
    by (metis old.sum.exhaust not_None_eq)
  then show thesis
  proof cases
    case 1
    then show thesis using Inr by (intro stop [of "Inr d"]) simp_all
  next
    case (2 e)
    then show thesis using Inr pop pop_shape(1) [of _ _ e c] by (intro stop [of "Inl e"]) auto
  next
    case 3
    then show thesis using Inr pop pop_shape(2) [of _ _ c] by (intro stop [of "Inr d"]) auto
  next
    case (4 e)
    obtain x k where ex: "execute write e (svc_arena s) (svc_sink s) now = (x, k)" by fastforce
    have c: "c = (svc_submissions s)\<lparr>chan_tail := chan_tail (svc_submissions s) + 1\<rparr>"
      using pop 4 pop_shape(3) by blast
    show thesis
    proof (cases x)
      case None
      show thesis
        by (rule go [of "d\<lparr>drn_executed := drn_executed d + 1\<rparr>" "s\<lparr>svc_submissions := c, svc_sink := k\<rparr>" 0])
          (use Inr 4 pop ex None c in \<open>simp_all add: moved_def Let_def\<close>)
    next
      case (Some y)
      obtain q where q: "Poster_post (svc_cq_mask s) y (svc_completions s) = (Inr (), q)"
          "cq_head q = cq_head (svc_completions s) + 1" "cq_tail q = cq_tail (svc_completions s)"
          "length (cq_slots q) = length (cq_slots (svc_completions s))"
        using post_shape [OF Inr 4(1)] by blast
      show thesis
        by (rule go [of "served d (Some y)" "s\<lparr>svc_submissions := c, svc_sink := k, svc_completions := q\<rparr>" 1])
          (use Inr 4 pop ex Some c q in \<open>simp_all add: moved_def Let_def served_def\<close>)
    qed
  qed
qed

lemma drain_loop_hostile:
  assumes "drain_loop write n now d s = (r, s')"
  shows "\<exists>i j. i \<le> n \<and> j \<le> i \<and> moved s i j s'
    \<and> (r = Inl Corrupt \<or> (\<exists>d'. r = Inr d' \<and> drn_executed d' = drn_executed d + of_nat i
          \<and> drn_completed d' = drn_completed d + of_nat j))"
  using assms
proof (induction n arbitrary: s d)
  case 0
  then show ?case by (intro exI [of _ 0]) (auto simp: moved_def)
next
  case (Suc n)
  show ?case
  proof (rule drain_round_cases [of "write" n now d s])
    fix r' assume "drain_loop write (Suc n) now d s = (r', s)" "r' = Inl Corrupt \<or> r' = Inr d"
    then show ?thesis using Suc.prems by (intro exI [of _ 0]) (auto simp: moved_def)
  next
    fix j t d'
    assume go: "drain_loop write (Suc n) now d s = drain_loop write n now d' t" "j \<le> 1" "moved s 1 j t"
      "drn_executed d' = drn_executed d + 1" "drn_completed d' = drn_completed d + of_nat j"
    have "drain_loop write n now d' t = (r, s')" using Suc.prems go(1) by simp
    from Suc.IH [OF this] obtain i j' where ij: "i \<le> n" "j' \<le> i" "moved t i j' s'"
        "r = Inl Corrupt \<or> (\<exists>d''. r = Inr d'' \<and> drn_executed d'' = drn_executed d' + of_nat i
          \<and> drn_completed d'' = drn_completed d' + of_nat j')"
      by blast
    show ?thesis
      using ij go(2,4,5) moved_trans [OF go(3) ij(3)]
      by (intro exI [of _ "1 + i"] exI [of _ "j + j'"]) (auto simp: add.assoc)
  qed
qed

text \<open>
  C27: Whatever a peer has done to the cursors and the index, one call of \<open>drain\<close> takes at most
  \<open>budget\<close> entries and posts at most one completion for each. It never answers \<open>Full\<close>: it
  answers \<open>Corrupt\<close>, or counts that agree with how far its own two cursors moved. The peer's
  cursors, the index and the entries are as the peer left them.
\<close>

theorem drain_bounded:
  assumes "Service_drain write budget now s = (r, s')"
  shows "(let taken = chan_tail (svc_submissions s') - chan_tail (svc_submissions s);
              posted = cq_head (svc_completions s') - cq_head (svc_completions s) in
      taken \<le> budget \<and> posted \<le> taken
      \<and> svc_submissions s' = (svc_submissions s)\<lparr>chan_tail := chan_tail (svc_submissions s')\<rparr>
      \<and> cq_tail (svc_completions s') = cq_tail (svc_completions s)
      \<and> (r = Inl Corrupt \<or> (\<exists>d. r = Inr d \<and> drn_executed d = taken \<and> drn_completed d = posted)))"
proof -
  obtain i j where ij: "i \<le> unat budget" "j \<le> i" "moved s i j s'"
    "r = Inl Corrupt \<or> (\<exists>d. r = Inr d \<and> drn_executed d = of_nat i \<and> drn_completed d = of_nat j)"
    using drain_loop_hostile [OF assms [unfolded Service_drain_def]]
    unfolding Drained_default_def Drained.select_convs add_0 by blast
  have "(of_nat i :: u32) \<le> budget" "(of_nat j :: u32) \<le> of_nat i"
    using ij(1,2) by (simp_all add: word_le_nat_alt unat_of_nat_u32 [of _ budget])
  then show ?thesis using ij(3,4) by (auto simp: moved_def Let_def)
qed

theorem drain_bounded_witness:
  "\<exists>r s'. Service_drain SerialSink_write 3 5 (svc0\<lparr>svc_submissions := forged\<rparr>) = (r, s')
    \<and> chan_tail (svc_submissions s') - chan_tail forged \<le> 3"
proof -
  obtain r s' where r: "Service_drain SerialSink_write 3 5 (svc0\<lparr>svc_submissions := forged\<rparr>) = (r, s')"
    by fastforce
  show ?thesis using drain_bounded [OF r] r by (auto simp: Let_def)
qed

end
