(* ===== verification/Channel_Layout.thy ===== *)
theory Channel_Layout
  imports Ring_Fifo
begin

text \<open>
  How two processes agree on a channel: the header one of them writes
  (\<open>ChannelHeader\<close> in \<open>src/abi/src/lib.rs\<close>), the placement of the rings and the arena in
  the mapping (\<open>src/abi/src/layout.rs\<close>), and the end that binds to a mapping it did not make
  (\<open>src/ring/src/mapping.rs\<close>, \<open>src/ring/src/adopt.rs\<close>). A header is bytes a peer may have
  forged: whatever it says, an adopted mapping keeps every region inside the bytes mapped,
  apart from the others and aligned.
\<close>

subsection \<open>The header and the negotiation\<close>

definition ABI_VERSION :: u32 where "ABI_VERSION = 1"
definition ABI_VERSION_MIN :: u32 where "ABI_VERSION_MIN = 1"
definition CHANNEL_MAGIC :: u64 where "CHANNEL_MAGIC = 0x465f4348414e0001"

definition peer_VERSION_UNSUPPORTED :: u16 where "peer_VERSION_UNSUPPORTED = 2"
definition peer_FEATURE_REQUIRED :: u16 where "peer_FEATURE_REQUIRED = 3"

record ChannelHeader =
  hdr_magic :: u64
  hdr_features :: u64
  hdr_features_required :: u64
  hdr_abi_version :: u32
  hdr_abi_version_min :: u32
  hdr_ring_size :: u32
  hdr_sqe_offset :: u32
  hdr_cqe_offset :: u32
  hdr_epoch :: u32
  hdr_reserved :: "u32 list"

definition ChannelHeader_is_valid :: "ChannelHeader \<Rightarrow> bool" where
  "ChannelHeader_is_valid h \<longleftrightarrow> hdr_magic h = CHANNEL_MAGIC \<and> is_power_of_two (hdr_ring_size h)
     \<and> hdr_ring_size h > 0 \<and> hdr_abi_version_min h \<le> hdr_abi_version h
     \<and> hdr_reserved h = [0, 0, 0, 0]"

definition ChannelHeader_negotiate :: "ChannelHeader \<Rightarrow> u64 \<Rightarrow> u64 \<Rightarrow> i32 + Negotiated" where
  "ChannelHeader_negotiate h offers requires =
     (if \<not> ChannelHeader_is_valid h then Inl (error_pack error_ARGUMENT argument_MALFORMED_HEADER)
      else
        let version = (if hdr_abi_version h < ABI_VERSION then hdr_abi_version h else ABI_VERSION) in
        if version < hdr_abi_version_min h \<or> version < ABI_VERSION_MIN
        then Inl (error_pack error_PEER peer_VERSION_UNSUPPORTED)
        else
          let common = hdr_features h AND offers;
              peer_unmet = hdr_features_required h AND NOT common;
              local_unmet = requires AND NOT common
          in
          if peer_unmet \<noteq> 0 \<or> local_unmet \<noteq> 0 then Inl (error_pack error_PEER peer_FEATURE_REQUIRED)
          else Inr \<lparr>neg_version = version, neg_features = common\<rparr>)"

subsection \<open>The layout\<close>

definition layout_LINE :: u32 where "layout_LINE = 64"
definition layout_HEADER :: u32 where "layout_HEADER = 0"
definition layout_HEAD :: u32 where "layout_HEAD = layout_LINE"
definition layout_TAIL :: u32 where "layout_TAIL = 2 * layout_LINE"
definition layout_FLAGS :: u32 where "layout_FLAGS = layout_TAIL + 4"
definition layout_CQ_HEAD :: u32 where "layout_CQ_HEAD = 3 * layout_LINE"
definition layout_CQ_TAIL :: u32 where "layout_CQ_TAIL = 4 * layout_LINE"
definition layout_SQ_INDEX :: u32 where "layout_SQ_INDEX = 5 * layout_LINE"
definition MAX_ENTRIES :: u32 where "MAX_ENTRIES = push_bit 24 1"

record Layout =
  lay_entries :: u32
  lay_sqe :: u32
  lay_cqe :: u32
  lay_arena :: u32
  lay_arena_len :: u32

definition line_align :: "u32 \<Rightarrow> u32 option" where
  "line_align value = map_option (\<lambda>sum. sum AND NOT (layout_LINE - 1)) (checked_add value (layout_LINE - 1))"

definition Layout_new :: "u32 \<Rightarrow> u32 \<Rightarrow> Layout option" where
  "Layout_new entries arena_len =
     (if entries = 0 \<or> \<not> is_power_of_two entries \<or> entries > MAX_ENTRIES then None
      else
        Option.bind (checked_mul entries 4) (\<lambda>index_bytes.
        Option.bind (checked_add layout_SQ_INDEX index_bytes) (\<lambda>after_index.
        Option.bind (line_align after_index) (\<lambda>sqe.
        Option.bind (checked_mul entries 64) (\<lambda>sqe_bytes.
        Option.bind (checked_add sqe sqe_bytes) (\<lambda>cqe.
        Option.bind (checked_mul entries 32) (\<lambda>cqe_bytes.
        Option.bind (checked_add cqe cqe_bytes) (\<lambda>after_cqe.
        Option.bind (line_align after_cqe) (\<lambda>arena.
        if checked_add arena arena_len = None then None
        else Some \<lparr>lay_entries = entries, lay_sqe = sqe, lay_cqe = cqe, lay_arena = arena,
                   lay_arena_len = arena_len\<rparr>)))))))))"

definition Layout_adopt :: "ChannelHeader \<Rightarrow> u32 \<Rightarrow> i32 + Layout" where
  "Layout_adopt h mapping_len =
     (let malformed = error_pack error_ARGUMENT argument_MALFORMED_HEADER in
      if \<not> ChannelHeader_is_valid h then Inl malformed
      else
        case Layout_new (hdr_ring_size h) 0 of
          None \<Rightarrow> Inl malformed
        | Some computed \<Rightarrow>
            if hdr_sqe_offset h \<noteq> lay_sqe computed \<or> hdr_cqe_offset h \<noteq> lay_cqe computed
            then Inl malformed
            else
              case checked_sub mapping_len (lay_arena computed) of
                None \<Rightarrow> Inl malformed
              | Some arena_len \<Rightarrow> Inr (computed\<lparr>lay_arena_len := arena_len\<rparr>))"

definition Layout_describe :: "Layout \<Rightarrow> u32 \<Rightarrow> u64 \<Rightarrow> u64 \<Rightarrow> ChannelHeader" where
  "Layout_describe l epoch offers requires =
     \<lparr>hdr_magic = CHANNEL_MAGIC, hdr_features = offers, hdr_features_required = requires,
      hdr_abi_version = ABI_VERSION, hdr_abi_version_min = ABI_VERSION_MIN,
      hdr_ring_size = lay_entries l, hdr_sqe_offset = lay_sqe l, hdr_cqe_offset = lay_cqe l,
      hdr_epoch = epoch, hdr_reserved = [0, 0, 0, 0]\<rparr>"

definition Layout_mask :: "Layout \<Rightarrow> u32" where
  "Layout_mask l = lay_entries l - 1"

definition Layout_total :: "Layout \<Rightarrow> u32" where
  "Layout_total l = lay_arena l + lay_arena_len l"

subsection \<open>The mapping\<close>

text \<open>
  Memory is the header found at an address; a mapping is an address and what was agreed. The
  accessors answer where a region is and how many elements of it there are.
\<close>

record Mapping =
  map_base :: u64
  map_layout :: Layout
  map_agreed :: Negotiated
  map_epoch :: u32

definition Mapping_addressable :: "u64 \<Rightarrow> u32 \<Rightarrow> i32 + unit" where
  "Mapping_addressable base len =
     (let bad = error_pack error_ARGUMENT argument_BAD_ADDRESS in
      if unat base mod unat layout_LINE \<noteq> 0 then Inl bad
      else if len < 64 then Inl bad
      else Inr ())"

definition Mapping_adopt :: "(u64 \<Rightarrow> ChannelHeader) \<Rightarrow> u64 \<Rightarrow> u32 \<Rightarrow> u64 \<Rightarrow> u64 \<Rightarrow> i32 + Mapping" where
  "Mapping_adopt mem base len offers requires =
     and_then (Mapping_addressable base len) (\<lambda>_.
       let header = mem base in
       and_then (ChannelHeader_negotiate header offers requires) (\<lambda>agreed.
       and_then (Layout_adopt header len) (\<lambda>layout.
         Inr \<lparr>map_base = base, map_layout = layout, map_agreed = agreed, map_epoch = hdr_epoch header\<rparr>)))"

definition Mapping_describe ::
  "(u64 \<Rightarrow> ChannelHeader) \<Rightarrow> u64 \<Rightarrow> u32 \<Rightarrow> u32 \<Rightarrow> u32 \<Rightarrow> u64 \<Rightarrow> u64
     \<Rightarrow> (i32 + Mapping) \<times> (u64 \<Rightarrow> ChannelHeader)" where
  "Mapping_describe mem base len entries epoch offers requires =
     (let malformed = error_pack error_ARGUMENT argument_MALFORMED_HEADER in
      case Mapping_addressable base len of
        Inl e \<Rightarrow> (Inl e, mem)
      | Inr _ \<Rightarrow>
          case Layout_new entries 0 of
            None \<Rightarrow> (Inl malformed, mem)
          | Some layout \<Rightarrow>
              if Layout_total layout > len then (Inl malformed, mem)
              else
                let mem = mem(base := Layout_describe layout epoch offers requires) in
                (Mapping_adopt mem base len offers requires, mem))"

definition Mapping_at :: "Mapping \<Rightarrow> u32 \<Rightarrow> nat" where
  "Mapping_at mp offset = unat (map_base mp) + unat offset"

definition Mapping_index :: "Mapping \<Rightarrow> nat \<times> nat" where
  "Mapping_index mp = (Mapping_at mp layout_SQ_INDEX, unat (lay_entries (map_layout mp)))"

definition Mapping_entries :: "Mapping \<Rightarrow> nat \<times> nat" where
  "Mapping_entries mp =
     (Mapping_at mp (lay_sqe (map_layout mp)), unat (lay_entries (map_layout mp)))"

definition Mapping_slots :: "Mapping \<Rightarrow> nat \<times> nat" where
  "Mapping_slots mp =
     (Mapping_at mp (lay_cqe (map_layout mp)), unat (lay_entries (map_layout mp)))"

definition Mapping_arena_cells :: "Mapping \<Rightarrow> nat \<times> nat" where
  "Mapping_arena_cells mp =
     (Mapping_at mp (lay_arena (map_layout mp)), unat (lay_arena_len (map_layout mp)))"

text \<open>
  \<open>Adopted::at\<close>: the address as a peer was told it, checked before it is used as a pointer. What
  it keeps of the mapping is what \<open>bind\<close> puts back together for each call.
\<close>

record Adopted =
  adp_base :: u64
  adp_len :: u32
  adp_layout :: Layout
  adp_agreed :: Negotiated
  adp_epoch :: u32

definition adopt_addressable :: "u64 \<Rightarrow> u32 \<Rightarrow> i32 + u64" where
  "adopt_addressable base len =
     (let bad = error_pack error_ARGUMENT argument_BAD_ADDRESS in
      if base = 0 \<or> len = 0 then Inl bad else Inr base)"

definition Adopted_at :: "(u64 \<Rightarrow> ChannelHeader) \<Rightarrow> u64 \<Rightarrow> u32 \<Rightarrow> u64 \<Rightarrow> u64 \<Rightarrow> i32 + Adopted" where
  "Adopted_at mem base len offers requires =
     and_then (adopt_addressable base len) (\<lambda>pointer.
     and_then (Mapping_adopt mem pointer len offers requires) (\<lambda>bound.
       Inr \<lparr>adp_base = base, adp_len = len, adp_layout = map_layout bound,
            adp_agreed = map_agreed bound, adp_epoch = map_epoch bound\<rparr>))"

definition Adopted_bind :: "Adopted \<Rightarrow> Mapping" where
  "Adopted_bind a =
     \<lparr>map_base = adp_base a, map_layout = adp_layout a, map_agreed = adp_agreed a,
      map_epoch = adp_epoch a\<rparr>"

text \<open>
  The calls of a client and of a server: each binds the mapping again, builds the end it needs on
  the memory found there, and fails with \<open>Corrupt\<close> if the tables are not ones an end can use.
\<close>

definition Client_submit :: "Sqe \<Rightarrow> Channel \<Rightarrow> (RingError + bool) \<times> Channel" where
  "Client_submit entry c =
     (case Producer_new c of None \<Rightarrow> (Inl Corrupt, c) | Some m \<Rightarrow> Producer_submit m entry c)"

definition Client_queued :: "Channel \<Rightarrow> RingError + u32" where
  "Client_queued c = (case Producer_new c of None \<Rightarrow> Inl Corrupt | Some m \<Rightarrow> Producer_occupancy m c)"

definition Client_take :: "Completions \<Rightarrow> (RingError + Cqe option) \<times> Completions" where
  "Client_take q = (case Collector_new q of None \<Rightarrow> (Inl Corrupt, q) | Some m \<Rightarrow> Collector_take m q)"

definition Server_pop :: "Channel \<Rightarrow> (RingError + Sqe option) \<times> Channel" where
  "Server_pop c = (case Consumer_new c of None \<Rightarrow> (Inl Corrupt, c) | Some m \<Rightarrow> Consumer_pop m c)"

definition Server_free :: "Completions \<Rightarrow> RingError + u32" where
  "Server_free q = (case Poster_new q of None \<Rightarrow> Inl Corrupt | Some m \<Rightarrow> Poster_free m q)"

definition Server_post :: "Cqe \<Rightarrow> Completions \<Rightarrow> (RingError + unit) \<times> Completions" where
  "Server_post cqe q = (case Poster_new q of None \<Rightarrow> (Inl Corrupt, q) | Some m \<Rightarrow> Poster_post m cqe q)"

definition Server_arm_wakeup :: "Channel \<Rightarrow> (RingError + unit) \<times> Channel" where
  "Server_arm_wakeup c =
     (case Consumer_new c of None \<Rightarrow> (Inl Corrupt, c) | Some _ \<Rightarrow> (Inr (), Consumer_arm_wakeup c))"

definition Server_disarm_wakeup :: "Channel \<Rightarrow> (RingError + unit) \<times> Channel" where
  "Server_disarm_wakeup c =
     (case Consumer_new c of None \<Rightarrow> (Inl Corrupt, c) | Some _ \<Rightarrow> (Inr (), Consumer_disarm_wakeup c))"

end
