(* ===== verification/Layout_Theorems.thy ===== *)
theory Layout_Theorems
  imports Channel_Layout
begin

text \<open>
  The negotiation is exactly the agreement of both sides, an adopted mapping contains its regions
  whatever its header says, and a described mapping is adopted by a peer with the same layout.
\<close>

subsection \<open>Negotiation\<close>

text \<open>
  A negotiation succeeds exactly when the header is well formed, there is a version both sides
  speak, and everything either side requires is offered by both. It then agrees on a version no
  newer than either side's and not older than either's minimum, and on exactly the features both
  offer. The failures are told apart: malformed, no common version, a requirement not met.
\<close>

theorem negotiate_exact:
  "ChannelHeader_negotiate h offers requires =
     (if \<not> ChannelHeader_is_valid h then Inl (error_pack error_ARGUMENT argument_MALFORMED_HEADER)
      else if \<not> (\<exists>v. hdr_abi_version_min h \<le> v \<and> v \<le> hdr_abi_version h
                   \<and> ABI_VERSION_MIN \<le> v \<and> v \<le> ABI_VERSION)
      then Inl (error_pack error_PEER peer_VERSION_UNSUPPORTED)
      else if \<not> (\<forall>i. bit (hdr_features_required h OR requires) i \<longrightarrow> bit (hdr_features h) i \<and> bit offers i)
      then Inl (error_pack error_PEER peer_FEATURE_REQUIRED)
      else Inr \<lparr>neg_version = min (hdr_abi_version h) ABI_VERSION, neg_features = hdr_features h AND offers\<rparr>)"
proof -
  let ?v = "if hdr_abi_version h < ABI_VERSION then hdr_abi_version h else ABI_VERSION"
  have v: "?v = min (hdr_abi_version h) ABI_VERSION" by (auto simp: min_def)
  have "(\<exists>v. hdr_abi_version_min h \<le> v \<and> v \<le> hdr_abi_version h \<and> ABI_VERSION_MIN \<le> v \<and> v \<le> ABI_VERSION)
      \<longleftrightarrow> \<not> (?v < hdr_abi_version_min h \<or> ?v < ABI_VERSION_MIN)"
    by (auto simp: not_less intro: order_trans)
  moreover have "(\<forall>i. bit (hdr_features_required h OR requires) i \<longrightarrow> bit (hdr_features h) i \<and> bit offers i)
      \<longleftrightarrow> \<not> (hdr_features_required h AND NOT (hdr_features h AND offers) \<noteq> 0
             \<or> requires AND NOT (hdr_features h AND offers) \<noteq> 0)"
    unfolding and_not_eq_0_iff not_not de_Morgan_disj by (auto simp: bit_or_iff bit_and_iff)
  ultimately show ?thesis by (simp only: ChannelHeader_negotiate_def Let_def v if_not_P not_not if_cancel)
qed

subsection \<open>Regions\<close>

definition align_up :: "nat \<Rightarrow> nat" where
  "align_up v = (v + 63) div 64 * 64"

lemma align_up_bounds: "v \<le> align_up v" "align_up v < v + 64" "align_up v mod 64 = 0"
  unfolding align_up_def by (presburger, presburger, simp)

lemma and_not_eq_minus: "w AND NOT m = w - (w AND m)" for w m :: "'a::len word"
proof -
  have "(w AND NOT m) + (w AND m) = (w AND NOT m) OR (w AND m)"
    by (rule disjunctive_add) (auto simp: bit_and_iff bit_not_iff)
  also have "\<dots> = w" by (rule bit_eqI) (auto simp: bit_or_iff bit_and_iff bit_not_iff)
  finally show ?thesis by (metis add_diff_cancel)
qed

lemma unat_clear_low: "unat (w AND NOT 63) = unat w div 64 * 64" for w :: u32
proof -
  have m: "(63 :: u32) = Bit_Operations.mask 6" by (simp add: mask_eq_exp_minus_1)
  have "unat (w AND NOT 63) = unat w - unat (w AND 63)"
    by (simp only: and_not_eq_minus unat_sub_le word_and_le2)
  moreover have "unat (w AND 63) = unat w mod 64"
    unfolding m take_bit_eq_mask [symmetric] unsigned_take_bit_eq by (simp add: take_bit_eq_mod)
  ultimately show ?thesis by (simp add: minus_mod_eq_div_mult)
qed

lemma unat_and_m64: "unat (w AND - 64) = unat w div 64 * 64" for w :: u32
  using unat_clear_low [of w] by simp

lemma line_align_Some:
  "unat v + 63 < 2 ^ 32 \<Longrightarrow> \<exists>a. line_align v = Some a \<and> unat a = align_up (unat v)"
  by (simp add: line_align_def layout_LINE_def checked_add_def unat_and_m64 unat_word_ariths align_up_def)

lemma line_align_iff [checked_arith]:
  "line_align v = Some a \<longleftrightarrow> unat v + 63 < 2 ^ 32 \<and> unat a = align_up (unat v)"
proof (cases "unat v + 63 < 2 ^ 32")
  case True
  then show ?thesis using line_align_Some [of v] by (auto simp: word_unat_eq_iff)
next
  case False
  then show ?thesis by (simp add: line_align_def layout_LINE_def checked_add_def)
qed

text \<open>The numbers a layout is made of, free of wrap-around.\<close>

definition layout_inv :: "Layout \<Rightarrow> bool" where
  "layout_inv l \<longleftrightarrow>
     (let n = unat (lay_entries l); sqe = unat (lay_sqe l); cqe = unat (lay_cqe l);
          arena = unat (lay_arena l) in
      is_power_of_two (lay_entries l) \<and> 0 < n \<and> n \<le> 2 ^ 24
      \<and> sqe = align_up (320 + 4 * n) \<and> cqe = sqe + 64 * n \<and> arena = align_up (cqe + 32 * n)
      \<and> arena + unat (lay_arena_len l) < 2 ^ 32)"

lemma Layout_new_inv:
  assumes "Layout_new n a = Some l"
  shows "layout_inv l" "lay_entries l = n" "lay_arena_len l = a"
proof -
  have "n \<noteq> 0" "is_power_of_two n" "n \<le> MAX_ENTRIES"
    using assms by (auto simp: Layout_new_def not_less split: if_splits)
  then have n: "is_power_of_two n" "0 < unat n" "unat n \<le> 2 ^ 24"
    by (auto simp: MAX_ENTRIES_def word_le_nat_alt unat_gt_0)
  show "lay_entries l = n" "lay_arena_len l = a"
    using assms by (auto simp: Layout_new_def bind_eq_Some_conv split: if_splits)
  show "layout_inv l"
    using assms n
    by (auto simp: Layout_new_def bind_eq_Some_conv checked_arith layout_SQ_INDEX_def layout_LINE_def
        layout_inv_def Let_def mult.commute split: if_splits)
qed

lemma Layout_new_total:
  assumes "is_power_of_two n" "0 < unat n" "unat n \<le> 2 ^ 24"
  shows "\<exists>l. Layout_new n 0 = Some l"
proof -
  let ?n = "unat n"
  obtain i where i: "checked_mul n 4 = Some i" "unat i = ?n * 4"
    using assms by (auto simp: checked_mul_def unat_word_ariths)
  obtain ai where ai: "checked_add layout_SQ_INDEX i = Some ai" "unat ai = 320 + ?n * 4"
    using assms i by (auto simp: checked_add_def unat_word_ariths layout_SQ_INDEX_def layout_LINE_def)
  obtain sqe where sqe: "line_align ai = Some sqe" "unat sqe < 384 + ?n * 4"
    using line_align_Some [of ai] assms ai align_up_bounds(2) [of "unat ai"] by auto
  obtain s where s: "checked_mul n 64 = Some s" "unat s = ?n * 64"
    using assms by (auto simp: checked_mul_def unat_word_ariths)
  obtain cqe where cqe: "checked_add sqe s = Some cqe" "unat cqe < 384 + ?n * 68"
    using assms s sqe by (auto simp: checked_add_def unat_word_ariths)
  obtain c where c: "checked_mul n 32 = Some c" "unat c = ?n * 32"
    using assms by (auto simp: checked_mul_def unat_word_ariths)
  obtain ac where ac: "checked_add cqe c = Some ac" "unat ac < 384 + ?n * 100"
    using assms c cqe by (auto simp: checked_add_def unat_word_ariths)
  obtain arena where arena: "line_align ac = Some arena" "unat arena < 448 + ?n * 100"
    using line_align_Some [of ac] assms ac align_up_bounds(2) [of "unat ac"] by auto
  have "checked_add arena 0 \<noteq> None" using arena assms by (simp add: checked_add_def)
  moreover have "n \<noteq> 0" "\<not> n > MAX_ENTRIES"
    using assms by (auto simp: MAX_ENTRIES_def word_less_nat_alt)
  ultimately show ?thesis
    using assms(1) by (simp add: Layout_new_def i ai sqe s cqe c ac arena)
qed

lemma layout_inv_mask:
  assumes "layout_inv l"
  shows "table_mask (unat (lay_entries l)) = Some (Layout_mask l)"
  using assms by (auto simp: layout_inv_def Let_def table_mask_def Layout_mask_def)

lemma Layout_adopt_inv:
  assumes "Layout_adopt h len = Inr l"
  shows "layout_inv l" "unat (lay_arena l) + unat (lay_arena_len l) = unat len"
    "lay_entries l = hdr_ring_size h"
proof -
  obtain c where c: "Layout_new (hdr_ring_size h) 0 = Some c" and
    l: "\<exists>a. checked_sub len (lay_arena c) = Some a \<and> l = c\<lparr>lay_arena_len := a\<rparr>"
    using assms by (auto simp: Layout_adopt_def Let_def split: if_splits option.splits)
  then obtain a where a: "unat (lay_arena c) \<le> unat len" "unat a = unat len - unat (lay_arena c)"
      "l = c\<lparr>lay_arena_len := a\<rparr>"
    by (auto simp: checked_arith)
  have len: "unat len < 2 ^ LENGTH(32)" by (rule unsigned_less)
  show "unat (lay_arena l) + unat (lay_arena_len l) = unat len" using a by simp
  show "layout_inv l" using Layout_new_inv(1) [OF c] a len by (simp add: layout_inv_def Let_def)
  show "lay_entries l = hdr_ring_size h" using Layout_new_inv(2) [OF c] a by simp
qed

lemma Mapping_adopt_iff:
  "Mapping_adopt mem base len offers requires = Inr mp \<longleftrightarrow>
     Mapping_addressable base len = Inr ()
     \<and> (\<exists>agreed layout. ChannelHeader_negotiate (mem base) offers requires = Inr agreed
          \<and> Layout_adopt (mem base) len = Inr layout
          \<and> mp = \<lparr>map_base = base, map_layout = layout, map_agreed = agreed,
                map_epoch = hdr_epoch (mem base)\<rparr>)"
  by (auto simp: Mapping_adopt_def Let_def and_then_Inr_iff)

text \<open>The bytes from \<open>fst r\<close> on that \<open>snd r\<close> elements of a size take.\<close>

definition bytes :: "nat \<Rightarrow> nat \<times> nat \<Rightarrow> nat set" where
  "bytes each r = {fst r ..< fst r + each * snd r}"

text \<open>
  C28: Whatever header a peer has written, a mapping that is adopted keeps to the bytes it was
  given. The five cache lines of the header and the cursors, the index, the submission entries,
  the completion slots and the arena are pairwise disjoint and all inside the mapping; the
  entries are aligned to their 64 bytes and the slots to their 32; and both rings have a table
  an end can be built on, with the mask the layout names.
\<close>

theorem adopt_contains:
  assumes "Mapping_adopt mem base len offers requires = Inr mp"
  shows "(let mapped = bytes 1 (unat base, unat len);
              lines = bytes 64 (unat base, 5);
              index = bytes 4 (Mapping_index mp);
              entries = bytes 64 (Mapping_entries mp);
              slots = bytes 32 (Mapping_slots mp);
              arena = bytes 1 (Mapping_arena_cells mp)
          in
      lines \<union> index \<union> entries \<union> slots \<union> arena \<subseteq> mapped
      \<and> lines \<inter> (index \<union> entries \<union> slots \<union> arena) = {} \<and> index \<inter> (entries \<union> slots \<union> arena) = {}
      \<and> entries \<inter> (slots \<union> arena) = {} \<and> slots \<inter> arena = {}
      \<and> fst (Mapping_entries mp) mod 64 = 0 \<and> fst (Mapping_slots mp) mod 32 = 0
      \<and> table_mask (snd (Mapping_entries mp)) = Some (Layout_mask (map_layout mp))
      \<and> table_mask (snd (Mapping_slots mp)) = Some (Layout_mask (map_layout mp)))"
proof -
  let ?l = "map_layout mp"
  have L: "Layout_adopt (mem base) len = Inr ?l" and base: "map_base mp = base"
    and al: "unat base mod 64 = 0"
    using assms by (auto simp: Mapping_adopt_iff Mapping_addressable_def Let_def layout_LINE_def split: if_splits)
  note inv = Layout_adopt_inv [OF L]
  define n sqe cqe arena where
    "n = unat (lay_entries ?l)" and "sqe = unat (lay_sqe ?l)" and "cqe = unat (lay_cqe ?l)"
    and "arena = unat (lay_arena ?l)"
  have eqs: "sqe = align_up (320 + 4 * n)" "cqe = sqe + 64 * n" "arena = align_up (cqe + 32 * n)"
    "arena + unat (lay_arena_len ?l) = unat len"
    using inv(1,2) by (simp_all add: layout_inv_def Let_def n_def sqe_def cqe_def arena_def)
  have order: "320 + 4 * n \<le> sqe" "cqe + 32 * n \<le> arena" "sqe mod 64 = 0" "cqe mod 64 = 0"
    using align_up_bounds [of "320 + 4 * n"] align_up_bounds [of "cqe + 32 * n"] eqs by simp_all
  have "(unat base + sqe) mod 64 = 0" "(unat base + cqe) mod 32 = 0" using al order by presburger+
  moreover have "unat layout_SQ_INDEX = 320" by (simp add: layout_SQ_INDEX_def layout_LINE_def)
  ultimately show ?thesis
    using order eqs layout_inv_mask [OF inv(1)]
    unfolding Let_def bytes_def Mapping_index_def Mapping_entries_def Mapping_slots_def
      Mapping_arena_cells_def Mapping_at_def base fst_conv snd_conv
      n_def [symmetric] sqe_def [symmetric] cqe_def [symmetric] arena_def [symmetric]
    by auto
qed

definition blank :: ChannelHeader where
  "blank = \<lparr>hdr_magic = 0, hdr_features = 0, hdr_features_required = 0, hdr_abi_version = 0,
     hdr_abi_version_min = 0, hdr_ring_size = 0, hdr_sqe_offset = 0, hdr_cqe_offset = 0,
     hdr_epoch = 0, hdr_reserved = []\<rparr>"

lemma power_of_two_8: "is_power_of_two 8"
  unfolding is_power_of_two_iff by (rule exI [of _ 3]) simp

lemma layout_8: "Layout_new 8 0 = Some \<lparr>lay_entries = 8, lay_sqe = 384, lay_cqe = 896, lay_arena = 1152, lay_arena_len = 0\<rparr>"
proof -
  obtain l where l: "Layout_new 8 0 = Some l" using Layout_new_total [OF power_of_two_8] by auto
  have "unat (lay_sqe l) = 384" "unat (lay_cqe l) = 896" "unat (lay_arena l) = 1152"
    using Layout_new_inv [OF l] by (simp_all add: layout_inv_def Let_def align_up_def)
  then have "lay_sqe l = 384" "lay_cqe l = 896" "lay_arena l = 1152" by (simp_all add: word_unat_eq_iff)
  then show ?thesis using l Layout_new_inv(2,3) [OF l] by (cases l) simp
qed

text \<open>
  C29: What one process describes another adopts. If the mapping is aligned, large enough for the
  layout of the ring asked for, and neither side requires a feature the other lacks, describing
  succeeds, and a peer that then adopts the same bytes finds the same layout, reaching to the last
  byte of the mapping, the same epoch and version, and the features both offer.
\<close>

theorem describe_then_adopt:
  assumes addr: "Mapping_addressable base len = Inr ()" and new: "Layout_new entries 0 = Some l"
    and fits: "Layout_total l \<le> len"
    and req: "requires AND NOT (offers AND offers') = 0" "requires' AND NOT (offers AND offers') = 0"
  shows "\<exists>mp mp' mem'. Mapping_describe mem base len entries epoch offers requires = (Inr mp, mem')
    \<and> Mapping_adopt mem' base len offers' requires' = Inr mp'
    \<and> map_layout mp' = map_layout mp \<and> lay_entries (map_layout mp) = entries
    \<and> unat (Layout_total (map_layout mp)) = unat len
    \<and> map_epoch mp' = epoch \<and> map_epoch mp = epoch
    \<and> neg_version (map_agreed mp') = neg_version (map_agreed mp)
    \<and> neg_features (map_agreed mp') = offers AND offers'"
proof -
  note inv = Layout_new_inv [OF new]
  let ?h = "Layout_describe l epoch offers requires"
  have pow: "is_power_of_two entries" "0 < unat entries"
    using inv by (auto simp: layout_inv_def Let_def)
  have valid: "ChannelHeader_is_valid ?h"
    using inv(2) pow
    by (simp add: ChannelHeader_is_valid_def Layout_describe_def ABI_VERSION_def ABI_VERSION_MIN_def
        word_gt_0 unat_gt_0)
  have arena: "unat (lay_arena l) \<le> unat len" using fits inv(3) by (simp add: Layout_total_def word_le_nat_alt)
  let ?l = "l\<lparr>lay_arena_len := len - lay_arena l\<rparr>"
  have adopt: "Layout_adopt ?h len = Inr ?l"
    using valid new inv(2) arena
    by (simp add: Layout_adopt_def Layout_describe_def checked_sub_def word_le_nat_alt)
  have neg: "ChannelHeader_negotiate ?h o' r' = Inr \<lparr>neg_version = 1, neg_features = offers AND o'\<rparr>"
    if "requires AND NOT (offers AND o') = 0" "r' AND NOT (offers AND o') = 0" for o' r'
    using valid that
    by (simp add: ChannelHeader_negotiate_def Let_def Layout_describe_def ABI_VERSION_def ABI_VERSION_MIN_def)
  have "requires AND NOT (offers AND offers) = 0"
    using req(1) unfolding and_not_eq_0_iff by (auto simp: bit_and_iff)
  note negs = neg [OF this this] neg [OF req]
  have "unat (Layout_total ?l) = unat len" using arena by (simp add: Layout_total_def)
  then show ?thesis
    using addr new fits adopt negs inv(2)
    by (simp add: Mapping_describe_def Let_def Mapping_adopt_def Layout_describe_def not_less)
qed

lemma line_ok: "Mapping_addressable 4096 4096 = Inr ()"
  by (simp add: Mapping_addressable_def Let_def layout_LINE_def)

theorem describe_then_adopt_witness:
  "\<exists>mp mp' mem'. Mapping_describe (\<lambda>_. blank) 4096 4096 8 5 3 1 = (Inr mp, mem')
    \<and> Mapping_adopt mem' 4096 4096 7 2 = Inr mp' \<and> neg_features (map_agreed mp') = 3"
proof -
  have fits: "Layout_total \<lparr>lay_entries = 8, lay_sqe = 384, lay_cqe = 896, lay_arena = 1152,
      lay_arena_len = 0\<rparr> \<le> 4096"
    by (simp add: Layout_total_def)
  show ?thesis
    using describe_then_adopt [OF line_ok layout_8 fits, of 1 3 7 2 "\<lambda>_. blank" 5] by auto
qed

theorem adopt_contains_witness:
  "\<exists>mp. Mapping_adopt (\<lambda>_. Layout_describe \<lparr>lay_entries = 8, lay_sqe = 384, lay_cqe = 896,
        lay_arena = 1152, lay_arena_len = 0\<rparr> 0 0 0) 4096 4096 0 0 = Inr mp
     \<and> bytes 1 (Mapping_arena_cells mp) \<subseteq> bytes 1 (4096, 4096)
     \<and> bytes 32 (Mapping_slots mp) \<inter> bytes 1 (Mapping_arena_cells mp) = {}"
proof -
  let ?l = "\<lparr>lay_entries = 8, lay_sqe = 384, lay_cqe = 896, lay_arena = 1152, lay_arena_len = 0\<rparr>"
  let ?mem = "\<lambda>_ :: u64. Layout_describe ?l 0 0 0"
  have "ChannelHeader_is_valid (Layout_describe ?l 0 0 0)"
    by (simp add: ChannelHeader_is_valid_def Layout_describe_def ABI_VERSION_def ABI_VERSION_MIN_def
        power_of_two_8)
  then obtain mp where mp: "Mapping_adopt ?mem 4096 4096 0 0 = Inr mp"
    by (simp add: Mapping_adopt_def line_ok ChannelHeader_negotiate_def Let_def Layout_adopt_def
        Layout_describe_def layout_8 checked_sub_def ABI_VERSION_def ABI_VERSION_MIN_def)
  then show ?thesis using adopt_contains [OF mp] by (auto simp: Let_def)
qed

theorem negotiate_exact_witness:
  "ChannelHeader_negotiate (Layout_describe \<lparr>lay_entries = 8, lay_sqe = 384, lay_cqe = 896,
      lay_arena = 1152, lay_arena_len = 0\<rparr> 0 3 0) 1 0 = Inr \<lparr>neg_version = 1, neg_features = 1\<rparr>"
proof -
  let ?h = "Layout_describe \<lparr>lay_entries = 8, lay_sqe = 384, lay_cqe = 896, lay_arena = 1152,
      lay_arena_len = 0\<rparr> 0 3 0"
  have "ChannelHeader_is_valid ?h"
    by (simp add: ChannelHeader_is_valid_def Layout_describe_def ABI_VERSION_def ABI_VERSION_MIN_def
        power_of_two_8)
  moreover have "\<exists>v. hdr_abi_version_min ?h \<le> v \<and> v \<le> hdr_abi_version ?h \<and> ABI_VERSION_MIN \<le> v \<and> v \<le> ABI_VERSION"
    by (intro exI [of _ 1]) (simp add: Layout_describe_def ABI_VERSION_def ABI_VERSION_MIN_def)
  ultimately show ?thesis
    unfolding negotiate_exact [of ?h 1 0]
    by (simp add: Layout_describe_def ABI_VERSION_def)
qed

end
