(* ===== verification/Supervisor.thy ===== *)
theory Supervisor
  imports Control
begin

text \<open>
  What the supervisor does about a place whose occupant ended or is stuck
  (\<open>src/user/supervisor/src/policy.rs\<close>) and the restart policy of a manifest record it reads
  (\<open>src/abi/src/manifest.rs\<close>): the pause between respawns, the budget of respawns within a
  window, and the decision about one row of the board. The record carries here the fields
  the policy reads.
\<close>

subsection \<open>The restart policy of a record\<close>

definition restart_NEVER :: u8 where "restart_NEVER = 1"
definition restart_ON_FAULT :: u8 where "restart_ON_FAULT = 2"
definition restart_ALWAYS :: u8 where "restart_ALWAYS = 3"

definition restart_known :: "u8 \<Rightarrow> bool" where
  "restart_known v \<longleftrightarrow> v = restart_NEVER \<or> v = restart_ON_FAULT \<or> v = restart_ALWAYS"

record Record =
  rec_restart :: u8
  rec_backoff_first_ticks :: u32
  rec_backoff_max_ticks :: u32
  rec_max_restarts :: u32
  rec_budget_window_ticks :: u32

definition restarts_after_cause :: "Record \<Rightarrow> u64 \<Rightarrow> bool" where
  "restarts_after_cause r cause =
     (if cause = cause_FAULT \<or> cause = cause_TIMEDOUT
      then rec_restart r = restart_ON_FAULT \<or> rec_restart r = restart_ALWAYS
      else if cause = cause_EXIT then rec_restart r = restart_ALWAYS
      else False)"

definition restarts_after :: "Record \<Rightarrow> bool \<Rightarrow> bool \<Rightarrow> bool" where
  "restarts_after r faulted exited =
     restarts_after_cause r
       (if faulted then cause_FAULT else if exited then cause_EXIT else cause_STOPPED)"

definition saturating_double :: "u32 \<Rightarrow> u32" where
  "saturating_double p = (if unat p * 2 < 2 ^ 32 then p * 2 else - 1)"

fun backoff_loop :: "u32 \<Rightarrow> nat \<Rightarrow> u32 \<Rightarrow> u32" where
  "backoff_loop cap 0 pause = pause"
| "backoff_loop cap (Suc n) pause =
     (let pause = saturating_double pause in if pause \<ge> cap then cap else backoff_loop cap n pause)"

definition backoff_ticks :: "Record \<Rightarrow> u32 \<Rightarrow> u32" where
  "backoff_ticks r n = backoff_loop (rec_backoff_max_ticks r) (unat n) (rec_backoff_first_ticks r)"

datatype ManifestRefusal =
    Truncated | Unaligned | NotAManifest | Schema | RecordSize | Reserved | Count | Name | Value
  | Rights | Quantity | NotUnderThisPolicy | Order

definition check_restart :: "Record \<Rightarrow> ManifestRefusal + unit" where
  "check_restart r =
     (let quantities = [rec_backoff_first_ticks r, rec_backoff_max_ticks r, rec_max_restarts r,
                        rec_budget_window_ticks r] in
      if rec_restart r = restart_NEVER
      then if list_all (\<lambda>q. q = 0) quantities then Inr () else Inl NotUnderThisPolicy
      else if list_ex (\<lambda>q. q = 0) quantities then Inl Quantity
      else if rec_backoff_max_ticks r < rec_backoff_first_ticks r
            \<or> rec_budget_window_ticks r < rec_backoff_max_ticks r then Inl Quantity
      else Inr ())"

subsection \<open>The decision\<close>

datatype Verdict = Leave | Restart u32 | Retire

fun Verdict_to_wire :: "Verdict \<Rightarrow> u64" where
  "Verdict_to_wire Leave = 0"
| "Verdict_to_wire (Restart _) = 1"
| "Verdict_to_wire Retire = 2"

record Budget =
  bud_used :: u32
  bud_opened :: u64

definition Budget_default :: Budget where
  "Budget_default = \<lparr>bud_used = 0, bud_opened = 0\<rparr>"

definition decide :: "Record \<Rightarrow> Budget \<Rightarrow> u64 \<Rightarrow> u64 \<Rightarrow> Verdict \<times> Budget" where
  "decide r budget cause now =
     (if \<not> restarts_after_cause r cause then (Leave, budget)
      else
        let budget =
          (if saturating_sub now (bud_opened budget) \<ge> ucast (rec_budget_window_ticks r)
           then budget\<lparr>bud_used := 0, bud_opened := now\<rparr> else budget)
        in
        if bud_used budget \<ge> rec_max_restarts r then (Retire, budget)
        else (Restart (backoff_ticks r (bud_used budget)),
              budget\<lparr>bud_used := bud_used budget + 1\<rparr>))"

record Liveness =
  liv_outstanding_waits :: u64
  liv_abandoned_frames :: u64

definition fate :: "Liveness \<Rightarrow> u64 \<Rightarrow> u64 option" where
  "fate l seen =
     (if liv_abandoned_frames l \<le> seen then None
      else if liv_outstanding_waits l = 0 then None
      else Some (cause_pack cause_TIMEDOUT (liv_abandoned_frames l)))"

record Facts =
  fct_ended :: "u64 option"
  fct_occupied :: bool
  fct_taken :: bool
  fct_budget :: Budget
  fct_liveness :: Liveness
  fct_seen :: u64

record Answer =
  ans_verdict :: Verdict
  ans_budget :: Budget
  ans_stop :: "u64 option"
  ans_seen :: u64

definition answer :: "Record \<Rightarrow> Facts \<Rightarrow> u64 \<Rightarrow> Answer" where
  "answer r facts now =
     (let budget = fct_budget facts;
          seen = (if fct_occupied facts then liv_abandoned_frames (fct_liveness facts) else fct_seen facts);
          leave = (\<lambda>budget. \<lparr>ans_verdict = Leave, ans_budget = budget, ans_stop = None, ans_seen = seen\<rparr>)
      in
      if fct_taken facts then leave budget
      else
        case fct_ended facts of
          Some packed \<Rightarrow>
            (let (verdict, budget) = decide r budget (cause_of packed) now in
             \<lparr>ans_verdict = verdict, ans_budget = budget, ans_stop = None, ans_seen = seen\<rparr>)
        | None \<Rightarrow>
            if fct_occupied facts
            then (leave budget)\<lparr>ans_stop := fate (fct_liveness facts) (fct_seen facts)\<rparr>
            else if budget = Budget_default
            then \<lparr>ans_verdict = Restart 0, ans_budget = budget, ans_stop = None, ans_seen = seen\<rparr>
            else leave budget)"

subsection \<open>The pause\<close>

lemma unat_saturating_double: "unat (saturating_double p) = min (unat p * 2) (2 ^ 32 - 1)"
  by (auto simp: saturating_double_def unat_word_ariths unsigned_minus_1_eq_mask mask_eq_exp_minus_1)

lemma backoff_loop_eq:
  assumes "p \<le> cap"
  shows "unat (backoff_loop cap n p) = min (unat p * 2 ^ n) (unat cap)"
  using assms
proof (induction n arbitrary: p)
  case 0
  then show ?case by (simp add: word_le_nat_alt)
next
  case (Suc n)
  let ?d = "saturating_double p"
  have cap: "unat cap < 2 ^ LENGTH(32)" by (rule unsigned_less)
  show ?case
  proof (cases "?d \<ge> cap")
    case True
    then have "unat cap \<le> unat p * 2" by (simp add: word_le_nat_alt unat_saturating_double)
    also have "\<dots> \<le> unat p * 2 ^ Suc n" by simp
    finally show ?thesis using True by simp
  next
    case False
    then have "unat ?d = unat p * 2" using cap by (simp add: word_le_nat_alt unat_saturating_double not_le)
    then show ?thesis using False Suc.IH [of ?d] by (simp add: mult.assoc)
  qed
qed

subsection \<open>The budget\<close>

text \<open>A place decided about again and again: the causes and the ticks of its deaths, in order.\<close>

fun decide_all :: "Record \<Rightarrow> Budget \<Rightarrow> (u64 \<times> u64) list \<Rightarrow> Verdict list" where
  "decide_all r b [] = []"
| "decide_all r b ((cause, now) # ds) = (let (v, b) = decide r b cause now in v # decide_all r b ds)"

fun is_restart :: "Verdict \<Rightarrow> bool" where
  "is_restart (Restart _) = True"
| "is_restart _ = False"

definition restarts :: "Verdict list \<Rightarrow> nat" where
  "restarts vs = length (filter is_restart vs)"

lemma restarts_simps [simp]:
  "restarts [] = 0"
  "restarts (v # vs) = (if is_restart v then Suc (restarts vs) else restarts vs)"
  by (simp_all add: restarts_def)

lemma decide_within:
  assumes "saturating_sub now (bud_opened b) < ucast (rec_budget_window_ticks r)"
  shows "decide r b cause now =
    (if \<not> restarts_after_cause r cause then (Leave, b)
     else if bud_used b \<ge> rec_max_restarts r then (Retire, b)
     else (Restart (backoff_ticks r (bud_used b)), b\<lparr>bud_used := bud_used b + 1\<rparr>))"
  using assms by (auto simp: decide_def Let_def)

lemma unat_suc_below: "a < b \<Longrightarrow> unat (a + 1) = Suc (unat a)" for a b :: u32
proof -
  assume "a < b"
  moreover have "unat b < 2 ^ LENGTH(32)" by (rule unsigned_less)
  ultimately have "unat a + 1 < 2 ^ LENGTH(32)" by (simp add: word_less_nat_alt)
  then show ?thesis using unat_add_no_wrap [of a 1] by simp
qed

text \<open>While the window is open, what is left of the budget bounds the restarts.\<close>

lemma restarts_in_window:
  assumes "list_all (\<lambda>(_, now). saturating_sub now (bud_opened b) < ucast (rec_budget_window_ticks r)) ds"
  shows "restarts (decide_all r b ds) \<le> unat (rec_max_restarts r) - unat (bud_used b)"
  using assms
proof (induction ds arbitrary: b)
  case (Cons d ds)
  obtain cause now where d: "d = (cause, now)" by fastforce
  have D: "decide r b cause now =
    (if \<not> restarts_after_cause r cause then (Leave, b)
     else if bud_used b \<ge> rec_max_restarts r then (Retire, b)
     else (Restart (backoff_ticks r (bud_used b)), b\<lparr>bud_used := bud_used b + 1\<rparr>))"
    using Cons.prems d by (intro decide_within) simp
  show ?case
    using Cons.IH [of b] Cons.IH [of "b\<lparr>bud_used := bud_used b + 1\<rparr>"] Cons.prems
      unat_suc_below [of "bud_used b" "rec_max_restarts r"]
    by (auto simp: d D not_le word_less_nat_alt)
qed simp

lemma decide_reset:
  assumes "\<not> saturating_sub now (bud_opened b) < ucast (rec_budget_window_ticks r)"
    "restarts_after_cause r cause"
  shows "decide r b cause now =
    (if rec_max_restarts r = 0 then (Retire, b\<lparr>bud_used := 0, bud_opened := now\<rparr>)
     else (Restart (backoff_ticks r 0), b\<lparr>bud_used := 1, bud_opened := now\<rparr>))"
  using assms by (simp add: decide_def not_less word_le_nat_alt unat_eq_zero)

lemma window_stays_open:
  assumes "list_all (\<lambda>(_, now). a \<le> now \<and> unat now < unat a + unat (rec_budget_window_ticks r)) ds"
    "a \<le> bud_opened b"
  shows "list_all (\<lambda>(_, now). saturating_sub now (bud_opened b) < ucast (rec_budget_window_ticks r)) ds"
proof -
  have "unat (ucast (rec_budget_window_ticks r) :: u64) = unat (rec_budget_window_ticks r)"
  proof -
    have "unat (rec_budget_window_ticks r) < 2 ^ LENGTH(32)" by (rule unsigned_less)
    then show ?thesis by (simp add: unsigned_ucast_eq take_bit_nat_eq_self)
  qed
  then show ?thesis
    using assms by (auto simp: list_all_iff word_less_nat_alt word_le_nat_alt unat_saturating_sub)
qed

lemma restarts_two_windows:
  assumes "list_all (\<lambda>(_, now). a \<le> now \<and> unat now < unat a + unat (rec_budget_window_ticks r)) ds"
  shows "restarts (decide_all r b ds)
    \<le> unat (rec_max_restarts r) - unat (bud_used b) + unat (rec_max_restarts r)"
  using assms
proof (induction ds arbitrary: b)
  case (Cons d ds)
  obtain cause now where d: "d = (cause, now)" by fastforce
  have ds: "list_all (\<lambda>(_, now). a \<le> now \<and> unat now < unat a + unat (rec_budget_window_ticks r)) ds"
    and now: "a \<le> now"
    using Cons.prems d by simp_all
  show ?case
  proof (cases "saturating_sub now (bud_opened b) < ucast (rec_budget_window_ticks r)")
    case True
    show ?thesis
      using Cons.IH [OF ds, of b] Cons.IH [OF ds, of "b\<lparr>bud_used := bud_used b + 1\<rparr>"]
        unat_suc_below [of "bud_used b" "rec_max_restarts r"]
      by (auto simp: d decide_within [OF True] not_le word_less_nat_alt)
  next
    case False
    show ?thesis
    proof (cases "restarts_after_cause r cause")
      case cause: True
      have rest: "restarts (decide_all r (b\<lparr>bud_used := u, bud_opened := now\<rparr>) ds)
          \<le> unat (rec_max_restarts r) - unat u" for u
        using restarts_in_window [OF window_stays_open [OF ds, of "b\<lparr>bud_used := u, bud_opened := now\<rparr>"]] now
        by simp
      show ?thesis
        using rest [of 0] rest [of 1] unat_gt_0 [of "rec_max_restarts r"]
        by (auto simp: d decide_reset [OF False cause])
    next
      case cause: False
      then have "decide r b cause now = (Leave, b)" by (simp add: decide_def)
      then show ?thesis using Cons.IH [OF ds, of b] by (simp add: d)
    qed
  qed
qed simp

text \<open>
  C30: A place cannot be restarted in a storm. Whatever the deaths and whatever the tally at the
  start, among deaths that fall within one budget window of each other at most twice the
  record's \<open>max_restarts\<close> are answered with a restart, and at most \<open>max_restarts\<close> if the tally
  was opened within that time; and the pause before a restart is the first pause doubled once for
  each restart since the window opened, up to the cap.
\<close>

theorem restarts_bounded:
  assumes "list_all (\<lambda>(_, now). a \<le> now \<and> unat now < unat a + unat (rec_budget_window_ticks r)) ds"
    "check_restart r = Inr ()"
  shows "restarts (decide_all r b ds) \<le> 2 * unat (rec_max_restarts r)
    \<and> (a \<le> bud_opened b \<longrightarrow> restarts (decide_all r b ds) \<le> unat (rec_max_restarts r))
    \<and> unat (backoff_ticks r n) =
        min (unat (rec_backoff_first_ticks r) * 2 ^ unat n) (unat (rec_backoff_max_ticks r))"
proof -
  have "rec_backoff_first_ticks r \<le> rec_backoff_max_ticks r"
    using assms(2) by (auto simp: check_restart_def Let_def not_less split: if_splits)
  then have "unat (backoff_ticks r n) =
      min (unat (rec_backoff_first_ticks r) * 2 ^ unat n) (unat (rec_backoff_max_ticks r))"
    unfolding backoff_ticks_def by (rule backoff_loop_eq)
  moreover have "restarts (decide_all r b ds) \<le> unat (rec_max_restarts r)" if "a \<le> bud_opened b"
    using restarts_in_window [OF window_stays_open [OF assms(1) that]] by linarith
  ultimately show ?thesis using restarts_two_windows [OF assms(1), of b] by linarith
qed

definition driver :: Record where
  "driver = \<lparr>rec_restart = 2, rec_backoff_first_ticks = 10, rec_backoff_max_ticks = 80,
     rec_max_restarts = 3, rec_budget_window_ticks = 3000\<rparr>"

theorem restarts_bounded_witness:
  "restarts (decide_all driver Budget_default [(1, 5000), (1, 5100), (1, 5300), (1, 5700)]) \<le> 6
    \<and> unat (backoff_ticks driver 2) = 40"
proof -
  have "check_restart driver = Inr ()" by (simp add: check_restart_def driver_def restart_NEVER_def)
  then show ?thesis
    using restarts_bounded [of 5000 driver "[(1, 5000), (1, 5100), (1, 5300), (1, 5700)]" Budget_default 2]
    by (simp add: driver_def)
qed

subsection \<open>One row\<close>

text \<open>
  C31: What a run answers about one row. A row already taken is left. A place that has died is
  restarted only if its record restarts after the cause on the notice and the budget has room, and
  a notice that names no known cause never restarts. A live occupant is never respawned and its
  tally never touched; it is stopped only when it has abandoned frames since the last run and
  still waits, the word names the timeout, and the same reading is not named again. An empty
  place is filled only while its tally is untouched.
\<close>

theorem answer_exact:
  fixes r :: Record and facts :: Facts and now :: u64
  defines "a \<equiv> answer r facts now"
  shows "(fct_taken facts \<longrightarrow> ans_verdict a = Leave \<and> ans_stop a = None \<and> ans_budget a = fct_budget facts)
    \<and> (\<not> fct_taken facts \<longrightarrow> (\<forall>p. fct_ended facts = Some p \<longrightarrow>
          (ans_verdict a, ans_budget a) = decide r (fct_budget facts) (cause_of p) now \<and> ans_stop a = None
          \<and> (is_restart (ans_verdict a) \<longrightarrow> restarts_after_cause r (cause_of p) \<and> cause_known (cause_of p)
               \<and> bud_used (ans_budget a) \<le> rec_max_restarts r)))
    \<and> (fct_occupied facts \<and> fct_ended facts = None \<longrightarrow>
          ans_verdict a = Leave \<and> ans_budget a = fct_budget facts
          \<and> (\<forall>w. ans_stop a = Some w \<longrightarrow> cause_of w = cause_TIMEDOUT
               \<and> liv_abandoned_frames (fct_liveness facts) > fct_seen facts
               \<and> liv_outstanding_waits (fct_liveness facts) > 0
               \<and> ans_stop (answer r (facts\<lparr>fct_seen := ans_seen a\<rparr>) now) = None))
    \<and> (\<not> fct_occupied facts \<and> fct_ended facts = None \<longrightarrow>
          ans_stop a = None \<and> (ans_verdict a \<noteq> Leave \<longrightarrow> fct_budget facts = Budget_default))"
proof -
  have timeout: "cause_of (cause_pack cause_TIMEDOUT w) = cause_TIMEDOUT" for w
    by (rule cause_of_pack) (simp add: cause_TIMEDOUT_def)
  have room: "bud_used b' \<le> rec_max_restarts r \<and> restarts_after_cause r c"
    if "decide r b c now = (v, b')" "is_restart v" for b b' c v
    using that unat_suc_below [of _ "rec_max_restarts r"]
    by (auto simp: decide_def Let_def not_le word_le_nat_alt word_less_nat_alt split: if_splits)
  have known: "restarts_after_cause r c \<Longrightarrow> cause_known c" for c
    by (auto simp: restarts_after_cause_def cause_known_def split: if_splits)
  show ?thesis
    unfolding a_def answer_def Let_def
    by (auto simp: fate_def timeout word_gt_0 not_le split: prod.splits option.splits if_splits
        dest: room known)
qed

theorem answer_exact_witness:
  "ans_stop (answer driver \<lparr>fct_ended = None, fct_occupied = True, fct_taken = False,
      fct_budget = Budget_default,
      fct_liveness = \<lparr>liv_outstanding_waits = 2, liv_abandoned_frames = 4\<rparr>, fct_seen = 3\<rparr> 90)
     = Some (cause_pack cause_TIMEDOUT 4)
   \<and> ans_verdict (answer driver \<lparr>fct_ended = None, fct_occupied = True, fct_taken = False,
      fct_budget = Budget_default,
      fct_liveness = \<lparr>liv_outstanding_waits = 2, liv_abandoned_frames = 4\<rparr>, fct_seen = 3\<rparr> 90) = Leave"
  using answer_exact [of "\<lparr>fct_ended = None, fct_occupied = True, fct_taken = False,
      fct_budget = Budget_default,
      fct_liveness = \<lparr>liv_outstanding_waits = 2, liv_abandoned_frames = 4\<rparr>, fct_seen = 3\<rparr>" driver 90]
  by (simp add: answer_def fate_def)

end
