(* ===== verification/Frame_Alloc.thy ===== *)
theory Frame_Alloc
  imports Prelude "HOL-Library.Monad_Syntax"
begin

text \<open>
  Physical memory (\<open>src/kernel/src/mem.rs\<close>): a buddy allocator whose free lists live in the free
  blocks themselves. The memory is a function from addresses of 8-byte words to words; a window
  reads and writes it at a physical address, masking links with the boot's cookie. Addresses are
  natural numbers, all below \<open>2 ^ 64\<close> in a sound allocator, so no sum of them wraps; counters
  are 64-bit and saturate as in the source. An order is the number inside \<open>Order\<close>, at most 18.

  The loops that follow links end only if the lists do, so they are partial functions, whose
  value is \<open>None\<close> when they do not return.
\<close>

definition FRAME_BYTES :: nat where "FRAME_BYTES = 4096"
definition IDENTITY_LIMIT :: nat where "IDENTITY_LIMIT = 2 ^ 30"
definition LOW_MEMORY_LIMIT :: nat where "LOW_MEMORY_LIMIT = 2 ^ 20"
definition MAX_CPUS :: nat where "MAX_CPUS = 8"

subsection \<open>Orders, frames and reserved ranges\<close>

definition Order_MAX :: nat where "Order_MAX = 18"
definition Order_FRAME :: nat where "Order_FRAME = 0"
definition Order_HUGE :: nat where "Order_HUGE = 9"
definition Order_DEFAULT :: nat where "Order_DEFAULT = Order_HUGE"
definition ORDERS :: nat where "ORDERS = Order_MAX + 1"

definition Order_new :: "nat \<Rightarrow> nat option" where
  "Order_new order = (if order \<le> Order_MAX then Some order else None)"

definition Order_frames :: "nat \<Rightarrow> nat" where "Order_frames o' = 2 ^ o'"
definition Order_bytes :: "nat \<Rightarrow> nat" where "Order_bytes o' = FRAME_BYTES * 2 ^ o'"

lemma Order_bytes_pos [simp, intro]: "0 < Order_bytes o'"
  by (simp add: Order_bytes_def FRAME_BYTES_def)

definition Order_up :: "nat \<Rightarrow> nat option" where
  "Order_up o' = (if o' < Order_MAX then Some (o' + 1) else None)"

definition Order_down :: "nat \<Rightarrow> nat option" where
  "Order_down o' = (if o' = 0 then None else Some (o' - 1))"

definition Order_aligns :: "nat \<Rightarrow> nat \<Rightarrow> bool" where
  "Order_aligns o' addr \<longleftrightarrow> addr mod Order_bytes o' = 0"

text \<open>\<open>addr & bytes == 0\<close>, where \<open>bytes\<close> is a power of two: the bit is the parity of the quotient.\<close>

definition Order_is_lower :: "nat \<Rightarrow> nat \<Rightarrow> bool" where
  "Order_is_lower o' addr \<longleftrightarrow> even (addr div Order_bytes o')"

record Frame =
  frm_base :: nat
  frm_order :: nat

definition Frame_addr :: "Frame \<Rightarrow> nat" where "Frame_addr f = frm_base f"
definition Frame_bytes :: "Frame \<Rightarrow> nat" where "Frame_bytes f = Order_bytes (frm_order f)"
definition Frame_block :: "nat \<Rightarrow> nat \<Rightarrow> Frame" where "Frame_block addr order = \<lparr>frm_base = addr, frm_order = order\<rparr>"
definition Frame_from_addr :: "nat \<Rightarrow> Frame" where "Frame_from_addr addr = \<lparr>frm_base = addr, frm_order = Order_FRAME\<rparr>"

record Reserved =
  rsv_base :: nat
  rsv_end :: nat

definition sat64 :: "nat \<Rightarrow> nat" where "sat64 n = min n (2 ^ 64 - 1)"

definition Reserved_new :: "nat \<Rightarrow> nat \<Rightarrow> Reserved" where
  "Reserved_new base len = \<lparr>rsv_base = base, rsv_end = sat64 (base + len)\<rparr>"

definition Reserved_empty :: Reserved where "Reserved_empty = \<lparr>rsv_base = 0, rsv_end = 0\<rparr>"

definition Reserved_overlaps :: "Reserved \<Rightarrow> nat \<Rightarrow> nat \<Rightarrow> bool" where
  "Reserved_overlaps r base end' \<longleftrightarrow> base < rsv_end r \<and> rsv_base r < end'"

subsection \<open>The window\<close>

type_synonym memory = "nat \<Rightarrow> u64"

record Window =
  win_phys_offset :: nat
  win_limit :: nat
  win_cookie :: u64

definition Window_virt :: "Window \<Rightarrow> nat \<Rightarrow> nat" where
  "Window_virt w addr = addr + win_phys_offset w"

definition write_link :: "Window \<Rightarrow> nat \<Rightarrow> nat \<Rightarrow> memory \<Rightarrow> memory" where
  "write_link w block next m = m(block := of_nat next XOR win_cookie w)"

definition clear_link :: "nat \<Rightarrow> memory \<Rightarrow> memory" where
  "clear_link block m = m(block := 0)"

definition read_link :: "Window \<Rightarrow> nat \<Rightarrow> memory \<Rightarrow> nat" where
  "read_link w block m = unat (m block XOR win_cookie w)"

definition zero_block :: "nat \<Rightarrow> nat \<Rightarrow> memory \<Rightarrow> memory" where
  "zero_block block order m = (\<lambda>a. if block \<le> a \<and> a < block + Order_bytes order then 0 else m a)"

subsection \<open>Free lists and shards\<close>

type_synonym Lists = "nat list"

definition Lists_EMPTY :: Lists where "Lists_EMPTY = replicate ORDERS 0"

definition Lists_head :: "Lists \<Rightarrow> nat \<Rightarrow> nat" where
  "Lists_head l order = (case get_at l order of Some h \<Rightarrow> h | None \<Rightarrow> 0)"

definition Lists_set_head :: "Lists \<Rightarrow> nat \<Rightarrow> nat \<Rightarrow> Lists" where
  "Lists_set_head l order block = l[order := block]"

record Shard =
  shd_clean :: Lists
  shd_dirty :: Lists
  shd_clean_frames :: u64
  shd_dirty_frames :: u64
  shd_served :: u64
  shd_refills :: u64
  shd_remote :: u64
  shd_splits :: u64
  shd_merges :: u64

definition Shard_EMPTY :: Shard where
  "Shard_EMPTY = \<lparr>shd_clean = Lists_EMPTY, shd_dirty = Lists_EMPTY, shd_clean_frames = 0,
     shd_dirty_frames = 0, shd_served = 0, shd_refills = 0, shd_remote = 0, shd_splits = 0,
     shd_merges = 0\<rparr>"

definition Shard_lists :: "Shard \<Rightarrow> bool \<Rightarrow> Lists" where
  "Shard_lists s clean = (if clean then shd_clean s else shd_dirty s)"

definition Shard_set_lists :: "bool \<Rightarrow> Lists \<Rightarrow> Shard \<Rightarrow> Shard" where
  "Shard_set_lists clean l s = (if clean then s\<lparr>shd_clean := l\<rparr> else s\<lparr>shd_dirty := l\<rparr>)"

definition Shard_frames :: "Shard \<Rightarrow> bool \<Rightarrow> u64" where
  "Shard_frames s clean = (if clean then shd_clean_frames s else shd_dirty_frames s)"

definition Shard_set_frames :: "bool \<Rightarrow> u64 \<Rightarrow> Shard \<Rightarrow> Shard" where
  "Shard_set_frames clean n s =
     (if clean then s\<lparr>shd_clean_frames := n\<rparr> else s\<lparr>shd_dirty_frames := n\<rparr>)"

definition list_push :: "Window \<Rightarrow> bool \<Rightarrow> nat \<Rightarrow> nat \<Rightarrow> memory \<times> Shard \<Rightarrow> memory \<times> Shard" where
  "list_push w clean order block = (\<lambda>(m, s).
     (let lists = Shard_lists s clean; next = Lists_head lists order in
      (write_link w block next m, Shard_set_lists clean (Lists_set_head lists order block) s)))"

definition list_pop :: "Window \<Rightarrow> bool \<Rightarrow> nat \<Rightarrow> memory \<times> Shard \<Rightarrow> nat option \<times> Shard" where
  "list_pop w clean order = (\<lambda>(m, s).
     (let lists = Shard_lists s clean; block = Lists_head lists order in
      if block = 0 then (None, s)
      else (Some block,
            Shard_set_lists clean (Lists_set_head lists order (read_link w block m)) s)))"

definition give :: "Window \<Rightarrow> nat \<Rightarrow> bool \<Rightarrow> nat \<Rightarrow> memory \<times> Shard \<Rightarrow> memory \<times> Shard" where
  "give w order clean block st =
     (case list_push w clean order block st of
        (m, s) \<Rightarrow>
          (m, Shard_set_frames clean
                (saturating_add (Shard_frames s clean) (of_nat (Order_frames order))) s))"

function split_down ::
  "Window \<Rightarrow> bool \<Rightarrow> nat \<Rightarrow> nat \<Rightarrow> nat \<Rightarrow> memory \<times> Shard \<Rightarrow> memory \<times> Shard" where
  "split_down w clean block at to st =
     (if at > to
      then case Order_down at of
          None \<Rightarrow> st
        | Some lower \<Rightarrow>
            (case list_push w clean lower (block + Order_bytes lower) st of
               (m, s) \<Rightarrow>
                 split_down w clean block lower to
                   (m, s\<lparr>shd_splits := saturating_add (shd_splits s) 1\<rparr>))
      else st)"
  by pat_completeness auto
termination
  by (relation "measure (\<lambda>(_, _, _, at, _, _). at)") (auto simp: Order_down_def split: if_splits)

declare split_down.simps [simp del]

function pop_split_from ::
  "Window \<Rightarrow> nat \<Rightarrow> bool \<Rightarrow> nat \<Rightarrow> memory \<times> Shard \<Rightarrow> nat option \<times> memory \<times> Shard" where
  "pop_split_from w order clean at st =
     (case list_pop w clean at st of
        (Some block, s) \<Rightarrow>
          (case split_down w clean block at order (fst st, s) of
             (m, s) \<Rightarrow>
               (Some block, m,
                Shard_set_frames clean
                  (saturating_sub (Shard_frames s clean) (of_nat (Order_frames order))) s))
      | (None, s) \<Rightarrow>
          (case Order_up at of
             None \<Rightarrow> (None, fst st, s)
           | Some up \<Rightarrow> pop_split_from w order clean up (fst st, s)))"
  by pat_completeness auto
termination
  by (relation "measure (\<lambda>(_, _, _, at, _). Order_MAX - at)") (auto simp: Order_up_def split: if_splits)

declare pop_split_from.simps [simp del]

definition pop_split ::
  "Window \<Rightarrow> nat \<Rightarrow> bool \<Rightarrow> memory \<times> Shard \<Rightarrow> nat option \<times> memory \<times> Shard" where
  "pop_split w order clean st = pop_split_from w order clean order st"

text \<open>\<open>checked_add\<close> on addresses.\<close>

definition addr_checked_add :: "nat \<Rightarrow> nat \<Rightarrow> nat option" where
  "addr_checked_add a b = (if a + b < 2 ^ 64 then Some (a + b) else None)"

function carve_order :: "nat \<Rightarrow> nat \<Rightarrow> nat \<Rightarrow> nat" where
  "carve_order at end' order =
     (case Order_up order of
        None \<Rightarrow> order
      | Some up \<Rightarrow>
          if \<not> Order_aligns up at then order
          else
            (case addr_checked_add at (Order_bytes up) of
               Some stop \<Rightarrow> if stop \<le> end' then carve_order at end' up else order
             | None \<Rightarrow> order))"
  by pat_completeness auto
termination
  by (relation "measure (\<lambda>(_, _, order). Order_MAX - order)") (auto simp: Order_up_def split: if_splits)

declare carve_order.simps [simp del]

function carve :: "Window \<Rightarrow> nat \<Rightarrow> nat \<Rightarrow> memory \<times> Shard \<Rightarrow> memory \<times> Shard" where
  "carve w at end' st =
     (if at < end'
      then let order = carve_order at end' Order_FRAME in
        carve w (at + Order_bytes order) end' (give w order False at st)
      else st)"
  by pat_completeness auto
termination
  by (relation "measure (\<lambda>(_, at, end', _). end' - at)") (auto intro!: diff_less_mono2 Order_bytes_pos)

declare carve.simps [simp del]

subsection \<open>Sorting a list in place\<close>

partial_function (option) merge_loop ::
  "Window \<Rightarrow> memory \<Rightarrow> nat \<Rightarrow> nat \<Rightarrow> nat \<Rightarrow> memory option" where
  "merge_loop w m a b tail =
     (if a \<noteq> 0 \<and> b \<noteq> 0
      then if a \<le> b
        then merge_loop w (write_link w tail a m) (read_link w a m) b a
        else merge_loop w (write_link w tail b m) a (read_link w b m) b
      else Some (write_link w tail (if a \<noteq> 0 then a else b) m))"

definition merge_sorted :: "Window \<Rightarrow> memory \<Rightarrow> nat \<Rightarrow> nat \<Rightarrow> (nat \<times> memory) option" where
  "merge_sorted w m a b =
     (if a = 0 then Some (b, m)
      else if b = 0 then Some (a, m)
      else if a \<le> b
        then do { m \<leftarrow> merge_loop w m (read_link w a m) b a; Some (a, m) }
        else do { m \<leftarrow> merge_loop w m a (read_link w b m) b; Some (b, m) })"

fun sort_place ::
  "Window \<Rightarrow> memory \<Rightarrow> nat \<Rightarrow> nat list \<Rightarrow> (nat list \<times> nat \<times> memory) option" where
  "sort_place w m carry [] = Some ([], carry, m)"
| "sort_place w m carry (slot # slots) =
     (if slot = 0 then Some (carry # slots, 0, m)
      else do {
        (carry, m) \<leftarrow> merge_sorted w m slot carry;
        (slots, carry, m) \<leftarrow> sort_place w m carry slots;
        Some (0 # slots, carry, m) })"

partial_function (option) sort_fill ::
  "Window \<Rightarrow> memory \<Rightarrow> nat \<Rightarrow> nat list \<Rightarrow> (nat list \<times> memory) option" where
  "sort_fill w m head pending =
     (if head = 0 then Some (pending, m)
      else do {
        (pending, carry, m') \<leftarrow> sort_place w (write_link w head 0 m) head pending;
        sort_fill w m' (read_link w head m) (if carry \<noteq> 0 then pending[0 := carry] else pending) })"

fun sort_join :: "Window \<Rightarrow> memory \<Rightarrow> nat \<Rightarrow> nat list \<Rightarrow> (nat \<times> memory) option" where
  "sort_join w m out [] = Some (out, m)"
| "sort_join w m out (slot # slots) =
     do { (out, m) \<leftarrow> merge_sorted w m out slot; sort_join w m out slots }"

definition sort_list :: "Window \<Rightarrow> memory \<Rightarrow> nat \<Rightarrow> (nat \<times> memory) option" where
  "sort_list w m head =
     do { (pending, m) \<leftarrow> sort_fill w m head (replicate 64 0); sort_join w m 0 pending }"

subsection \<open>Coalescing\<close>

text \<open>
  The inner loop walks a sorted list of one order and one cleanness, pushing each pair of buddies
  one order up and every other block back where it was.
\<close>

partial_function (option) coalesce_walk ::
  "Window \<Rightarrow> bool \<Rightarrow> nat \<Rightarrow> nat \<Rightarrow> nat \<Rightarrow> nat \<Rightarrow> nat \<Rightarrow> memory \<times> Shard
     \<Rightarrow> (nat \<times> memory \<times> Shard) option" where
  "coalesce_walk w clean budget order up at merged st =
     (if at = 0 then Some (merged, st)
      else
        let next = read_link w at (fst st) in
        if next \<noteq> 0 \<and> merged < budget \<and> Order_is_lower order at \<and> next = at + Order_bytes order
        then
          let after = read_link w next (fst st);
              m = (if clean then clear_link next (fst st) else fst st);
              (m, s) = list_push w clean up at (m, snd st)
          in
          coalesce_walk w clean budget order up after (merged + 1)
            (m, s\<lparr>shd_merges := saturating_add (shd_merges s) 1\<rparr>)
        else coalesce_walk w clean budget order up next merged (list_push w clean order at st))"

definition coalesce_class ::
  "Window \<Rightarrow> nat \<Rightarrow> nat \<Rightarrow> nat \<Rightarrow> bool \<Rightarrow> nat \<times> memory \<times> Shard \<Rightarrow> (nat \<times> memory \<times> Shard) option" where
  "coalesce_class w budget order up clean = (\<lambda>(merged, m, s).
     (let head = Lists_head (Shard_lists s clean) order;
          s = Shard_set_lists clean (Lists_set_head (Shard_lists s clean) order 0) s
      in do {
        (at, m) \<leftarrow> sort_list w m head;
        coalesce_walk w clean budget order up at merged (m, s) }))"

text \<open>\<open>for clean in [false, true]\<close>, left as soon as the budget is spent.\<close>

definition coalesce_order ::
  "Window \<Rightarrow> nat \<Rightarrow> nat \<Rightarrow> nat \<Rightarrow> nat \<times> memory \<times> Shard \<Rightarrow> (nat \<times> memory \<times> Shard) option" where
  "coalesce_order w budget order up st =
     (if fst st \<ge> budget then Some st
      else do {
        st \<leftarrow> coalesce_class w budget order up False st;
        if fst st \<ge> budget then Some st else coalesce_class w budget order up True st })"

function coalesce_from ::
  "Window \<Rightarrow> nat \<Rightarrow> nat \<Rightarrow> nat \<times> memory \<times> Shard \<Rightarrow> (nat \<times> memory \<times> Shard) option" where
  "coalesce_from w budget order st =
     (case Order_up order of
        None \<Rightarrow> Some st
      | Some up \<Rightarrow> do { st \<leftarrow> coalesce_order w budget order up st; coalesce_from w budget up st })"
  by pat_completeness auto
termination
  by (relation "measure (\<lambda>(_, _, order, _). Order_MAX - order)") (auto simp: Order_up_def split: if_splits)

declare coalesce_from.simps [simp del]

definition coalesce_shard ::
  "Window \<Rightarrow> nat \<Rightarrow> memory \<times> Shard \<Rightarrow> (nat \<times> memory \<times> Shard) option" where
  "coalesce_shard w budget = (\<lambda>(m, s). coalesce_from w budget Order_FRAME (0, m, s))"

subsection \<open>The frontier\<close>

record Run =
  run_next :: nat
  run_end :: nat

definition UNTOUCHED_RUNS :: nat where "UNTOUCHED_RUNS = 64"

record Frontier =
  frt_runs :: "Run list"
  frt_count :: nat
  frt_frames :: u64

definition Frontier_EMPTY :: Frontier where
  "Frontier_EMPTY = \<lparr>frt_runs = replicate UNTOUCHED_RUNS \<lparr>run_next = 0, run_end = 0\<rparr>,
     frt_count = 0, frt_frames = 0\<rparr>"

definition Frontier_accept :: "nat \<Rightarrow> nat \<Rightarrow> Frontier \<Rightarrow> bool \<times> Frontier" where
  "Frontier_accept start end' f =
     (if frt_count f \<ge> UNTOUCHED_RUNS \<or> frt_count f \<ge> length (frt_runs f) then (False, f)
      else (True, f\<lparr>frt_runs := (frt_runs f)[frt_count f := \<lparr>run_next = start, run_end = end'\<rparr>],
                    frt_count := frt_count f + 1,
                    frt_frames := saturating_add (frt_frames f) (of_nat ((end' - start) div FRAME_BYTES))\<rparr>))"

text \<open>\<open>checked_next_multiple_of\<close>.\<close>

definition next_multiple :: "nat \<Rightarrow> nat \<Rightarrow> nat" where
  "next_multiple a span = (a + span - 1) div span * span"

definition checked_next_multiple :: "nat \<Rightarrow> nat \<Rightarrow> nat option" where
  "checked_next_multiple a span = (let n = next_multiple a span in if n < 2 ^ 64 then Some n else None)"

text \<open>What one run can give: the aligned block and where it stops.\<close>

definition run_offers :: "nat \<Rightarrow> Run \<Rightarrow> (nat \<times> nat) option" where
  "run_offers span run =
     (case checked_next_multiple (run_next run) span of
        None \<Rightarrow> None
      | Some aligned \<Rightarrow>
          (case addr_checked_add aligned span of
             None \<Rightarrow> None
           | Some stop \<Rightarrow> if stop > run_end run then None else Some (aligned, stop)))"

fun Frontier_take_from ::
  "nat \<Rightarrow> nat \<Rightarrow> Frontier \<Rightarrow> (nat \<times> nat \<times> nat) option \<times> Frontier" where
  "Frontier_take_from span 0 f = (None, f)"
| "Frontier_take_from span (Suc index) f =
     (case get_at (frt_runs f) index of
        None \<Rightarrow> Frontier_take_from span index f
      | Some run \<Rightarrow>
          (case run_offers span run of
             None \<Rightarrow> Frontier_take_from span index f
           | Some (aligned, stop) \<Rightarrow>
               let frames = saturating_sub (frt_frames f) (of_nat ((stop - run_next run) div FRAME_BYTES));
                   runs = (frt_runs f)[index := run\<lparr>run_next := stop\<rparr>];
                   last = frt_count f - 1
               in
               (Some (aligned, run_next run, aligned),
                if stop \<ge> run_end run
                then f\<lparr>frt_frames := frames,
                       frt_runs := (if index \<noteq> last
                                    then case get_at runs last of
                                        Some moved \<Rightarrow> runs[index := moved] | None \<Rightarrow> runs
                                    else runs),
                       frt_count := last\<rparr>
                else f\<lparr>frt_frames := frames, frt_runs := runs\<rparr>)))"

definition Frontier_take :: "nat \<Rightarrow> Frontier \<Rightarrow> (nat \<times> nat \<times> nat) option \<times> Frontier" where
  "Frontier_take order f = Frontier_take_from (Order_bytes order) (frt_count f) f"

function refill_from ::
  "Window \<Rightarrow> nat \<Rightarrow> nat \<Rightarrow> Frontier \<times> memory \<times> Shard \<Rightarrow> bool \<times> Frontier \<times> memory \<times> Shard" where
  "refill_from w order want = (\<lambda>(f, st).
     (case Frontier_take want f of
        (Some (block, gap_start, gap_end), f) \<Rightarrow>
          (True, f, give w want False block (carve w gap_start gap_end st))
      | (None, f) \<Rightarrow>
          (case Order_down want of
             None \<Rightarrow> (False, f, st)
           | Some down \<Rightarrow> if down < order then (False, f, st) else refill_from w order down (f, st))))"
  by pat_completeness auto
termination
  by (relation "measure (\<lambda>(_, _, want). want)") (auto simp: Order_down_def split: if_splits)

declare refill_from.simps [simp del]

definition refill ::
  "Window \<Rightarrow> nat \<Rightarrow> Frontier \<times> memory \<times> Shard \<Rightarrow> bool \<times> Frontier \<times> memory \<times> Shard" where
  "refill w order st = refill_from w order (if order > Order_DEFAULT then order else Order_DEFAULT) st"

subsection \<open>The allocator\<close>

datatype Source = FromShard | FromFrontier

definition record_path :: "Source \<Rightarrow> bool \<Rightarrow> Shard \<Rightarrow> Shard" where
  "record_path source stolen s =
     (if stolen then s\<lparr>shd_remote := saturating_add (shd_remote s) 1\<rparr>
      else case source of
          FromShard \<Rightarrow> s\<lparr>shd_served := saturating_add (shd_served s) 1\<rparr>
        | FromFrontier \<Rightarrow> s\<lparr>shd_refills := saturating_add (shd_refills s) 1\<rparr>)"

definition attempt ::
  "Window \<Rightarrow> nat \<Rightarrow> bool \<Rightarrow> Frontier \<times> memory \<times> Shard
     \<Rightarrow> (nat \<times> Source \<times> bool) option \<times> Frontier \<times> memory \<times> Shard" where
  "attempt w order prefer_clean = (\<lambda>(f, st).
     (let (first, st) = (if prefer_clean then pop_split w order True st else (None, st)) in
      case first of
        Some block \<Rightarrow> (Some (block, FromShard, True), f, st)
      | None \<Rightarrow>
          (case pop_split w order False st of
             (Some block, st) \<Rightarrow> (Some (block, FromShard, False), f, st)
           | (None, st) \<Rightarrow>
               (let (refilled, f, st) = refill w order (f, st);
                    (second, st) = (if refilled then pop_split w order False st else (None, st))
                in
                case second of
                  Some block \<Rightarrow> (Some (block, FromFrontier, False), f, st)
                | None \<Rightarrow>
                    if prefer_clean then (None, f, st)
                    else
                      (case pop_split w order True st of
                         (Some block, st) \<Rightarrow> (Some (block, FromShard, True), f, st)
                       | (None, st) \<Rightarrow> (None, f, st))))))"

record FrameAllocator =
  fa_shards :: "Shard list"
  fa_frontier :: Frontier
  fa_map :: Window
  fa_total :: u64
  fa_unreachable :: nat

definition FrameAllocator_new :: "u64 \<Rightarrow> FrameAllocator" where
  "FrameAllocator_new cookie = \<lparr>fa_shards = replicate MAX_CPUS Shard_EMPTY, fa_frontier = Frontier_EMPTY,
     fa_map = \<lparr>win_phys_offset = 0, win_limit = IDENTITY_LIMIT, win_cookie = cookie\<rparr>,
     fa_total = 0, fa_unreachable = 0\<rparr>"

definition FrameAllocator_virt :: "FrameAllocator \<Rightarrow> Frame \<Rightarrow> nat" where
  "FrameAllocator_virt fa f = Window_virt (fa_map fa) (frm_base f)"

definition FrameAllocator_rebind :: "nat \<Rightarrow> nat \<Rightarrow> FrameAllocator \<Rightarrow> FrameAllocator" where
  "FrameAllocator_rebind phys_offset limit fa =
     fa\<lparr>fa_map := (fa_map fa)\<lparr>win_phys_offset := phys_offset, win_limit := limit\<rparr>, fa_unreachable := 0\<rparr>"

definition FrameAllocator_sum :: "(Shard \<Rightarrow> u64) \<Rightarrow> FrameAllocator \<Rightarrow> u64" where
  "FrameAllocator_sum pick fa = foldl (\<lambda>total s. saturating_add total (pick s)) 0 (fa_shards fa)"

definition FrameAllocator_free_count :: "FrameAllocator \<Rightarrow> u64" where
  "FrameAllocator_free_count fa =
     saturating_add (frt_frames (fa_frontier fa))
       (FrameAllocator_sum (\<lambda>s. shd_clean_frames s + shd_dirty_frames s) fa)"

definition FrameAllocator_clean_count :: "FrameAllocator \<Rightarrow> u64" where
  "FrameAllocator_clean_count fa = FrameAllocator_sum shd_clean_frames fa"

definition FrameAllocator_dirty_count :: "FrameAllocator \<Rightarrow> u64" where
  "FrameAllocator_dirty_count fa =
     saturating_add (frt_frames (fa_frontier fa)) (FrameAllocator_sum shd_dirty_frames fa)"

definition FrameAllocator_total_count :: "FrameAllocator \<Rightarrow> u64" where
  "FrameAllocator_total_count fa = fa_total fa"

definition FrameAllocator_unreachable_count :: "FrameAllocator \<Rightarrow> nat" where
  "FrameAllocator_unreachable_count fa = fa_unreachable fa"

definition FrameAllocator_served_count :: "FrameAllocator \<Rightarrow> u64" where
  "FrameAllocator_served_count fa = FrameAllocator_sum shd_served fa"

definition FrameAllocator_refill_count :: "FrameAllocator \<Rightarrow> u64" where
  "FrameAllocator_refill_count fa = FrameAllocator_sum shd_refills fa"

definition FrameAllocator_remote_count :: "FrameAllocator \<Rightarrow> u64" where
  "FrameAllocator_remote_count fa = FrameAllocator_sum shd_remote fa"

definition FrameAllocator_split_count :: "FrameAllocator \<Rightarrow> u64" where
  "FrameAllocator_split_count fa = FrameAllocator_sum shd_splits fa"

definition FrameAllocator_merge_count :: "FrameAllocator \<Rightarrow> u64" where
  "FrameAllocator_merge_count fa = FrameAllocator_sum shd_merges fa"

partial_function (option) count_blocks :: "Window \<Rightarrow> memory \<Rightarrow> nat \<Rightarrow> u64 \<Rightarrow> u64 option" where
  "count_blocks w m at count =
     (if at = 0 then Some count else count_blocks w m (read_link w at m) (saturating_add count 1))"

text \<open>
  The core an operation runs on is its argument \<open>cpu\<close>; \<open>PerCpu::at\<close> asserts that it is below
  \<open>MAX_CPUS\<close>, the number of shards.
\<close>

definition FrameAllocator_free_blocks :: "nat \<Rightarrow> nat \<Rightarrow> memory \<times> FrameAllocator \<Rightarrow> u64 option" where
  "FrameAllocator_free_blocks cpu order = (\<lambda>(m, fa).
     do { n \<leftarrow> count_blocks (fa_map fa) m (Lists_head (shd_clean (fa_shards fa ! cpu)) order) 0;
          count_blocks (fa_map fa) m (Lists_head (shd_dirty (fa_shards fa ! cpu)) order) n })"

definition FrameAllocator_accept ::
  "nat \<Rightarrow> nat \<Rightarrow> nat \<Rightarrow> memory \<times> FrameAllocator \<Rightarrow> memory \<times> FrameAllocator" where
  "FrameAllocator_accept cpu start end' = (\<lambda>(m, fa).
     (let fa = fa\<lparr>fa_total := saturating_add (fa_total fa) (of_nat ((end' - start) div FRAME_BYTES))\<rparr> in
      case Frontier_accept start end' (fa_frontier fa) of
        (True, f) \<Rightarrow> (m, fa\<lparr>fa_frontier := f\<rparr>)
      | (False, f) \<Rightarrow>
          (case carve (fa_map fa) start end' (m, fa_shards fa ! cpu) of
             (m, s) \<Rightarrow> (m, fa\<lparr>fa_frontier := f, fa_shards := (fa_shards fa)[cpu := s]\<rparr>))))"

function region_filter ::
  "nat \<Rightarrow> nat \<Rightarrow> nat \<Rightarrow> nat \<Rightarrow> Reserved list \<Rightarrow> nat \<Rightarrow> nat \<Rightarrow> memory \<times> FrameAllocator
     \<Rightarrow> nat \<times> nat \<times> memory \<times> FrameAllocator" where
  "region_filter cpu threshold frames_end reach reserved frame run st =
     (if frame < threshold \<and> frame < frames_end
      then let end' = frame + FRAME_BYTES;
               usable = (frame \<ge> LOW_MEMORY_LIMIT \<and> \<not> list_ex (\<lambda>r. Reserved_overlaps r frame end') reserved);
               st = (if usable \<and> end' > reach
                     then (fst st, (snd st)\<lparr>fa_unreachable := fa_unreachable (snd st) + 1\<rparr>) else st)
           in
           if usable \<and> end' \<le> reach
           then region_filter cpu threshold frames_end reach reserved end' (if run = 0 then frame else run) st
           else if run \<noteq> 0
           then region_filter cpu threshold frames_end reach reserved end' 0
                  (FrameAllocator_accept cpu run frame st)
           else region_filter cpu threshold frames_end reach reserved end' run st
      else (frame, run, st))"
  by pat_completeness auto
termination
  by (relation "measure (\<lambda>(_, _, frames_end, _, _, frame, _, _). frames_end - frame)")
    (auto simp: FRAME_BYTES_def)

declare region_filter.simps [simp del]

definition add_region ::
  "nat \<Rightarrow> nat \<Rightarrow> nat \<Rightarrow> Reserved list \<Rightarrow> memory \<times> FrameAllocator \<Rightarrow> memory \<times> FrameAllocator" where
  "add_region cpu base len reserved st =
     (let region_end = sat64 (base + len);
          frames_end = region_end div FRAME_BYTES * FRAME_BYTES;
          frame = next_multiple base FRAME_BYTES;
          ceiling = foldl max 0 (map rsv_end reserved);
          threshold = max ceiling LOW_MEMORY_LIMIT;
          reach = win_limit (fa_map (snd st)) div FRAME_BYTES * FRAME_BYTES;
          (frame, run, st) = region_filter cpu threshold frames_end reach reserved frame 0 st;
          rest = min frames_end reach;
          run = (if frame < rest \<and> run = 0 then frame else run);
          frame = (if frame < rest then rest else frame);
          (m, fa) = (if run \<noteq> 0 then FrameAllocator_accept cpu run frame st else st)
      in
      if frame < frames_end
      then (m, fa\<lparr>fa_unreachable := fa_unreachable fa + (frames_end - frame) div FRAME_BYTES\<rparr>)
      else (m, fa))"

text \<open>
  \<open>steal\<close>: every order from the one asked for up, and at each order every other core, dirty
  lists before clean ones.
\<close>

fun steal_from ::
  "Window \<Rightarrow> nat \<Rightarrow> (nat \<times> bool) list \<Rightarrow> nat \<Rightarrow> memory \<times> Shard list \<Rightarrow> bool \<times> memory \<times> Shard list" where
  "steal_from w me [] at st = (False, st)"
| "steal_from w me ((cpu, clean) # rest) at st =
     (if cpu = me then steal_from w me rest at st
      else
        (case list_pop w clean at (fst st, snd st ! cpu) of
           (None, _) \<Rightarrow> steal_from w me rest at st
         | (Some block, victim) \<Rightarrow>
             (let victim = Shard_set_frames clean
                    (saturating_sub (Shard_frames victim clean) (of_nat (Order_frames at))) victim;
                  shards = (snd st)[cpu := victim];
                  (m, mine) = give w at clean block (fst st, shards ! me)
              in (True, m, shards[me := mine]))))"

function steal_order ::
  "Window \<Rightarrow> nat \<Rightarrow> nat \<Rightarrow> memory \<times> Shard list \<Rightarrow> bool \<times> memory \<times> Shard list" where
  "steal_order w me at st =
     (case steal_from w me (List.product [0..<MAX_CPUS] [False, True]) at st of
        (True, st) \<Rightarrow> (True, st)
      | (False, st) \<Rightarrow>
          (case Order_up at of None \<Rightarrow> (False, st) | Some up \<Rightarrow> steal_order w me up st))"
  by pat_completeness auto
termination
  by (relation "measure (\<lambda>(_, _, at, _). Order_MAX - at)") (auto simp: Order_up_def split: if_splits)

declare steal_order.simps [simp del]

definition steal ::
  "Window \<Rightarrow> nat \<Rightarrow> nat \<Rightarrow> memory \<times> Shard list \<Rightarrow> bool \<times> memory \<times> Shard list" where
  "steal w me order st = steal_order w me order st"

text \<open>\<open>attempt\<close> and \<open>coalesce_shard\<close> on the shard of one core.\<close>

definition attempt_on ::
  "nat \<Rightarrow> nat \<Rightarrow> bool \<Rightarrow> memory \<times> FrameAllocator
     \<Rightarrow> (nat \<times> Source \<times> bool) option \<times> memory \<times> FrameAllocator" where
  "attempt_on cpu order prefer_clean = (\<lambda>(m, fa).
     (case attempt (fa_map fa) order prefer_clean (fa_frontier fa, m, fa_shards fa ! cpu) of
        (hit, f, m, s) \<Rightarrow> (hit, m, fa\<lparr>fa_frontier := f, fa_shards := (fa_shards fa)[cpu := s]\<rparr>)))"

definition coalesce_on :: "nat \<Rightarrow> nat \<Rightarrow> memory \<times> FrameAllocator \<Rightarrow> (nat \<times> memory \<times> FrameAllocator) option" where
  "coalesce_on cpu budget = (\<lambda>(m, fa).
     do { (merged, m, s) \<leftarrow> coalesce_shard (fa_map fa) budget (m, fa_shards fa ! cpu);
          Some (merged, m, fa\<lparr>fa_shards := (fa_shards fa)[cpu := s]\<rparr>) })"

definition record_on :: "nat \<Rightarrow> Source \<Rightarrow> bool \<Rightarrow> FrameAllocator \<Rightarrow> FrameAllocator" where
  "record_on cpu source stolen fa =
     fa\<lparr>fa_shards := (fa_shards fa)[cpu := record_path source stolen (fa_shards fa ! cpu)]\<rparr>"

definition FrameAllocator_take ::
  "nat \<Rightarrow> nat \<Rightarrow> bool \<Rightarrow> memory \<times> FrameAllocator
     \<Rightarrow> ((nat \<times> bool) option \<times> memory \<times> FrameAllocator) option" where
  "FrameAllocator_take cpu order prefer_clean st =
     (case attempt_on cpu order prefer_clean st of
        (Some (block, source, clean), m, fa) \<Rightarrow>
          Some (Some (block, clean), m, record_on cpu source False fa)
      | (None, st) \<Rightarrow>
          do {
            (_, st) \<leftarrow> coalesce_on cpu (2 ^ 64 - 1) st;
            (case attempt_on cpu order prefer_clean st of
               (Some (block, source, clean), m, fa) \<Rightarrow>
                 Some (Some (block, clean), m, record_on cpu source False fa)
             | (None, m, fa) \<Rightarrow>
                 (case steal (fa_map fa) cpu order (m, fa_shards fa) of
                    (False, m, shards) \<Rightarrow> Some (None, m, fa\<lparr>fa_shards := shards\<rparr>)
                  | (True, m, shards) \<Rightarrow>
                      (case attempt_on cpu order prefer_clean (m, fa\<lparr>fa_shards := shards\<rparr>) of
                         (Some (block, source, clean), m, fa) \<Rightarrow>
                           Some (Some (block, clean), m, record_on cpu source True fa)
                       | (None, st) \<Rightarrow> Some (None, st))))
          })"

definition FrameAllocator_alloc ::
  "nat \<Rightarrow> nat \<Rightarrow> memory \<times> FrameAllocator \<Rightarrow> (Frame option \<times> memory \<times> FrameAllocator) option" where
  "FrameAllocator_alloc cpu order st =
     do { (hit, st) \<leftarrow> FrameAllocator_take cpu order False st;
          Some (map_option (\<lambda>(block, _). \<lparr>frm_base = block, frm_order = order\<rparr>) hit, st) }"

definition FrameAllocator_alloc_zeroed ::
  "nat \<Rightarrow> nat \<Rightarrow> memory \<times> FrameAllocator \<Rightarrow> (Frame option \<times> memory \<times> FrameAllocator) option" where
  "FrameAllocator_alloc_zeroed cpu order st =
     do { (hit, m, fa) \<leftarrow> FrameAllocator_take cpu order True st;
          (case hit of
             None \<Rightarrow> Some (None, m, fa)
           | Some (block, clean) \<Rightarrow>
               Some (Some \<lparr>frm_base = block, frm_order = order\<rparr>,
                     if clean then clear_link block m else zero_block block order m, fa)) }"

definition FrameAllocator_free ::
  "nat \<Rightarrow> Frame \<Rightarrow> memory \<times> FrameAllocator \<Rightarrow> memory \<times> FrameAllocator" where
  "FrameAllocator_free cpu frame = (\<lambda>(m, fa).
     (case give (fa_map fa) (frm_order frame) False (frm_base frame) (m, fa_shards fa ! cpu) of
        (m, s) \<Rightarrow> (m, fa\<lparr>fa_shards := (fa_shards fa)[cpu := s]\<rparr>)))"

definition FrameAllocator_coalesce ::
  "nat \<Rightarrow> nat \<Rightarrow> memory \<times> FrameAllocator \<Rightarrow> (nat \<times> memory \<times> FrameAllocator) option" where
  "FrameAllocator_coalesce cpu budget st = coalesce_on cpu budget st"

text \<open>
  \<open>scrub\<close>: the largest order within what is left of the budget, then downwards until a dirty
  block is found; with none, one refill and again. A round that finds a block zeroes at least one
  frame of the budget, and a refill is followed by such a round.
\<close>

function scrub_want :: "nat \<Rightarrow> nat \<Rightarrow> nat" where
  "scrub_want left want =
     (case Order_up want of
        None \<Rightarrow> want
      | Some up \<Rightarrow> if Order_frames up \<le> left then scrub_want left up else want)"
  by pat_completeness auto
termination
  by (relation "measure (\<lambda>(_, want). Order_MAX - want)") (auto simp: Order_up_def split: if_splits)

declare scrub_want.simps [simp del]

function scrub_pop ::
  "Window \<Rightarrow> nat \<Rightarrow> memory \<times> Shard \<Rightarrow> (nat \<times> nat) option \<times> memory \<times> Shard" where
  "scrub_pop w want st =
     (case pop_split w want False st of
        (Some block, st) \<Rightarrow> (Some (block, want), st)
      | (None, st) \<Rightarrow>
          (case Order_down want of None \<Rightarrow> (None, st) | Some down \<Rightarrow> scrub_pop w down st))"
  by pat_completeness auto
termination
  by (relation "measure (\<lambda>(_, want, _). want)") (auto simp: Order_down_def split: if_splits)

declare scrub_pop.simps [simp del]

partial_function (option) scrub_loop ::
  "Window \<Rightarrow> nat \<Rightarrow> nat \<Rightarrow> Frontier \<times> memory \<times> Shard \<Rightarrow> (nat \<times> Frontier \<times> memory \<times> Shard) option" where
  "scrub_loop w budget done st =
     (if done < budget
      then
        (case scrub_pop w (scrub_want (budget - done) Order_FRAME) (snd st) of
           (Some (block, order), m, s) \<Rightarrow>
             scrub_loop w budget (sat64 (done + Order_frames order))
               (fst st, give w order True block (zero_block block order m, s))
         | (None, st') \<Rightarrow>
             (case refill w Order_FRAME (fst st, st') of
                (refilled, st) \<Rightarrow> if refilled then scrub_loop w budget done st else Some (done, st)))
      else Some (done, st))"

definition FrameAllocator_scrub ::
  "nat \<Rightarrow> nat \<Rightarrow> memory \<times> FrameAllocator \<Rightarrow> (nat \<times> memory \<times> FrameAllocator) option" where
  "FrameAllocator_scrub cpu budget = (\<lambda>(m, fa).
     do { (done, f, m, s) \<leftarrow> scrub_loop (fa_map fa) budget 0 (fa_frontier fa, m, fa_shards fa ! cpu);
          Some (done, m, fa\<lparr>fa_frontier := f, fa_shards := (fa_shards fa)[cpu := s]\<rparr>) })"

end
