(* ===== verification/Frame_Lists.thy ===== *)
theory Frame_Lists
  imports Frame_Alloc "HOL-Library.Multiset"
begin

text \<open>
  The free lists of one shard as lists of block addresses, and what they hold as a multiset of
  frame addresses. Every operation on a shard is an equation between such multisets: splitting a
  block, carving a run or merging two buddies changes the blocks and not the frames.
\<close>

subsection \<open>Frames\<close>

definition frame_at :: "nat \<Rightarrow> nat" where
  "frame_at x = x div FRAME_BYTES * FRAME_BYTES"

definition run_frames :: "nat \<Rightarrow> nat \<Rightarrow> nat multiset" where
  "run_frames a b = mset (filter (\<lambda>x. x mod FRAME_BYTES = 0) [a..<b])"

definition fr :: "nat \<Rightarrow> nat \<Rightarrow> nat multiset" where
  "fr o' a = run_frames a (a + Order_bytes o')"

definition frl :: "nat \<Rightarrow> nat list \<Rightarrow> nat multiset" where
  "frl o' xs = \<Sum>\<^sub># (image_mset (fr o') (mset xs))"

lemma frl_simps [simp]:
  "frl o' [] = {#}"
  "frl o' (x # xs) = fr o' x + frl o' xs"
  "frl o' (xs @ ys) = frl o' xs + frl o' ys"
  "frl o' (rev xs) = frl o' xs"
  by (simp_all add: frl_def)

lemma frl_mset: "mset xs = mset ys \<Longrightarrow> frl o' xs = frl o' ys"
  by (simp add: frl_def)

lemma run_frames_split: "a \<le> b \<Longrightarrow> b \<le> c \<Longrightarrow> run_frames a c = run_frames a b + run_frames b c"
  using upt_add_eq_append [of a b "c - b"] by (simp add: run_frames_def)

lemma run_frames_empty [simp]: "run_frames a a = {#}"
  by (simp add: run_frames_def)

lemma in_run_frames: "x \<in># run_frames a b \<longleftrightarrow> a \<le> x \<and> x < b \<and> x mod FRAME_BYTES = 0"
  by (auto simp: run_frames_def)

lemma count_run_frames: "count (run_frames a b) x \<le> 1"
proof -
  have "distinct (filter (\<lambda>x. x mod FRAME_BYTES = 0) [a..<b])" by simp
  then show ?thesis unfolding run_frames_def distinct_count_atmost_1 by (metis le_refl zero_le_one)
qed

lemma bytes_Suc: "Order_bytes (Suc o') = Order_bytes o' + Order_bytes o'"
  by (simp add: Order_bytes_def)

lemma fr_Suc: "fr (Suc o') a = fr o' a + fr o' (a + Order_bytes o')"
  unfolding fr_def bytes_Suc by (subst run_frames_split [of a "a + Order_bytes o'"]) (simp_all add: add.assoc)

lemma frame_dvd_bytes: "FRAME_BYTES dvd Order_bytes o'"
  by (simp add: Order_bytes_def)

lemma in_fr: "x \<in># fr o' a \<longleftrightarrow> a \<le> x \<and> x < a + Order_bytes o' \<and> x mod FRAME_BYTES = 0"
  by (auto simp: fr_def in_run_frames)

lemma aligned_frame: "Order_aligns o' a \<Longrightarrow> a mod FRAME_BYTES = 0"
  using frame_dvd_bytes [of o'] by (auto simp: Order_aligns_def intro: dvd_trans)

lemma base_in_fr: "Order_aligns o' a \<Longrightarrow> a \<in># fr o' a"
  by (simp add: in_fr aligned_frame)

lemma frame_at_id: "x mod FRAME_BYTES = 0 \<Longrightarrow> frame_at x = x"
  by (auto simp: frame_at_def)

lemma frame_at_mod [simp]: "frame_at x mod FRAME_BYTES = 0"
  by (simp add: frame_at_def)

text \<open>The words of a block are those whose frame is one of its frames.\<close>

lemma word_in_block:
  assumes "Order_aligns o' a"
  shows "a \<le> x \<and> x < a + Order_bytes o' \<longleftrightarrow> frame_at x \<in># fr o' a"
proof -
  have F: "0 < FRAME_BYTES" by (simp add: FRAME_BYTES_def)
  obtain j where j: "a = j * FRAME_BYTES" using aligned_frame [OF assms] by (metis dvd_def mod_0_imp_dvd mult.commute)
  have "a \<le> x \<longleftrightarrow> a \<le> frame_at x"
    using F by (simp add: j frame_at_def less_eq_div_iff_mult_less_eq)
  moreover have "x < a + Order_bytes o' \<longleftrightarrow> frame_at x < a + Order_bytes o'"
  proof -
    have b: "a + Order_bytes o' = (j + 2 ^ o') * FRAME_BYTES" by (simp add: j Order_bytes_def algebra_simps)
    show ?thesis unfolding b frame_at_def using F
      by (metis div_less_iff_less_mult mult_less_cancel2)
  qed
  ultimately show ?thesis by (simp add: in_fr)
qed

text \<open>Frames a sound allocator may hold: each once, each a nonzero frame address below \<open>2 ^ 64\<close>.\<close>

definition frames_wf :: "nat multiset \<Rightarrow> bool" where
  "frames_wf R \<longleftrightarrow> (\<forall>f. count R f \<le> 1) \<and> (\<forall>f \<in># R. f mod FRAME_BYTES = 0 \<and> 0 < f \<and> f < 2 ^ 64)"

lemma frames_wf_sub: "frames_wf (A + B) \<Longrightarrow> frames_wf A"
  by (auto simp: frames_wf_def intro: order_trans [OF le_add1])

lemma frames_wf_disjoint: "frames_wf (A + B) \<Longrightarrow> x \<in># A \<Longrightarrow> x \<notin># B"
proof
  assume "frames_wf (A + B)" "x \<in># A" "x \<in># B"
  then have "count A x + count B x \<le> 1" "0 < count A x" "0 < count B x"
    by (auto simp: frames_wf_def)
  then show False by simp
qed

lemma frames_wf_D: "frames_wf R \<Longrightarrow> f \<in># R \<Longrightarrow> f mod FRAME_BYTES = 0 \<and> 0 < f \<and> f < 2 ^ 64"
  by (simp add: frames_wf_def)

lemma frames_wf_size_52:
  assumes "frames_wf R"
  shows "size R \<le> 2 ^ 52"
proof -
  have one: "\<forall>f \<in># R. count R f = 1"
  proof
    fix f assume "f \<in># R"
    moreover have "count R f \<le> 1" using assms by (simp add: frames_wf_def)
    ultimately show "count R f = 1" by (simp add: le_Suc_eq flip: count_greater_zero_iff)
  qed
  have "size R = (\<Sum>f \<in> set_mset R. count R f)" by (rule size_multiset_overloaded_eq)
  also have "\<dots> = card (set_mset R)" using one by (simp cong: sum.cong)
  also have "\<dots> \<le> card ((\<lambda>i. i * FRAME_BYTES) ` {..< 2 ^ 52})"
  proof (rule card_mono)
    show "set_mset R \<subseteq> (\<lambda>i. i * FRAME_BYTES) ` {..< 2 ^ 52}"
    proof
      fix f assume "f \<in># R"
      then have "f mod FRAME_BYTES = 0" "f < 2 ^ 64" using frames_wf_D [OF assms] by auto
      then have "f = f div FRAME_BYTES * FRAME_BYTES" "f div FRAME_BYTES < 2 ^ 52"
        by (auto simp: FRAME_BYTES_def)
      then show "f \<in> (\<lambda>i. i * FRAME_BYTES) ` {..< 2 ^ 52}" by blast
    qed
  qed simp
  also have "\<dots> \<le> 2 ^ 52" by (rule order_trans [OF card_image_le]) simp_all
  finally show ?thesis .
qed

lemma frames_wf_size: "frames_wf R \<Longrightarrow> size R < 2 ^ 64"
  by (drule frames_wf_size_52) simp

subsection \<open>Links\<close>

lemma read_write_link [simp]: "next < 2 ^ 64 \<Longrightarrow> read_link w b (write_link w b next m) = next"
  by (simp add: read_link_def write_link_def xor.assoc unsigned_of_nat take_bit_nat_eq_self)

lemma read_link_cong: "m' b = m b \<Longrightarrow> read_link w b m' = read_link w b m"
  by (simp add: read_link_def)

lemma write_link_other [simp]: "x \<noteq> b \<Longrightarrow> write_link w b next m x = m x"
  by (simp add: write_link_def)

fun linked :: "Window \<Rightarrow> memory \<Rightarrow> nat \<Rightarrow> nat list \<Rightarrow> bool" where
  "linked w m h [] \<longleftrightarrow> h = 0"
| "linked w m h (x # xs) \<longleftrightarrow> h = x \<and> x \<noteq> 0 \<and> linked w m (read_link w x m) xs"

lemma linked_cong: "(\<And>x. x \<in> set xs \<Longrightarrow> m' x = m x) \<Longrightarrow> linked w m' h xs = linked w m h xs"
proof (induction xs arbitrary: h)
  case (Cons x xs)
  then have "m' x = m x" by simp
  then have "read_link w x m' = read_link w x m" by (rule read_link_cong)
  moreover have "linked w m' k xs = linked w m k xs" for k using Cons by simp
  ultimately show ?case by simp
qed simp

lemma linked_head_0 [simp]: "linked w m 0 xs \<longleftrightarrow> xs = []"
  by (cases xs) auto

lemma linked_head: "linked w m h xs \<Longrightarrow> h \<noteq> 0 \<Longrightarrow> \<exists>ys. xs = h # ys"
  by (cases xs) auto

text \<open>Memory that differs only inside the frames of \<open>R\<close>.\<close>

definition mem_keeps :: "memory \<Rightarrow> memory \<Rightarrow> nat multiset \<Rightarrow> bool" where
  "mem_keeps m m' R \<longleftrightarrow> (\<forall>x. frame_at x \<notin># R \<longrightarrow> m' x = m x)"

lemma mem_keeps_refl [simp]: "mem_keeps m m R"
  by (simp add: mem_keeps_def)

lemma mem_keeps_trans: "mem_keeps m m' R \<Longrightarrow> mem_keeps m' m'' S \<Longrightarrow> mem_keeps m m'' (R + S)"
  by (simp add: mem_keeps_def)

lemma mem_keeps_mono: "mem_keeps m m' R \<Longrightarrow> set_mset R \<subseteq> set_mset S \<Longrightarrow> mem_keeps m m' S"
  by (auto simp: mem_keeps_def)

lemma mem_keeps_write: "b \<in># R \<Longrightarrow> b mod FRAME_BYTES = 0 \<Longrightarrow> mem_keeps m (write_link w b n m) R"
  by (auto simp: mem_keeps_def write_link_def frame_at_id)

lemma mem_keeps_clear: "b \<in># R \<Longrightarrow> b mod FRAME_BYTES = 0 \<Longrightarrow> mem_keeps m (clear_link b m) R"
  by (auto simp: mem_keeps_def clear_link_def frame_at_id)

lemma mem_keeps_zero: "Order_aligns o' b \<Longrightarrow> mem_keeps m (zero_block b o' m) (fr o' b)"
  unfolding mem_keeps_def zero_block_def by (simp add: word_in_block)

subsection \<open>A shard and its lists\<close>

type_synonym view = "bool \<Rightarrow> nat \<Rightarrow> nat list"

definition class_pool :: "view \<Rightarrow> bool \<Rightarrow> nat multiset" where
  "class_pool V c = (\<Sum>o' \<in> {..< ORDERS}. frl o' (V c o'))"

definition pool :: "view \<Rightarrow> nat multiset" where
  "pool V = class_pool V False + class_pool V True"

definition upd :: "view \<Rightarrow> bool \<Rightarrow> nat \<Rightarrow> nat list \<Rightarrow> view" where
  "upd V c o' xs = V(c := (V c)(o' := xs))"

lemma upd_simps [simp]:
  "upd V c o' xs c o' = xs"
  "c \<noteq> c' \<or> o' \<noteq> o'' \<Longrightarrow> upd V c o' xs c' o'' = V c' o''"
  by (auto simp: upd_def)

lemma class_pool_upd:
  assumes "o' < ORDERS"
  shows "class_pool (upd V c o' xs) c + frl o' (V c o') = class_pool V c + frl o' xs"
proof -
  have "class_pool (upd V c o' xs) c = frl o' xs + (\<Sum>i \<in> {..< ORDERS} - {o'}. frl i (V c i))"
    unfolding class_pool_def using assms
    by (subst sum.remove [of _ o']) (auto intro!: sum.cong simp: upd_def)
  moreover have "class_pool V c = frl o' (V c o') + (\<Sum>i \<in> {..< ORDERS} - {o'}. frl i (V c i))"
    unfolding class_pool_def using assms by (subst sum.remove [of _ o']) auto
  ultimately show ?thesis by (simp add: ac_simps)
qed

lemma class_pool_upd_other [simp]: "c \<noteq> c' \<Longrightarrow> class_pool (upd V c o' xs) c' = class_pool V c'"
  by (simp add: class_pool_def upd_def)

lemma pool_class: "pool V = class_pool V c + class_pool V (\<not> c)"
  by (cases c) (simp_all add: pool_def)

lemma class_pool_push: "o' < ORDERS \<Longrightarrow> class_pool (upd V c o' (x # V c o')) c = class_pool V c + fr o' x"
  using class_pool_upd [of o' V c "x # V c o'"] by (simp add: add.assoc [symmetric])

lemma class_pool_pop: "o' < ORDERS \<Longrightarrow> V c o' = x # xs \<Longrightarrow> class_pool V c = class_pool (upd V c o' xs) c + fr o' x"
  using class_pool_upd [of o' V c xs] by (simp add: add.assoc [symmetric])

lemma pool_push: "o' < ORDERS \<Longrightarrow> pool (upd V c o' (x # V c o')) = pool V + fr o' x"
  by (simp add: pool_class [of _ c] class_pool_push ac_simps)

lemma pool_pop: "o' < ORDERS \<Longrightarrow> V c o' = x # xs \<Longrightarrow> pool V = pool (upd V c o' xs) + fr o' x"
  by (simp add: pool_class [of _ c] class_pool_pop [of o' V c x xs] ac_simps)

lemma listed_in_pool: "o' < ORDERS \<Longrightarrow> a \<in> set (V c o') \<Longrightarrow> f \<in># fr o' a \<Longrightarrow> f \<in># pool V"
proof -
  assume *: "o' < ORDERS" "a \<in> set (V c o')" "f \<in># fr o' a"
  then have "f \<in># frl o' (V c o')" by (auto simp: frl_def)
  then have "f \<in># class_pool V c"
    using *(1) by (auto simp: class_pool_def set_mset_sum)
  then show ?thesis by (simp add: pool_class [of V c])
qed

text \<open>Every word of the block but its first is zero.\<close>

definition zeroed :: "memory \<Rightarrow> nat \<Rightarrow> nat \<Rightarrow> bool" where
  "zeroed m o' a \<longleftrightarrow> (\<forall>x. a < x \<and> x < a + Order_bytes o' \<longrightarrow> m x = 0)"

definition lists_ok :: "Window \<Rightarrow> memory \<Rightarrow> Shard \<Rightarrow> view \<Rightarrow> bool" where
  "lists_ok w m s V \<longleftrightarrow>
     (\<forall>c. length (Shard_lists s c) = ORDERS)
     \<and> (\<forall>c o'. o' < ORDERS \<longrightarrow> linked w m (Shard_lists s c ! o') (V c o'))
     \<and> (\<forall>c o' a. o' < ORDERS \<longrightarrow> a \<in> set (V c o') \<longrightarrow> Order_aligns o' a \<and> (c \<longrightarrow> zeroed m o' a))"

definition counts_ok :: "Shard \<Rightarrow> view \<Rightarrow> bool" where
  "counts_ok s V \<longleftrightarrow> (\<forall>c. unat (Shard_frames s c) = size (class_pool V c))"

lemma lists_ok_D:
  assumes "lists_ok w m s V" "o' < ORDERS"
  shows "length (Shard_lists s c) = ORDERS" "linked w m (Shard_lists s c ! o') (V c o')"
    "Lists_head (Shard_lists s c) o' = Shard_lists s c ! o'"
    "a \<in> set (V c o') \<Longrightarrow> Order_aligns o' a" "a \<in> set (V True o') \<Longrightarrow> zeroed m o' a"
  using assms by (auto simp: lists_ok_def Lists_head_def get_at_def)

text \<open>A change of memory outside the frames of a shard leaves the shard alone.\<close>

lemma zeroed_keeps:
  assumes "zeroed m o' a" "mem_keeps m m' R" "Order_aligns o' a" "\<And>f. f \<in># fr o' a \<Longrightarrow> f \<notin># R"
  shows "zeroed m' o' a"
  using assms word_in_block [OF assms(3)] unfolding zeroed_def mem_keeps_def by (metis less_imp_le)

lemma lists_ok_keeps:
  assumes ok: "lists_ok w m s V" and mem_keeps: "mem_keeps m m' R" and wf: "frames_wf (pool V + R)"
  shows "lists_ok w m' s V"
proof -
  have out: "f \<notin># R" if "o' < ORDERS" "a \<in> set (V c o')" "f \<in># fr o' a" for c o' a f
    using listed_in_pool [of o' a V c f] that frames_wf_disjoint [OF wf] by blast
  have "m' a = m a" if "o' < ORDERS" "a \<in> set (V c o')" for c o' a
    using mem_keeps out [OF that base_in_fr] lists_ok_D(4) [OF ok that]
    by (simp add: mem_keeps_def frame_at_id aligned_frame)
  then have "linked w m' (Shard_lists s c ! o') (V c o')" if "o' < ORDERS" for c o'
    using lists_ok_D(2) [OF ok that, of c] that by (metis linked_cong)
  moreover have "zeroed m' o' a" if "o' < ORDERS" "a \<in> set (V True o')" for o' a
    using zeroed_keeps [OF lists_ok_D(5) [OF ok that] mem_keeps lists_ok_D(4) [OF ok that]] out [OF that] by blast
  ultimately show ?thesis using ok by (auto simp: lists_ok_def)
qed

lemma lists_ok_counters [simp]:
  "lists_ok w m (s\<lparr>shd_splits := n\<rparr>) V = lists_ok w m s V"
  "lists_ok w m (s\<lparr>shd_merges := n\<rparr>) V = lists_ok w m s V"
  "lists_ok w m (s\<lparr>shd_served := n\<rparr>) V = lists_ok w m s V"
  "lists_ok w m (s\<lparr>shd_refills := n\<rparr>) V = lists_ok w m s V"
  "lists_ok w m (s\<lparr>shd_remote := n\<rparr>) V = lists_ok w m s V"
  "lists_ok w m (Shard_set_frames c n s) V = lists_ok w m s V"
  by (auto simp: lists_ok_def Shard_lists_def Shard_set_frames_def)

lemma counts_counters [simp]:
  "Shard_frames (s\<lparr>shd_splits := n\<rparr>) c = Shard_frames s c"
  "Shard_frames (s\<lparr>shd_merges := n\<rparr>) c = Shard_frames s c"
  "Shard_frames (s\<lparr>shd_served := n\<rparr>) c = Shard_frames s c"
  "Shard_frames (s\<lparr>shd_refills := n\<rparr>) c = Shard_frames s c"
  "Shard_frames (s\<lparr>shd_remote := n\<rparr>) c = Shard_frames s c"
  "Shard_frames (Shard_set_lists c' l s) c = Shard_frames s c"
  by (simp_all add: Shard_frames_def Shard_set_lists_def)

lemma Shard_lists_set [simp]:
  "Shard_lists (Shard_set_lists c l s) c' = (if c = c' then l else Shard_lists s c')"
  by (auto simp: Shard_lists_def Shard_set_lists_def)

lemma Shard_frames_set [simp]:
  "Shard_frames (Shard_set_frames c n s) c' = (if c = c' then n else Shard_frames s c')"
  by (auto simp: Shard_frames_def Shard_set_frames_def)

end
