(* ===== verification/Frame_Shard.thy ===== *)
theory Frame_Shard
  imports Frame_Lists
begin

text \<open>
  What the operations on one shard do to its frames: pushing and popping a block, splitting a
  larger one, carving a run. Each mem_keeps the lists well formed, the counters exact, and every word
  outside the frames it handles.
\<close>

definition shard_ok :: "Window \<Rightarrow> memory \<Rightarrow> Shard \<Rightarrow> view \<Rightarrow> bool" where
  "shard_ok w m s V \<longleftrightarrow> lists_ok w m s V \<and> counts_ok s V"

lemma shard_ok_keeps: "shard_ok w m s V \<Longrightarrow> mem_keeps m m' R \<Longrightarrow> frames_wf (pool V + R) \<Longrightarrow> shard_ok w m' s V"
  by (auto simp: shard_ok_def intro: lists_ok_keeps)

subsection \<open>Sizes\<close>

lemma run_frames_one:
  assumes "a mod FRAME_BYTES = 0"
  shows "run_frames a (a + FRAME_BYTES) = {#a#}"
proof -
  have "x = a" if "a \<le> x" "x < a + FRAME_BYTES" "x mod FRAME_BYTES = 0" for x
  proof -
    have "(x - a) mod FRAME_BYTES = 0" using that assms by (metis dvd_diff_nat mod_0_imp_dvd mod_eq_0_iff_dvd)
    moreover have "x - a < FRAME_BYTES" using that by simp
    ultimately show "x = a" using that by simp
  qed
  then have "{x. a \<le> x \<and> x < a + FRAME_BYTES \<and> x mod FRAME_BYTES = 0} = {a}"
    using assms by (auto simp: FRAME_BYTES_def)
  then show ?thesis by (simp add: run_frames_def)
qed

lemma size_run_frames:
  assumes "a mod FRAME_BYTES = 0"
  shows "size (run_frames a (a + n * FRAME_BYTES)) = n"
proof (induction n)
  case (Suc n)
  have "(a + n * FRAME_BYTES) mod FRAME_BYTES = 0" using assms by simp
  then have "run_frames (a + n * FRAME_BYTES) (a + Suc n * FRAME_BYTES) = {#a + n * FRAME_BYTES#}"
    using run_frames_one [of "a + n * FRAME_BYTES"] by (simp add: ac_simps)
  then show ?case
    using run_frames_split [of a "a + n * FRAME_BYTES" "a + Suc n * FRAME_BYTES"] Suc by simp
qed simp

lemma size_fr: "Order_aligns o' a \<Longrightarrow> size (fr o' a) = Order_frames o'"
  using size_run_frames [of a "2 ^ o'"]
  by (simp add: fr_def Order_bytes_def Order_frames_def aligned_frame mult.commute)

lemma unat_frames: "o' < ORDERS \<Longrightarrow> unat (of_nat (Order_frames o') :: u64) = Order_frames o'"
proof -
  assume "o' < ORDERS"
  then have o': "o' < 64" by (simp add: ORDERS_def Order_MAX_def)
  then have "(2::nat) ^ o' < 2 ^ 64" by (intro power_strict_increasing) simp_all
  then show ?thesis
    using o' by (simp add: Order_frames_def unsigned_of_nat take_bit_nat_eq_self del: of_nat_power)
qed

subsection \<open>Push and pop\<close>

lemma head_below:
  assumes "lists_ok w m s V" "frames_wf (pool V + H)" "o' < ORDERS"
  shows "Shard_lists s c ! o' < 2 ^ 64"
proof (cases "V c o'")
  case Nil
  then show ?thesis using lists_ok_D(2) [OF assms(1,3), of c] by simp
next
  case (Cons x xs)
  then have h: "Shard_lists s c ! o' = x" using lists_ok_D(2) [OF assms(1,3), of c] by simp
  have "x \<in># pool V"
    using Cons assms(3) lists_ok_D(4) [OF assms(1,3), of x c] base_in_fr listed_in_pool [of o' x V c x] by simp
  then show ?thesis using frames_wf_D [OF assms(2)] h by simp
qed

lemma push_ok:
  assumes ok: "lists_ok w m s V" and wf: "frames_wf (pool V + fr o' b)" and o': "o' < ORDERS"
    and al: "Order_aligns o' b" and z: "c \<longrightarrow> zeroed m o' b"
    and push: "list_push w c o' b (m, s) = (m', s')"
  shows "lists_ok w m' s' (upd V c o' (b # V c o'))" "mem_keeps m m' (fr o' b)"
    "Shard_frames s' c' = Shard_frames s c'"
proof -
  let ?h = "Shard_lists s c ! o'"
  have m': "m' = write_link w b ?h m" and s': "s' = Shard_set_lists c ((Shard_lists s c)[o' := b]) s"
    using push lists_ok_D(3) [OF ok o', of c] by (simp_all add: list_push_def Let_def Lists_set_head_def)
  show "Shard_frames s' c' = Shard_frames s c'" by (simp add: s')
  show mem_keeps: "mem_keeps m m' (fr o' b)"
    unfolding m' by (rule mem_keeps_write) (simp_all add: base_in_fr al aligned_frame [OF al])
  have ok': "lists_ok w m' s V" by (rule lists_ok_keeps [OF ok mem_keeps wf])
  have "b \<noteq> 0" using frames_wf_D [OF wf, of b] base_in_fr [OF al] by simp
  moreover have "read_link w b m' = ?h" unfolding m' using head_below [OF ok wf o'] by simp
  ultimately have "linked w m' b (b # V c o')" using lists_ok_D(2) [OF ok' o', of c] by simp
  moreover have "c \<longrightarrow> zeroed m' o' b" using z by (auto simp: m' zeroed_def)
  ultimately show "lists_ok w m' s' (upd V c o' (b # V c o'))"
    using ok' al lists_ok_D(1) [OF ok' o'] by (auto simp: lists_ok_def s' upd_def nth_list_update)
qed

lemma pop_ok:
  assumes ok: "lists_ok w m s V" and o': "o' < ORDERS" and pop: "list_pop w c o' (m, s) = (r, s')"
  shows "(r = None \<and> s' = s \<and> V c o' = []) \<or>
    (\<exists>b xs. r = Some b \<and> V c o' = b # xs \<and> lists_ok w m s' (upd V c o' xs) \<and> Order_aligns o' b
      \<and> (c \<longrightarrow> zeroed m o' b) \<and> (\<forall>c'. Shard_frames s' c' = Shard_frames s c'))"
proof (cases "V c o'")
  case Nil
  then show ?thesis
    using pop lists_ok_D(2,3) [OF ok o', of c] by (auto simp: list_pop_def Let_def)
next
  case (Cons b xs)
  have ch: "Shard_lists s c ! o' = b" "b \<noteq> 0" "linked w m (read_link w b m) xs"
    using lists_ok_D(2) [OF ok o', of c] Cons by auto
  then have r: "r = Some b" "s' = Shard_set_lists c ((Shard_lists s c)[o' := read_link w b m]) s"
    using pop lists_ok_D(3) [OF ok o', of c] by (auto simp: list_pop_def Let_def Lists_set_head_def)
  have "Order_aligns o' a \<and> (c \<longrightarrow> zeroed m o' a)" if "a \<in> set xs" for a
    using that Cons lists_ok_D(4) [OF ok o', of a c] lists_ok_D(5) [OF ok o', of a] by auto
  then have "lists_ok w m s' (upd V c o' xs)"
    using ok ch(3) lists_ok_D(1) [OF ok o'] by (auto simp: lists_ok_def r upd_def nth_list_update)
  moreover have "Order_aligns o' b" "c \<longrightarrow> zeroed m o' b"
    using Cons lists_ok_D(4) [OF ok o', of b c] lists_ok_D(5) [OF ok o', of b] by auto
  ultimately show ?thesis using Cons r by simp
qed

lemma give_ok:
  assumes ok: "shard_ok w m s V" and wf: "frames_wf (pool V + fr o' b)" and o': "o' < ORDERS"
    and al: "Order_aligns o' b" and z: "c \<longrightarrow> zeroed m o' b"
    and give: "give w o' c b (m, s) = (m', s')"
  shows "shard_ok w m' s' (upd V c o' (b # V c o'))" "mem_keeps m m' (fr o' b)"
proof -
  obtain m1 s1 where push: "list_push w c o' b (m, s) = (m1, s1)" by fastforce
  have ok1: "lists_ok w m s V" "counts_ok s V" using ok by (simp_all add: shard_ok_def)
  note P = push_ok [OF ok1(1) wf o' al z push]
  have m': "m' = m1" and s': "s' = Shard_set_frames c
      (saturating_add (Shard_frames s1 c) (of_nat (Order_frames o'))) s1"
    using give push by (simp_all add: give_def)
  show "mem_keeps m m' (fr o' b)" using P(2) m' by simp
  have size: "size (pool V) + Order_frames o' < 2 ^ 64"
    using frames_wf_size [OF wf] size_fr [OF al] by simp
  have "unat (saturating_add (Shard_frames s1 c) (of_nat (Order_frames o'))) =
      size (class_pool V c) + Order_frames o'"
    using ok1(2) size pool_class [of V c]
    by (simp add: unat_saturating_add unat_frames [OF o'] P(3) counts_ok_def)
  then have "counts_ok s' (upd V c o' (b # V c o'))"
    using ok1(2) P(3) by (auto simp: counts_ok_def s' class_pool_push [OF o'] size_fr [OF al] split: if_splits)
  then show "shard_ok w m' s' (upd V c o' (b # V c o'))" using P(1) by (simp add: shard_ok_def m' s')
qed

subsection \<open>Splitting\<close>

lemma aligned_halves:
  assumes "Order_aligns (Suc o') b"
  shows "Order_aligns o' b" "Order_aligns o' (b + Order_bytes o')"
proof -
  have "Order_bytes o' dvd Order_bytes (Suc o')" by (simp add: bytes_Suc)
  then show *: "Order_aligns o' b" using assms by (auto simp: Order_aligns_def intro: dvd_trans)
  then show "Order_aligns o' (b + Order_bytes o')" by (simp add: Order_aligns_def)
qed

lemma zeroed_halves:
  assumes "zeroed m (Suc o') b"
  shows "zeroed m o' b" "zeroed m o' (b + Order_bytes o')" "m (b + Order_bytes o') = 0"
  using assms Order_bytes_pos [of o'] by (auto simp: zeroed_def bytes_Suc)

lemma split_down_ok:
  assumes "lists_ok w m s V" "frames_wf (pool V + fr at b)" "at < ORDERS" "to \<le> at" "Order_aligns at b"
    "c \<longrightarrow> zeroed m at b" "split_down w c b at to (m, s) = (m', s')"
  shows "\<exists>V'. lists_ok w m' s' V' \<and> class_pool V' c + fr to b = class_pool V c + fr at b
    \<and> class_pool V' (\<not> c) = class_pool V (\<not> c) \<and> mem_keeps m m' (fr at b) \<and> Order_aligns to b
    \<and> (c \<longrightarrow> zeroed m' to b) \<and> (\<forall>c'. Shard_frames s' c' = Shard_frames s c')"
  using assms
proof (induction at arbitrary: m s V)
  case 0
  then have "m' = m" "s' = s" "to = 0" by (simp_all add: split_down.simps)
  then show ?case using 0 by (intro exI [of _ V]) simp
next
  case (Suc lower)
  show ?case
  proof (cases "to = Suc lower")
    case True
    then have "m' = m" "s' = s" using Suc.prems(7) by (simp_all add: split_down.simps)
    then show ?thesis using Suc.prems True by (intro exI [of _ V]) simp
  next
    case False
    let ?u = "b + Order_bytes lower"
    obtain m1 s1 where push: "list_push w c lower ?u (m, s) = (m1, s1)" by fastforce
    let ?s1 = "s1\<lparr>shd_splits := saturating_add (shd_splits s1) 1\<rparr>" and ?V = "upd V c lower (?u # V c lower)"
    have rec: "split_down w c b lower to (m1, ?s1) = (m', s')"
      using Suc.prems(4,7) False push by (simp add: split_down.simps [of w c b "Suc lower"] Order_down_def)
    have lower: "lower < ORDERS" using Suc.prems(3) by simp
    note al = aligned_halves [OF Suc.prems(5)]
    have wf: "frames_wf (pool V + fr lower ?u + fr lower b)"
      using Suc.prems(2) by (simp add: fr_Suc ac_simps)
    have z: "c \<longrightarrow> zeroed m lower ?u" "c \<longrightarrow> zeroed m lower b" using Suc.prems(6) zeroed_halves by blast+
    note P = push_ok [OF Suc.prems(1) frames_wf_sub [OF wf] lower al(2) z(1) push]
    have "zeroed m1 lower b" if c
      using zeroed_keeps [OF z(2) [rule_format, OF that] P(2) al(1)] wf frames_wf_disjoint
      by (metis add.assoc add.commute union_iff)
    moreover have "pool ?V + fr lower b = pool V + fr lower ?u + fr lower b" by (simp add: pool_push [OF lower])
    ultimately obtain V' where V': "lists_ok w m' s' V'"
        "class_pool V' c + fr to b = class_pool ?V c + fr lower b" "class_pool V' (\<not> c) = class_pool ?V (\<not> c)"
        "mem_keeps m1 m' (fr lower b)" "Order_aligns to b" "c \<longrightarrow> zeroed m' to b"
        "\<forall>c'. Shard_frames s' c' = Shard_frames ?s1 c'"
      using Suc.IH [of m1 ?s1 ?V] P(1) wf lower Suc.prems(4) False al(1) rec by auto
    have "mem_keeps m m' (fr (Suc lower) b)"
      using mem_keeps_trans [OF P(2) V'(4)] by (simp add: fr_Suc add.commute)
    then show ?thesis
      using V' P(3) by (intro exI [of _ V']) (simp add: class_pool_push [OF lower] fr_Suc ac_simps)
  qed
qed

text \<open>The shard after a block of order \<open>order\<close> was taken from its lists of one cleanness.\<close>

definition taken ::
  "Window \<Rightarrow> nat \<Rightarrow> bool \<Rightarrow> memory \<Rightarrow> view \<Rightarrow> nat \<Rightarrow> memory \<Rightarrow> Shard \<Rightarrow> bool" where
  "taken w order c m V b m' s' \<longleftrightarrow>
     (\<exists>V'. shard_ok w m' s' V' \<and> class_pool V c = class_pool V' c + fr order b
        \<and> class_pool V (\<not> c) = class_pool V' (\<not> c) \<and> Order_aligns order b
        \<and> mem_keeps m m' (pool V) \<and> (c \<longrightarrow> zeroed m' order b))"

lemma takenE:
  assumes "taken w order c m V b m' s'"
  obtains V' where "shard_ok w m' s' V'" "pool V = pool V' + fr order b" "Order_aligns order b"
    "mem_keeps m m' (pool V)" "c \<longrightarrow> zeroed m' order b"
    "class_pool V c = class_pool V' c + fr order b" "class_pool V (\<not> c) = class_pool V' (\<not> c)"
proof -
  obtain V' where V': "shard_ok w m' s' V'" "class_pool V c = class_pool V' c + fr order b"
      "class_pool V (\<not> c) = class_pool V' (\<not> c)" "Order_aligns order b" "mem_keeps m m' (pool V)"
      "c \<longrightarrow> zeroed m' order b"
    using assms by (auto simp: taken_def)
  moreover have "pool V = pool V' + fr order b" using V'(2,3) by (simp add: pool_class [of _ c] ac_simps)
  ultimately show ?thesis using that by blast
qed

lemma pop_split_hit:
  assumes ok: "shard_ok w m s V" and wf: "frames_wf (pool V)" and at: "order \<le> at" "at < ORDERS"
    and pop: "list_pop w c at (m, s) = (Some b, s1)" and split: "split_down w c b at order (m, s1) = (m', s2)"
    and s': "s' = Shard_set_frames c (saturating_sub (Shard_frames s2 c) (of_nat (Order_frames order))) s2"
  shows "taken w order c m V b m' s'"
proof -
  have ok1: "lists_ok w m s V" "counts_ok s V" using ok by (simp_all add: shard_ok_def)
  obtain xs where P: "V c at = b # xs" "lists_ok w m s1 (upd V c at xs)" "Order_aligns at b"
      "c \<longrightarrow> zeroed m at b" "\<forall>c'. Shard_frames s1 c' = Shard_frames s c'"
    using pop_ok [OF ok1(1) at(2) pop] by auto
  note pool = pool_pop [OF at(2), of V c, OF P(1)] class_pool_pop [OF at(2), of V c, OF P(1)]
  obtain V' where V': "lists_ok w m' s2 V'"
      "class_pool V' c + fr order b = class_pool (upd V c at xs) c + fr at b"
      "class_pool V' (\<not> c) = class_pool (upd V c at xs) (\<not> c)" "mem_keeps m m' (fr at b)" "Order_aligns order b"
      "c \<longrightarrow> zeroed m' order b" "\<forall>c'. Shard_frames s2 c' = Shard_frames s1 c'"
    using split_down_ok [OF P(2) _ at(2,1) P(3,4) split] wf pool(1) by auto
  have cls: "class_pool V c = class_pool V' c + fr order b" "class_pool V (\<not> c) = class_pool V' (\<not> c)"
    using V'(2,3) pool(2) by simp_all
  have "unat (saturating_sub (Shard_frames s2 c) (of_nat (Order_frames order))) = size (class_pool V' c)"
    using ok1(2) V'(7) P(5) cls(1) size_fr [OF V'(5)] at
    by (simp add: unat_saturating_sub unat_frames counts_ok_def)
  moreover have "unat (Shard_frames s2 (\<not> c)) = size (class_pool V' (\<not> c))"
    using ok1(2) V'(7) P(5) cls(2) by (simp add: counts_ok_def)
  ultimately have "counts_ok s' V'" by (auto simp: counts_ok_def s')
  moreover have "mem_keeps m m' (pool V)" by (rule mem_keeps_mono [OF V'(4)]) (simp add: pool(1))
  moreover have "lists_ok w m' s' V'" using V'(1) by (simp add: s')
  ultimately show ?thesis unfolding taken_def using cls V'(5,6) by (auto simp: shard_ok_def)
qed

lemma pop_split_from_ok:
  assumes "shard_ok w m s V" "frames_wf (pool V)" "order \<le> at" "at < ORDERS"
    "pop_split_from w order c at (m, s) = (r, m', s')"
  shows "(r = None \<and> m' = m \<and> s' = s \<and> (\<forall>k. at \<le> k \<and> k < ORDERS \<longrightarrow> V c k = [])) \<or>
    (\<exists>b. r = Some b \<and> taken w order c m V b m' s')"
  using assms
proof (induction "Order_MAX - at" arbitrary: at rule: less_induct)
  case less
  obtain r1 s1 where pop: "list_pop w c at (m, s) = (r1, s1)" by fastforce
  have lists: "lists_ok w m s V" using less.prems(1) by (simp add: shard_ok_def)
  show ?case
  proof (cases r1)
    case (Some b)
    obtain m2 s2 where split: "split_down w c b at order (m, s1) = (m2, s2)" by fastforce
    have "r = Some b" "m' = m2"
      "s' = Shard_set_frames c (saturating_sub (Shard_frames s2 c) (of_nat (Order_frames order))) s2"
      using less.prems(5) pop Some split by (auto simp: pop_split_from.simps [of w order c at])
    then show ?thesis
      using pop_split_hit [OF less.prems(1-4) pop [unfolded Some] split] by simp
  next
    case None
    then have s1: "s1 = s" "V c at = []" using pop_ok [OF lists less.prems(4) pop] by auto
    show ?thesis
    proof (cases "at < Order_MAX")
      case True
      then have rec: "pop_split_from w order c (Suc at) (m, s) = (r, m', s')"
        using less.prems(5) pop None s1 by (simp add: pop_split_from.simps [of w order c at] Order_up_def)
      have "(r = None \<and> m' = m \<and> s' = s \<and> (\<forall>k. Suc at \<le> k \<and> k < ORDERS \<longrightarrow> V c k = [])) \<or>
          (\<exists>b. r = Some b \<and> taken w order c m V b m' s')"
        using less.prems(3) True by (intro less.hyps [OF _ less.prems(1,2) _ _ rec]) (auto simp: ORDERS_def)
      then show ?thesis using s1(2) by (metis Suc_leI le_neq_implies_less)
    next
      case False
      then have "k = at" if "at \<le> k" "k < ORDERS" for k using less.prems(4) that by (simp add: ORDERS_def)
      moreover have "pop_split_from w order c at (m, s) = (None, m, s)"
        using pop None s1 False by (simp add: pop_split_from.simps [of w order c at] Order_up_def)
      ultimately show ?thesis using less.prems(5) s1(2) by auto
    qed
  qed
qed

lemma pop_split_ok:
  assumes "shard_ok w m s V" "frames_wf (pool V)" "order < ORDERS"
    "pop_split w order c (m, s) = (r, m', s')"
  shows "(r = None \<and> m' = m \<and> s' = s \<and> (\<forall>k. order \<le> k \<and> k < ORDERS \<longrightarrow> V c k = [])) \<or>
    (\<exists>b. r = Some b \<and> taken w order c m V b m' s')"
  using pop_split_from_ok [OF assms(1,2) order_refl assms(3)] assms(4) by (simp add: pop_split_def)

subsection \<open>Carving\<close>

lemma carve_order_ok:
  assumes "order < ORDERS" "Order_aligns order at" "at + Order_bytes order \<le> end'"
  shows "carve_order at end' order < ORDERS" "Order_aligns (carve_order at end' order) at"
    "at + Order_bytes (carve_order at end' order) \<le> end'"
proof -
  have "carve_order at end' order < ORDERS \<and> Order_aligns (carve_order at end' order) at
      \<and> at + Order_bytes (carve_order at end' order) \<le> end'"
    using assms
  proof (induction at end' order rule: carve_order.induct)
    case (1 at end' order)
    show ?case
    proof (cases "order < Order_MAX \<and> Order_aligns (order + 1) at \<and> at + Order_bytes (order + 1) < 2 ^ 64
        \<and> at + Order_bytes (order + 1) \<le> end'")
      case True
      then have eq: "carve_order at end' order = carve_order at end' (order + 1)"
        by (simp add: carve_order.simps [of at end' order] Order_up_def addr_checked_add_def)
      show ?thesis unfolding eq
        by (rule "1.IH") (use True in \<open>auto simp: Order_up_def addr_checked_add_def ORDERS_def\<close>)
    next
      case False
      then have "carve_order at end' order = order"
        by (auto simp: carve_order.simps [of at end' order] Order_up_def addr_checked_add_def)
      then show ?thesis using "1.prems" by simp
    qed
  qed
  then show "carve_order at end' order < ORDERS" "Order_aligns (carve_order at end' order) at"
    "at + Order_bytes (carve_order at end' order) \<le> end'" by simp_all
qed

lemma carve_ok:
  assumes "shard_ok w m s V" "frames_wf (pool V + run_frames at end')" "at mod FRAME_BYTES = 0"
    "end' mod FRAME_BYTES = 0" "at \<le> end'" "carve w at end' (m, s) = (m', s')"
  shows "\<exists>V'. shard_ok w m' s' V' \<and> pool V' = pool V + run_frames at end' \<and> mem_keeps m m' (run_frames at end')
    \<and> class_pool V' True = class_pool V True"
  using assms
proof (induction "end' - at" arbitrary: at m s V rule: less_induct)
  case less
  show ?case
  proof (cases "at < end'")
    case False
    then have "m' = m" "s' = s" "at = end'" using less.prems(5,6) by (simp_all add: carve.simps)
    then show ?thesis using less.prems(1) by (intro exI [of _ V]) simp
  next
    case True
    have "FRAME_BYTES \<le> end' - at"
      using True less.prems(3,4) by (intro dvd_imp_le) (auto intro: dvd_diff_nat)
    then have base: "at + Order_bytes Order_FRAME \<le> end'"
      using True by (simp add: Order_bytes_def Order_FRAME_def)
    define ord where "ord = carve_order at end' Order_FRAME"
    have ord: "ord < ORDERS" "Order_aligns ord at" "at + Order_bytes ord \<le> end'"
      unfolding ord_def using base less.prems(3)
      by (intro carve_order_ok; simp add: ORDERS_def Order_FRAME_def Order_aligns_def Order_bytes_def)+
    obtain m1 s1 where give: "give w ord False at (m, s) = (m1, s1)" by fastforce
    have rec: "carve w (at + Order_bytes ord) end' (m1, s1) = (m', s')"
      using less.prems(6) True give by (simp add: carve.simps [of w at] Let_def flip: ord_def)
    have run: "run_frames at end' = fr ord at + run_frames (at + Order_bytes ord) end'"
      unfolding fr_def using ord(3) by (intro run_frames_split) simp_all
    note G = give_ok [OF less.prems(1) _ ord(1,2) _ give]
    have wf1: "frames_wf (pool V + fr ord at)"
      using less.prems(2) run frames_wf_sub by (metis add.assoc)
    let ?V = "upd V False ord (at # V False ord)"
    have "pool ?V + run_frames (at + Order_bytes ord) end' = pool V + run_frames at end'"
      by (simp add: pool_push [OF ord(1)] run add.assoc)
    moreover have "(at + Order_bytes ord) mod FRAME_BYTES = 0"
      using less.prems(3) frame_dvd_bytes [of ord] by auto
    moreover have "end' - (at + Order_bytes ord) < end' - at" using True by (simp add: diff_less_mono2)
    ultimately obtain V' where "shard_ok w m' s' V'" "pool V' = pool V + run_frames at end'"
        "mem_keeps m1 m' (run_frames (at + Order_bytes ord) end')" "class_pool V' True = class_pool ?V True"
      using less.hyps [of "at + Order_bytes ord" m1 s1 ?V] G(1) wf1 less.prems(2,4) ord(3) rec by auto
    moreover have "mem_keeps m m1 (fr ord at)" using G(2) wf1 by simp
    moreover have "class_pool ?V True = class_pool V True" by simp
    ultimately show ?thesis using mem_keeps_trans by (metis run)
  qed
qed

end
