(* ===== verification/Frame_Sort.thy ===== *)
theory Frame_Sort
  imports Frame_Lists
begin

text \<open>
  The in-place sort of a free list (\<open>merge_sorted\<close> and \<open>sort\<close> in \<open>src/kernel/src/mem.rs\<close>). On a
  list that ends, with no block on it twice, it returns; what it leaves is the same blocks in
  ascending order, and it writes no word but their links.
\<close>

fun merge_lists :: "nat list \<Rightarrow> nat list \<Rightarrow> nat list" where
  "merge_lists [] ys = ys"
| "merge_lists xs [] = xs"
| "merge_lists (x # xs) (y # ys) =
     (if x \<le> y then x # merge_lists xs (y # ys) else y # merge_lists (x # xs) ys)"

lemma merge_lists_Nil [simp]: "merge_lists xs [] = xs"
  by (cases xs) auto

lemma mset_merge_lists [simp]: "mset (merge_lists xs ys) = mset xs + mset ys"
  by (induction xs ys rule: merge_lists.induct) auto

lemma set_merge_lists [simp]: "set (merge_lists xs ys) = set xs \<union> set ys"
  using mset_merge_lists [of xs ys] by (metis set_mset_mset set_mset_union)

lemma sorted_merge_lists: "sorted xs \<Longrightarrow> sorted ys \<Longrightarrow> sorted (merge_lists xs ys)"
  by (induction xs ys rule: merge_lists.induct) (auto simp: not_le)

text \<open>Blocks a list may be threaded through: addresses that fit a link.\<close>

definition blocks_ok :: "nat list \<Rightarrow> bool" where
  "blocks_ok xs \<longleftrightarrow> distinct xs \<and> list_all (\<lambda>x. x < 2 ^ 64) xs"

lemma blocks_ok_simps [simp]:
  "blocks_ok []"
  "blocks_ok (x # xs) \<longleftrightarrow> x < 2 ^ 64 \<and> x \<notin> set xs \<and> blocks_ok xs"
  "blocks_ok (xs @ ys) \<longleftrightarrow> blocks_ok xs \<and> blocks_ok ys \<and> set xs \<inter> set ys = {}"
  by (auto simp: blocks_ok_def)

lemma blocks_ok_mset: "mset xs = mset ys \<Longrightarrow> blocks_ok xs \<Longrightarrow> blocks_ok ys"
  by (auto simp: blocks_ok_def list_all_iff dest: mset_eq_setD mset_eq_imp_distinct_iff)

text \<open>Memory that differs only at the words in \<open>S\<close>.\<close>

definition same_but :: "nat set \<Rightarrow> memory \<Rightarrow> memory \<Rightarrow> bool" where
  "same_but S m m' \<longleftrightarrow> (\<forall>x. x \<notin> S \<longrightarrow> m' x = m x)"

lemma same_but_refl [simp]: "same_but S m m"
  by (simp add: same_but_def)

lemma same_but_trans: "same_but S m m' \<Longrightarrow> same_but T m' m'' \<Longrightarrow> S \<union> T \<subseteq> U \<Longrightarrow> same_but U m m''"
  unfolding same_but_def by (metis UnCI subsetD)

lemma same_but_linked: "same_but S m m' \<Longrightarrow> set xs \<inter> S = {} \<Longrightarrow> linked w m' h xs = linked w m h xs"
  by (rule linked_cong) (auto simp: same_but_def)

lemma same_but_write: "b \<in> S \<Longrightarrow> same_but S m (write_link w b n m)"
  by (auto simp: same_but_def write_link_def)

lemma merge_loop_ok:
  assumes "linked w m a xs" "linked w m b ys" "blocks_ok (t # xs @ ys)"
  shows "\<exists>m'. merge_loop w m a b t = Some m' \<and> linked w m' (read_link w t m') (merge_lists xs ys)
    \<and> same_but (insert t (set xs \<union> set ys)) m m'"
  using assms
proof (induction xs ys arbitrary: m a b t rule: merge_lists.induct)
  case (1 ys)
  then have "a = 0" by simp
  let ?m = "write_link w t b m"
  have b: "b < 2 ^ 64" using "1.prems" by (cases ys) auto
  have "linked w ?m b ys"
    using "1.prems" by (subst same_but_linked [OF same_but_write [of t "{t}"]]) auto
  then show ?case
    using \<open>a = 0\<close> b by (intro exI [of _ ?m]) (simp add: merge_loop.simps same_but_write)
next
  case (2 x xs)
  then have "b = 0" "a = x" "x \<noteq> 0" by simp_all
  let ?m = "write_link w t a m"
  have "linked w ?m a (x # xs)"
    using "2.prems" by (subst same_but_linked [OF same_but_write [of t "{t}"]]) auto
  then show ?case
    using \<open>b = 0\<close> \<open>a = x\<close> \<open>x \<noteq> 0\<close> "2.prems"(3)
    by (intro exI [of _ ?m]) (simp add: merge_loop.simps same_but_write)
next
  case (3 x xs y ys)
  have ab: "a = x" "b = y" "x \<noteq> 0" "y \<noteq> 0" and rest: "linked w m (read_link w x m) xs"
      "linked w m (read_link w y m) ys"
    using "3.prems" by auto
  show ?case
  proof (cases "x \<le> y")
    case True
    let ?m = "write_link w t x m"
    have "linked w ?m (read_link w x m) xs" "linked w ?m y (y # ys)"
      using rest "3.prems" ab
      by (subst same_but_linked [OF same_but_write [of t "{t}"]]; auto)+
    then obtain m' where m': "merge_loop w ?m (read_link w x m) y x = Some m'"
        "linked w m' (read_link w x m') (merge_lists xs (y # ys))"
        "same_but (insert x (set xs \<union> set (y # ys))) ?m m'"
      using "3.IH"(1) [OF True, of ?m "read_link w x m" y x] "3.prems"(3) by auto
    have "m' t = ?m t" using m'(3) "3.prems"(3) by (auto simp: same_but_def)
    then have "read_link w t m' = x" using "3.prems"(3) by (simp add: read_link_cong [of m' t ?m])
    moreover have "same_but (insert t (set (x # xs) \<union> set (y # ys))) m m'"
      by (rule same_but_trans [OF same_but_write [of t "{t}"] m'(3)]) auto
    ultimately show ?thesis
      using m' True ab by (intro exI [of _ m']) (simp add: merge_loop.simps [of w m x y t])
  next
    case False
    let ?m = "write_link w t y m"
    have "linked w ?m (read_link w y m) ys" "linked w ?m x (x # xs)"
      using rest "3.prems" ab
      by (subst same_but_linked [OF same_but_write [of t "{t}"]]; auto)+
    then obtain m' where m': "merge_loop w ?m x (read_link w y m) y = Some m'"
        "linked w m' (read_link w y m') (merge_lists (x # xs) ys)"
        "same_but (insert y (set (x # xs) \<union> set ys)) ?m m'"
      using "3.IH"(2) [OF False, of ?m x "read_link w y m" y] "3.prems"(3) by auto
    have "m' t = ?m t" using m'(3) "3.prems"(3) by (auto simp: same_but_def)
    then have "read_link w t m' = y" using "3.prems"(3) by (simp add: read_link_cong [of m' t ?m])
    moreover have "same_but (insert t (set (x # xs) \<union> set (y # ys))) m m'"
      by (rule same_but_trans [OF same_but_write [of t "{t}"] m'(3)]) auto
    ultimately show ?thesis
      using m' False ab by (intro exI [of _ m']) (simp add: merge_loop.simps [of w m x y t])
  qed
qed

lemma merge_sorted_ok:
  assumes "linked w m a xs" "linked w m b ys" "blocks_ok (xs @ ys)"
  shows "\<exists>h m'. merge_sorted w m a b = Some (h, m') \<and> linked w m' h (merge_lists xs ys)
    \<and> same_but (set xs \<union> set ys) m m'"
proof (cases "a = 0 \<or> b = 0")
  case True
  then show ?thesis using assms by (auto simp: merge_sorted_def)
next
  case False
  then obtain xs' ys' where l: "xs = a # xs'" "ys = b # ys'" using assms linked_head by metis
  show ?thesis
  proof (cases "a \<le> b")
    case True
    obtain m' where "merge_loop w m (read_link w a m) b a = Some m'"
        "linked w m' (read_link w a m') (merge_lists xs' ys)" "same_but (insert a (set xs' \<union> set ys)) m m'"
      using merge_loop_ok [of w m "read_link w a m" xs' b ys a] assms l by auto
    then show ?thesis
      using True False by (intro exI [of _ a] exI [of _ m']) (auto simp: merge_sorted_def l insert_commute)
  next
    case nle: False
    obtain m' where "merge_loop w m a (read_link w b m) b = Some m'"
        "linked w m' (read_link w b m') (merge_lists xs ys')" "same_but (insert b (set xs \<union> set ys')) m m'"
      using merge_loop_ok [of w m a xs "read_link w b m" ys' b] assms l by auto
    then show ?thesis
      using nle False by (intro exI [of _ b] exI [of _ m']) (auto simp: merge_sorted_def l insert_commute)
  qed
qed

subsection \<open>The pending lists\<close>

lemma slots_keep:
  assumes "list_all2 (linked w m) slots xss" "same_but S m m'" "set (concat xss) \<inter> S = {}"
  shows "list_all2 (linked w m') slots xss"
  using assms
proof (induction slots xss rule: list_all2_induct)
  case (Cons s ss xs xss)
  have "linked w m' s xs = linked w m s xs" using Cons.prems by (intro same_but_linked) auto
  then show ?case using Cons by auto
qed simp

lemma sort_place_ok:
  assumes "list_all2 (linked w m) slots xss" "linked w m carry cs" "carry \<noteq> 0" "blocks_ok (cs @ concat xss)"
    "sorted cs" "list_all sorted xss"
  shows "\<exists>slots' carry' m' xss' cs'. sort_place w m carry slots = Some (slots', carry', m')
    \<and> list_all2 (linked w m') slots' xss' \<and> linked w m' carry' cs'
    \<and> mset (cs' @ concat xss') = mset (cs @ concat xss) \<and> sorted cs' \<and> list_all sorted xss'
    \<and> (cs' \<noteq> [] \<longrightarrow> concat xss' = []) \<and> length slots' = length slots
    \<and> same_but (set cs \<union> set (concat xss)) m m'"
  using assms
proof (induction slots arbitrary: xss m carry cs)
  case Nil
  then show ?case by (auto intro!: exI [of _ carry] exI [of _ m] exI [of _ cs])
next
  case (Cons s ss yss)
  then obtain xs xss where yss: "yss = xs # xss" and hyps: "linked w m s xs" "list_all2 (linked w m) ss xss"
    by (auto simp: list_all2_Cons1)
  note prems = Cons.prems [unfolded yss]
  show ?case
  proof (cases "s = 0")
    case True
    then have "xs = []" using hyps(1) by simp
    then show ?thesis
      using True prems hyps(2)
      by (intro exI [of _ "carry # ss"], intro exI [of _ 0] exI [of _ m] exI [of _ "cs # xss"], intro exI [of _ "[]"]) (simp add: yss)
  next
    case False
    have ok: "blocks_ok (xs @ cs)" "set (concat xss) \<inter> (set xs \<union> set cs) = {}" "blocks_ok (concat xss)"
      using prems(4) by auto
    obtain h m1 where h: "merge_sorted w m s carry = Some (h, m1)" "linked w m1 h (merge_lists xs cs)"
        "same_but (set xs \<union> set cs) m m1"
      using merge_sorted_ok [OF hyps(1) prems(2) ok(1)] by blast
    have "merge_lists xs cs \<noteq> []" using False hyps(1) by (metis linked.simps(1) append_is_Nil_conv
          mset_append mset_merge_lists mset_zero_iff)
    then have h0: "h \<noteq> 0" using h(2) by (metis linked_head_0)
    have slots: "list_all2 (linked w m1) ss xss" by (rule slots_keep [OF hyps(2) h(3) ok(2)])
    have ok1: "blocks_ok (merge_lists xs cs @ concat xss)"
      by (rule blocks_ok_mset [of "cs @ xs @ concat xss"]) (use prems(4) in auto)
    have srt: "sorted (merge_lists xs cs)" "list_all sorted xss" using prems(5,6) sorted_merge_lists by auto
    obtain ss' c' m' xss' cs' where IH: "sort_place w m1 h ss = Some (ss', c', m')"
        "list_all2 (linked w m') ss' xss'" "linked w m' c' cs'"
        "mset (cs' @ concat xss') = mset (merge_lists xs cs @ concat xss)" "sorted cs'" "list_all sorted xss'"
        "cs' \<noteq> [] \<longrightarrow> concat xss' = []" "length ss' = length ss"
        "same_but (set (merge_lists xs cs) \<union> set (concat xss)) m1 m'"
      using Cons.IH [OF slots h(2) h0 ok1 srt] by blast
    have "same_but (set cs \<union> set (concat (xs # xss))) m m'"
      by (rule same_but_trans [OF h(3) IH(9)]) auto
    then show ?thesis
      using False h(1) IH
      by (intro exI [of _ "0 # ss'"], intro exI [of _ c'] exI [of _ m'] exI [of _ "[] # xss'"], intro exI [of _ cs']) (simp add: yss)
  qed
qed

lemma concat_all_empty: "concat xss = [] \<Longrightarrow> xss \<noteq> [] \<Longrightarrow> concat (xss[0 := cs]) = cs"
  by (cases xss) auto

lemma sort_fill_ok:
  assumes "linked w m head xs" "list_all2 (linked w m) pending xss" "pending \<noteq> []"
    "blocks_ok (xs @ concat xss)" "list_all sorted xss"
  shows "\<exists>pending' m' xss'. sort_fill w m head pending = Some (pending', m')
    \<and> list_all2 (linked w m') pending' xss' \<and> mset (concat xss') = mset (xs @ concat xss)
    \<and> list_all sorted xss' \<and> same_but (set xs \<union> set (concat xss)) m m'"
  using assms
proof (induction xs arbitrary: m head pending xss)
  case Nil
  then show ?case
    by (intro exI [of _ pending] exI [of _ m] exI [of _ xss]) (simp add: sort_fill.simps)
next
  case (Cons x xs)
  let ?m = "write_link w x 0 m"
  have head: "head = x" "x \<noteq> 0" "linked w m (read_link w x m) xs" using Cons.prems(1) by auto
  have keep: "same_but {x} m ?m" by (rule same_but_write) simp
  have slots: "list_all2 (linked w ?m) pending xss"
    using Cons.prems(4) by (intro slots_keep [OF Cons.prems(2) keep]) auto
  have one: "linked w ?m x [x]" "blocks_ok ([x] @ concat xss)" using head Cons.prems(4) by auto
  obtain p1 c1 m1 xss1 cs1 where P: "sort_place w ?m x pending = Some (p1, c1, m1)"
      "list_all2 (linked w m1) p1 xss1" "linked w m1 c1 cs1" "mset (cs1 @ concat xss1) = mset ([x] @ concat xss)"
      "sorted cs1" "list_all sorted xss1" "cs1 \<noteq> [] \<longrightarrow> concat xss1 = []" "length p1 = length pending"
      "same_but (set [x] \<union> set (concat xss)) ?m m1"
    using sort_place_ok [OF slots one(1) head(2) one(2) _ Cons.prems(5)] unfolding sorted1 by blast
  define p2 xss2 where "p2 = (if c1 \<noteq> 0 then p1[0 := c1] else p1)"
    and "xss2 = (if c1 \<noteq> 0 then xss1[0 := cs1] else xss1)"
  have ne: "p1 \<noteq> []" "xss1 \<noteq> []" using P(2,8) Cons.prems(3) by auto
  have c1: "c1 = 0 \<longleftrightarrow> cs1 = []" using P(3) by (metis linked.simps(1) linked_head_0)
  have slots2: "list_all2 (linked w m1) p2 xss2"
    using P(2,3) by (simp add: p2_def xss2_def list_all2_update_cong)
  have mset2: "mset (concat xss2) = mset ([x] @ concat xss)"
  proof (cases "c1 = 0")
    case False
    then have e: "concat xss1 = []" using P(7) c1 by blast
    have "mset cs1 = mset ([x] @ concat xss)" using P(4) unfolding e append_Nil2 .
    then show ?thesis using False concat_all_empty [OF e ne(2), of cs1] by (simp add: xss2_def)
  qed (use P(4) c1 in \<open>simp add: xss2_def\<close>)
  have sorted2: "list_all sorted xss2"
    using P(5,6) by (auto simp: xss2_def list_all_iff dest!: set_update_subset_insert [THEN subsetD])
  have ok2: "blocks_ok (xs @ concat xss2)"
    by (rule blocks_ok_mset [of "(x # xs) @ concat xss"]) (use mset2 Cons.prems(4) in auto)
  have tail: "linked w m1 (read_link w x m) xs"
  proof -
    have "set xs \<inter> (set [x] \<union> set (concat xss)) = {}" using Cons.prems(4) by auto
    then show ?thesis using same_but_linked [OF P(9)] same_but_linked [OF keep] head(3) by simp
  qed
  have ne2: "p2 \<noteq> []" using ne(1) by (simp add: p2_def)
  obtain p' m' xss' where IH: "sort_fill w m1 (read_link w x m) p2 = Some (p', m')"
      "list_all2 (linked w m') p' xss'" "mset (concat xss') = mset (xs @ concat xss2)" "list_all sorted xss'"
      "same_but (set xs \<union> set (concat xss2)) m1 m'"
    using Cons.IH [OF tail slots2 _ ok2 sorted2] ne2 by blast
  have "set (concat xss2) = set ([x] @ concat xss)" using mset2 by (rule mset_eq_setD)
  then have "same_but (set (x # xs) \<union> set (concat xss)) ?m m'"
    by (intro same_but_trans [OF P(9) IH(5)]) auto
  then have "same_but (set (x # xs) \<union> set (concat xss)) m m'"
    by (intro same_but_trans [OF keep]) auto
  moreover have "sort_fill w m head pending = Some (p', m')"
    using head P(1) IH(1) by (simp add: sort_fill.simps [of w m x] p2_def)
  moreover have "mset (concat xss') = mset ((x # xs) @ concat xss)" using IH(3) mset2 by simp
  ultimately show ?case using IH(2,4) by blast
qed

lemma sort_join_ok:
  assumes "list_all2 (linked w m) slots xss" "linked w m out os" "blocks_ok (os @ concat xss)"
    "sorted os" "list_all sorted xss"
  shows "\<exists>h m' zs. sort_join w m out slots = Some (h, m') \<and> linked w m' h zs \<and> sorted zs
    \<and> mset zs = mset (os @ concat xss) \<and> same_but (set os \<union> set (concat xss)) m m'"
  using assms
proof (induction slots arbitrary: xss m out os)
  case Nil
  then show ?case by (auto intro!: exI [of _ out] exI [of _ m] exI [of _ os])
next
  case (Cons s ss yss)
  then obtain xs xss where yss: "yss = xs # xss" and hyps: "linked w m s xs" "list_all2 (linked w m) ss xss"
    by (auto simp: list_all2_Cons1)
  note prems = Cons.prems [unfolded yss]
  have ok: "blocks_ok (os @ xs)" "set (concat xss) \<inter> (set os \<union> set xs) = {}" using prems(3) by auto
  obtain h m1 where h: "merge_sorted w m out s = Some (h, m1)" "linked w m1 h (merge_lists os xs)"
      "same_but (set os \<union> set xs) m m1"
    using merge_sorted_ok [OF prems(2) hyps(1) ok(1)] by blast
  have slots: "list_all2 (linked w m1) ss xss" by (rule slots_keep [OF hyps(2) h(3) ok(2)])
  have ok1: "blocks_ok (merge_lists os xs @ concat xss)"
    by (rule blocks_ok_mset [of "os @ xs @ concat xss"]) (use prems(3) in auto)
  obtain h' m' zs where IH: "sort_join w m1 h ss = Some (h', m')" "linked w m' h' zs" "sorted zs"
      "mset zs = mset (merge_lists os xs @ concat xss)"
      "same_but (set (merge_lists os xs) \<union> set (concat xss)) m1 m'"
    using Cons.IH [OF slots h(2) ok1] prems(4,5) sorted_merge_lists by auto
  have "same_but (set os \<union> set (concat (xs # xss))) m m'"
    by (rule same_but_trans [OF h(3) IH(5)]) auto
  then show ?case using h(1) IH by (intro exI [of _ h'] exI [of _ m'] exI [of _ zs]) (simp add: yss)
qed

lemma sort_list_ok:
  assumes "linked w m head xs" "blocks_ok xs"
  shows "\<exists>h m'. sort_list w m head = Some (h, m') \<and> linked w m' h (sort xs) \<and> same_but (set xs) m m'"
proof -
  have empty: "list_all2 (linked w m) (replicate 64 0) (replicate 64 [])" "list_all sorted (replicate 64 ([] :: nat list))"
    "concat (replicate 64 []) = ([] :: nat list)"
    by (simp_all add: list_all2_conv_all_nth list_all_iff)
  obtain p m1 xss where F: "sort_fill w m head (replicate 64 0) = Some (p, m1)" "list_all2 (linked w m1) p xss"
      "mset (concat xss) = mset xs" "list_all sorted xss" "same_but (set xs) m m1"
    using sort_fill_ok [OF assms(1) empty(1) _ _ empty(2)] assms(2) by (auto simp: empty(3))
  have ok: "blocks_ok ([] @ concat xss)" using blocks_ok_mset [OF F(3) [symmetric] assms(2)] by simp
  obtain h m' zs where J: "sort_join w m1 0 p = Some (h, m')" "linked w m' h zs" "sorted zs"
      "mset zs = mset (concat xss)" "same_but (set (concat xss)) m1 m'"
    using sort_join_ok [OF F(2) _ ok _ F(4)] by auto
  have "zs = sort xs" using J(3,4) F(3) by (metis properties_for_sort)
  moreover have "set (concat xss) = set xs" using F(3) by (rule mset_eq_setD)
  ultimately show ?thesis
    using F(1,5) J same_but_trans [OF F(5) J(5)] by (auto simp: sort_list_def)
qed

end
