(* ===== verification/Frame_Coalesce.thy ===== *)
theory Frame_Coalesce
  imports Frame_Shard Frame_Sort
begin

text \<open>
  The coalescing pass: sorting one list and pairing off buddies mem_keeps every frame and its
  cleanness, returns on every sound shard, and with an unlimited budget leaves no pair of buddies
  of one cleanness unmerged.
\<close>

subsection \<open>Pairing a sorted list\<close>

fun pair_up :: "nat \<Rightarrow> nat \<Rightarrow> nat \<Rightarrow> nat list \<Rightarrow> nat list \<times> nat list \<times> nat" where
  "pair_up budget o' k [] = ([], [], k)"
| "pair_up budget o' k [x] = ([x], [], k)"
| "pair_up budget o' k (x # y # zs) =
     (if k < budget \<and> Order_is_lower o' x \<and> y = x + Order_bytes o'
      then let (s, p, k) = pair_up budget o' (k + 1) zs in (s, x # p, k)
      else let (s, p, k) = pair_up budget o' k (y # zs) in (x # s, p, k))"

lemma pair_up_frames:
  "pair_up budget o' k xs = (s, p, k') \<Longrightarrow> frl o' s + frl (Suc o') p = frl o' xs
    \<and> k' + length s + length p = k + length xs \<and> set s \<subseteq> set xs \<and> set p \<subseteq> set xs"
proof (induction budget o' k xs arbitrary: s p k' rule: pair_up.induct)
  case (3 budget o' k x y zs)
  show ?case
  proof (cases "k < budget \<and> Order_is_lower o' x \<and> y = x + Order_bytes o'")
    case True
    obtain s1 p1 k1 where r: "pair_up budget o' (k + 1) zs = (s1, p1, k1)" by (metis prod_cases3)
    then have "s = s1" "p = x # p1" "k' = k1" using "3.prems" True by auto
    then show ?thesis using "3.IH"(1) [OF True r] True by (auto simp: fr_Suc ac_simps)
  next
    case False
    obtain s1 p1 k1 where r: "pair_up budget o' k (y # zs) = (s1, p1, k1)" by (metis prod_cases3)
    then have "s = x # s1" "p = p1" "k' = k1" using "3.prems" False by auto
    then show ?thesis using "3.IH"(2) [OF False r] by (auto simp: ac_simps)
  qed
qed auto

lemma lower_aligned: "Order_aligns o' x \<Longrightarrow> Order_is_lower o' x \<Longrightarrow> Order_aligns (Suc o') x"
proof -
  assume "Order_aligns o' x" "Order_is_lower o' x"
  then have "Order_bytes o' dvd x" "2 dvd x div Order_bytes o'"
    by (auto simp: Order_aligns_def Order_is_lower_def)
  then have "Order_bytes o' * 2 dvd x" by (metis dvd_div_iff_mult Order_bytes_pos less_irrefl mult.commute)
  then show ?thesis by (simp add: Order_aligns_def bytes_Suc mult_2_right)
qed

subsection \<open>A list held in hand\<close>

definition hand_ok :: "Window \<Rightarrow> memory \<Rightarrow> bool \<Rightarrow> nat \<Rightarrow> nat \<Rightarrow> nat list \<Rightarrow> bool" where
  "hand_ok w m c o' at xs \<longleftrightarrow> linked w m at xs \<and> (\<forall>a \<in> set xs. Order_aligns o' a \<and> (c \<longrightarrow> zeroed m o' a))"

lemma in_frl: "f \<in># frl o' xs \<longleftrightarrow> (\<exists>a \<in> set xs. f \<in># fr o' a)"
  by (auto simp: frl_def)

lemma hand_keeps:
  assumes ok: "hand_ok w m c o' at xs" and mem_keeps: "mem_keeps m m' R" and wf: "frames_wf (frl o' xs + R)"
  shows "hand_ok w m' c o' at xs"
proof -
  have out: "f \<notin># R" if "a \<in> set xs" "f \<in># fr o' a" for a f
    using frames_wf_disjoint [OF wf] that in_frl by blast
  have al: "Order_aligns o' a" if "a \<in> set xs" for a using ok that by (simp add: hand_ok_def)
  have "m' a = m a" if "a \<in> set xs" for a
    using mem_keeps out [OF that base_in_fr [OF al [OF that]]] aligned_frame [OF al [OF that]]
    by (simp add: mem_keeps_def frame_at_id)
  then have "linked w m' at xs" using ok by (metis linked_cong hand_ok_def)
  moreover have "zeroed m' o' a" if "a \<in> set xs" c for a
    using zeroed_keeps [OF _ mem_keeps al [OF that(1)]] out [OF that(1)] ok that by (auto simp: hand_ok_def)
  ultimately show ?thesis using al by (simp add: hand_ok_def)
qed

lemma upd_upd [simp]: "upd (upd V c o' xs) c o' ys = upd V c o' ys"
  by (simp add: upd_def)

lemma upd_swap: "o1 \<noteq> o2 \<Longrightarrow> upd (upd V c o1 xs) c o2 ys = upd (upd V c o2 ys) c o1 xs"
  by (auto simp: upd_def fun_upd_twist)

text \<open>The lists after a walk: unpaired blocks back on their list, pairs one order up.\<close>

definition walked :: "view \<Rightarrow> bool \<Rightarrow> nat \<Rightarrow> nat list \<Rightarrow> nat list \<Rightarrow> view" where
  "walked V c o' s p = upd (upd V c o' (rev s @ V c o')) c (Suc o') (rev p @ V c (Suc o'))"

lemma walked_push:
  "walked (upd V c o' (x # V c o')) c o' s p = walked V c o' (x # s) p"
  "walked (upd V c (Suc o') (x # V c (Suc o'))) c o' s p = walked V c o' s (x # p)"
  by (auto simp: walked_def upd_def fun_eq_iff)

text \<open>One step of the walk: a block put back, or a pair pushed one order up.\<close>

lemma single_step:
  assumes ok: "lists_ok w m s V" and hand: "hand_ok w m c o' x (x # zs)" and o': "o' < ORDERS"
    and wf: "frames_wf (pool V + frl o' (x # zs))" and push: "list_push w c o' x (m, s) = (m1, s1)"
  defines "V1 \<equiv> upd V c o' (x # V c o')"
  shows "lists_ok w m1 s1 V1" "mem_keeps m m1 (fr o' x)" "Shard_frames s1 c' = Shard_frames s c'"
    "hand_ok w m1 c o' (read_link w x m) zs" "frames_wf (pool V1 + frl o' zs)"
proof -
  have x: "Order_aligns o' x" "c \<longrightarrow> zeroed m o' x" and rest: "hand_ok w m c o' (read_link w x m) zs"
    using hand by (auto simp: hand_ok_def)
  have wf': "frames_wf (pool V + fr o' x + frl o' zs)" using wf by (simp add: ac_simps)
  note P = push_ok [OF ok frames_wf_sub [OF wf'] o' x push]
  show "lists_ok w m1 s1 V1" "mem_keeps m m1 (fr o' x)" "Shard_frames s1 c' = Shard_frames s c'"
    using P by (simp_all add: V1_def)
  have "frames_wf (frl o' zs + fr o' x)"
    using wf' frames_wf_sub [of "frl o' zs + fr o' x" "pool V"] by (simp only: ac_simps)
  then show "hand_ok w m1 c o' (read_link w x m) zs" by (rule hand_keeps [OF rest P(2)])
  show "frames_wf (pool V1 + frl o' zs)" using wf' by (simp add: V1_def pool_push [OF o'])
qed

lemma zeroed_join:
  assumes "zeroed m o' x" "zeroed m o' (x + Order_bytes o')"
  shows "zeroed (clear_link (x + Order_bytes o') m) (Suc o') x"
  unfolding zeroed_def
proof (intro allI impI)
  let ?y = "x + Order_bytes o'"
  fix a assume a: "x < a \<and> a < x + Order_bytes (Suc o')"
  consider "a < ?y" | "a = ?y" | "?y < a" by linarith
  then show "clear_link ?y m a = 0"
    using a assms by cases (auto simp: zeroed_def clear_link_def bytes_Suc)
qed

lemma pair_step:
  assumes ok: "lists_ok w m s V" and hand: "hand_ok w m c o' x (x # y # zs)" and o': "Suc o' < ORDERS"
    and wf: "frames_wf (pool V + frl o' (x # y # zs))"
    and buddy: "Order_is_lower o' x" "y = x + Order_bytes o'"
    and push: "list_push w c (Suc o') x (if c then clear_link y m else m, s) = (m1, s1)"
  defines "V1 \<equiv> upd V c (Suc o') (x # V c (Suc o'))"
  shows "lists_ok w m1 s1 V1" "mem_keeps m m1 (fr o' x + fr o' y)" "Shard_frames s1 c' = Shard_frames s c'"
    "hand_ok w m1 c o' (read_link w y m) zs" "frames_wf (pool V1 + frl o' zs)"
proof -
  let ?m = "if c then clear_link y m else m"
  have x: "Order_aligns o' x" "Order_aligns o' y" "c \<longrightarrow> zeroed m o' x \<and> zeroed m o' y"
    and rest: "hand_ok w m c o' (read_link w y m) zs"
    using hand by (auto simp: hand_ok_def)
  have fr: "fr (Suc o') x = fr o' x + fr o' y" using buddy by (simp add: fr_Suc)
  have wf': "frames_wf (pool V + fr (Suc o') x + frl o' zs)" using wf by (simp add: fr ac_simps)
  have k0: "mem_keeps m ?m (fr (Suc o') x)"
    using mem_keeps_clear [of y "fr (Suc o') x" m] base_in_fr [OF x(2)] aligned_frame [OF x(2)] by (simp add: fr)
  have ok0: "lists_ok w ?m s V" by (rule lists_ok_keeps [OF ok k0 frames_wf_sub [OF wf']])
  have al: "Order_aligns (Suc o') x" using lower_aligned [OF x(1)] buddy by simp
  have z: "c \<longrightarrow> zeroed ?m (Suc o') x" using x(3) zeroed_join buddy(2) by simp
  note P = push_ok [OF ok0 frames_wf_sub [OF wf'] o' al z push]
  show "lists_ok w m1 s1 V1" "Shard_frames s1 c' = Shard_frames s c'" using P by (simp_all add: V1_def)
  have k1: "mem_keeps m m1 (fr (Suc o') x)" using mem_keeps_trans [OF k0 P(2)] by (rule mem_keeps_mono) simp
  then show "mem_keeps m m1 (fr o' x + fr o' y)" by (simp add: fr)
  have "frames_wf (frl o' zs + fr (Suc o') x)"
    using wf' frames_wf_sub [of "frl o' zs + fr (Suc o') x" "pool V"] by (simp only: ac_simps)
  then show "hand_ok w m1 c o' (read_link w y m) zs" by (rule hand_keeps [OF rest k1])
  show "frames_wf (pool V1 + frl o' zs)" using wf' by (simp add: V1_def pool_push [OF o'])
qed

lemma walk_ok:
  assumes "lists_ok w m s V" "hand_ok w m c o' at xs" "Suc o' < ORDERS" "frames_wf (pool V + frl o' xs)"
    "pair_up budget o' k xs = (sg, pr, k')"
  shows "\<exists>m' s'. coalesce_walk w c budget o' (Suc o') at k (m, s) = Some (k', m', s')
    \<and> lists_ok w m' s' (walked V c o' sg pr) \<and> mem_keeps m m' (frl o' xs)
    \<and> (\<forall>c'. Shard_frames s' c' = Shard_frames s c')"
  using assms
proof (induction budget o' k xs arbitrary: m s V at sg pr k' rule: pair_up.induct)
  case (1 budget o' k)
  then show ?case
    by (intro exI [of _ m] exI [of _ s])
      (auto simp: coalesce_walk.simps [of _ _ _ _ _ 0] hand_ok_def walked_def upd_def)
next
  case (2 budget o' k x)
  obtain m1 s1 where push: "list_push w c o' x (m, s) = (m1, s1)" by fastforce
  have x: "at = x" "x \<noteq> 0" "read_link w x m = 0" using "2.prems"(2) by (auto simp: hand_ok_def)
  note P = single_step [OF "2.prems"(1) "2.prems"(2) [unfolded x(1)] _ "2.prems"(4) push]
  have "coalesce_walk w c budget o' (Suc o') at k (m, s) = Some (k, m1, s1)"
    using x push by (subst coalesce_walk.simps) (simp add: coalesce_walk.simps [of _ _ _ _ _ 0])
  moreover have "walked V c o' [x] [] = upd V c o' (x # V c o')" by (auto simp: walked_def upd_def fun_eq_iff)
  ultimately show ?case using P(1-3) "2.prems"(3,5) by auto
next
  case (3 budget o' k x y zs)
  have x: "at = x" "x \<noteq> 0" "read_link w x m = y" "y \<noteq> 0" using "3.prems"(2) by (auto simp: hand_ok_def)
  note hand = "3.prems"(2) [unfolded x(1)]
  show ?case
  proof (cases "k < budget \<and> Order_is_lower o' x \<and> y = x + Order_bytes o'")
    case True
    obtain m1 s1 where push: "list_push w c (Suc o') x (if c then clear_link y m else m, s) = (m1, s1)"
      by fastforce
    obtain sg1 pr1 k1 where r: "pair_up budget o' (k + 1) zs = (sg1, pr1, k1)" by (metis prod_cases3)
    have eqs: "sg = sg1" "pr = x # pr1" "k' = k1" using "3.prems"(5) True r by auto
    note P = pair_step [OF "3.prems"(1) hand "3.prems"(3,4) _ _ push]
    let ?s1 = "s1\<lparr>shd_merges := saturating_add (shd_merges s1) 1\<rparr>"
    obtain m' s' where IH: "coalesce_walk w c budget o' (Suc o') (read_link w y m) (k + 1) (m1, ?s1) = Some (k1, m', s')"
        "lists_ok w m' s' (walked (upd V c (Suc o') (x # V c (Suc o'))) c o' sg1 pr1)"
        "mem_keeps m1 m' (frl o' zs)" "\<forall>c'. Shard_frames s' c' = Shard_frames ?s1 c'"
      using "3.IH"(1) [OF True, of m1 ?s1 "upd V c (Suc o') (x # V c (Suc o'))" "read_link w y m" sg1 pr1 k1]
        P(1,4,5) True "3.prems"(3) r by auto
    have "coalesce_walk w c budget o' (Suc o') at k (m, s) = Some (k1, m', s')"
      using x True push IH(1) by (subst coalesce_walk.simps) (cases c; simp add: Let_def)
    moreover have "mem_keeps m m' (frl o' (x # y # zs))"
      using mem_keeps_trans [OF P(2) IH(3)] True by (simp add: ac_simps)
    ultimately show ?thesis using IH(2,4) P(3) True by (auto simp: eqs walked_push)
  next
    case False
    obtain m1 s1 where push: "list_push w c o' x (m, s) = (m1, s1)" by fastforce
    obtain sg1 pr1 k1 where r: "pair_up budget o' k (y # zs) = (sg1, pr1, k1)" by (metis prod_cases3)
    have eqs: "sg = x # sg1" "pr = pr1" "k' = k1" using "3.prems"(5) False r by auto
    note P = single_step [OF "3.prems"(1) hand _ "3.prems"(4) push]
    obtain m' s' where IH: "coalesce_walk w c budget o' (Suc o') y k (m1, s1) = Some (k1, m', s')"
        "lists_ok w m' s' (walked (upd V c o' (x # V c o')) c o' sg1 pr1)" "mem_keeps m1 m' (frl o' (y # zs))"
        "\<forall>c'. Shard_frames s' c' = Shard_frames s1 c'"
      using "3.IH"(2) [OF False, of m1 s1 "upd V c o' (x # V c o')" y sg1 pr1 k1] P(1,4,5) "3.prems"(3) r x(3)
      by auto
    have "coalesce_walk w c budget o' (Suc o') at k (m, s) = Some (k1, m', s')"
      using x False push IH(1) by (subst coalesce_walk.simps) (auto simp: Let_def)
    moreover have "mem_keeps m m' (frl o' (x # y # zs))"
      using mem_keeps_trans [OF P(2) IH(3)] "3.prems"(3) by simp
    ultimately show ?thesis using IH(2,4) P(3) "3.prems"(3) by (auto simp: eqs walked_push)
  qed
qed

subsection \<open>One class, one order, one shard\<close>

lemma clear_head_ok:
  fixes c :: bool
  assumes ok: "lists_ok w m s V" and o': "o' < ORDERS"
  defines "s1 \<equiv> Shard_set_lists c (Lists_set_head (Shard_lists s c) o' 0) s"
  shows "lists_ok w m s1 (upd V c o' [])" "hand_ok w m c o' (Lists_head (Shard_lists s c) o') (V c o')"
proof -
  show "lists_ok w m s1 (upd V c o' [])"
    using ok by (auto simp: lists_ok_def s1_def Lists_set_head_def upd_def nth_list_update split: if_splits)
  have "Order_aligns o' a \<and> (c \<longrightarrow> zeroed m o' a)" if "a \<in> set (V c o')" for a
    using that lists_ok_D(4) [OF ok o', of a c] lists_ok_D(5) [OF ok o', of a] by auto
  then show "hand_ok w m c o' (Lists_head (Shard_lists s c) o') (V c o')"
    using lists_ok_D(2,3) [OF ok o', of c] by (simp add: hand_ok_def)
qed

lemma hand_distinct:
  assumes "\<forall>a \<in> set xs. Order_aligns o' a" "frames_wf (frl o' xs)"
  shows "blocks_ok xs"
  using assms
proof (induction xs)
  case (Cons x xs)
  have wf: "frames_wf (fr o' x + frl o' xs)" using Cons.prems(2) by simp
  have x: "x \<in># fr o' x" using Cons.prems(1) base_in_fr by simp
  have "x \<notin> set xs"
    using frames_wf_disjoint [OF wf x] Cons.prems(1) base_in_fr by (auto simp: in_frl)
  moreover have "x < 2 ^ 64" using frames_wf_D [OF wf] x by simp
  moreover have "frames_wf (frl o' xs)" using wf frames_wf_sub [of "frl o' xs" "fr o' x"] by (simp add: add.commute)
  ultimately show ?case using Cons by simp
qed simp

text \<open>Sorting a list in hand writes only its own links, and no block of the list is inside another.\<close>

lemma frl_remove1: "a \<in> set xs \<Longrightarrow> frl o' xs = fr o' a + frl o' (remove1 a xs)"
  by (induction xs) (auto simp: ac_simps)

lemma sort_hand:
  assumes hand: "hand_ok w m c o' at xs" and wf: "frames_wf (frl o' xs)"
  shows "\<exists>h m'. sort_list w m at = Some (h, m') \<and> hand_ok w m' c o' h (sort xs) \<and> mem_keeps m m' (frl o' xs)"
proof -
  have al: "Order_aligns o' a" if "a \<in> set xs" for a using hand that by (simp add: hand_ok_def)
  obtain h m' where S: "sort_list w m at = Some (h, m')" "linked w m' h (sort xs)" "same_but (set xs) m m'"
    using sort_list_ok [of w m at xs] hand hand_distinct [OF _ wf] unfolding hand_ok_def by blast
  have "a \<in># frl o' xs \<and> frame_at a = a" if "a \<in> set xs" for a
    using that base_in_fr [OF al [OF that]] frame_at_id [OF aligned_frame [OF al [OF that]]]
    by (auto simp: in_frl)
  then have mem_keeps: "mem_keeps m m' (frl o' xs)" using S(3) unfolding mem_keeps_def same_but_def by metis
  have "zeroed m' o' a" if "a \<in> set xs" c for a
  proof -
    have "x \<notin> set xs" if x: "a < x" "x < a + Order_bytes o'" for x
    proof
      assume xs: "x \<in> set xs"
      then have "x \<in># fr o' a" using x aligned_frame [OF al [OF xs]] by (simp add: in_fr)
      moreover have "x \<in># frl o' (remove1 a xs)"
        using xs x base_in_fr [OF al [OF xs]] by (auto simp: in_frl)
      ultimately show False
        using frames_wf_disjoint [of "fr o' a" "frl o' (remove1 a xs)" x] wf frl_remove1 [OF \<open>a \<in> set xs\<close>, of o']
        by simp
    qed
    then show ?thesis using hand that S(3) by (auto simp: hand_ok_def zeroed_def same_but_def)
  qed
  then have "hand_ok w m' c o' h (sort xs)" using S(2) al by (simp add: hand_ok_def)
  then show ?thesis using S(1) mem_keeps by blast
qed

definition nblocks :: "view \<Rightarrow> bool \<Rightarrow> nat" where
  "nblocks V c = (\<Sum>o' \<in> {..< ORDERS}. length (V c o'))"

lemma nblocks_upd:
  assumes "o' < ORDERS"
  shows "nblocks (upd V c o' xs) c + length (V c o') = nblocks V c + length xs"
proof -
  have "nblocks (upd V c o' xs) c = length xs + (\<Sum>i \<in> {..< ORDERS} - {o'}. length (V c i))"
    unfolding nblocks_def using assms by (subst sum.remove [of _ o']) (auto intro!: sum.cong simp: upd_def)
  moreover have "nblocks V c = length (V c o') + (\<Sum>i \<in> {..< ORDERS} - {o'}. length (V c i))"
    unfolding nblocks_def using assms by (subst sum.remove [of _ o']) auto
  ultimately show ?thesis by simp
qed

lemma nblocks_size:
  assumes "\<And>o' a. o' < ORDERS \<Longrightarrow> a \<in> set (V c o') \<Longrightarrow> Order_aligns o' a"
  shows "nblocks V c \<le> size (class_pool V c)"
proof -
  have "length xs \<le> size (frl o' xs)" if "\<forall>a \<in> set xs. Order_aligns o' a" for o' xs
    using that
  proof (induction xs)
    case (Cons x xs)
    have "size (fr o' x) = 2 ^ o'" using Cons.prems by (simp add: size_fr Order_frames_def)
    moreover have "0 < (2::nat) ^ o'" by simp
    moreover have "length xs \<le> size (frl o' xs)" using Cons by simp
    ultimately show ?case by (simp only: frl_simps size_union list.size)
  qed simp
  then have "nblocks V c \<le> (\<Sum>o' \<in> {..< ORDERS}. size (frl o' (V c o')))"
    unfolding nblocks_def using assms by (intro sum_mono) auto
  then show ?thesis by (simp add: class_pool_def size_multiset_sum)
qed

lemma walked_sums:
  assumes "Suc o' < ORDERS"
  shows "class_pool (walked V c o' s p) c = class_pool V c + frl o' s + frl (Suc o') p"
    "nblocks (walked V c o' s p) c = nblocks V c + length s + length p"
    "c' \<noteq> c \<Longrightarrow> walked V c o' s p c' = V c'"
    "i \<noteq> o' \<Longrightarrow> i \<noteq> Suc o' \<Longrightarrow> walked V c o' s p c i = V c i" "walked V c o' s p c o' = rev s @ V c o'"
proof -
  let ?U = "upd V c o' (rev s @ V c o')"
  have o': "o' < ORDERS" using assms by simp
  show "class_pool (walked V c o' s p) c = class_pool V c + frl o' s + frl (Suc o') p"
    using class_pool_upd [OF o', of V c "rev s @ V c o'"]
      class_pool_upd [OF assms, of ?U c "rev p @ V c (Suc o')"]
    by (simp add: walked_def ac_simps)
  show "nblocks (walked V c o' s p) c = nblocks V c + length s + length p"
    using nblocks_upd [OF o', of V c "rev s @ V c o'"] nblocks_upd [OF assms, of ?U c "rev p @ V c (Suc o')"]
    by (simp add: walked_def)
  show "c' \<noteq> c \<Longrightarrow> walked V c o' s p c' = V c'" by (simp add: walked_def upd_def)
  show "i \<noteq> o' \<Longrightarrow> i \<noteq> Suc o' \<Longrightarrow> walked V c o' s p c i = V c i" "walked V c o' s p c o' = rev s @ V c o'"
    by (simp_all add: walked_def upd_def)
qed

text \<open>
  One list coalesced: the frames of each class, what is on the lists of other orders, and the sum of
  merges and blocks are as before.
\<close>

definition class_done :: "nat \<Rightarrow> nat \<Rightarrow> bool \<Rightarrow> nat \<Rightarrow> view \<Rightarrow> nat \<Rightarrow> view \<Rightarrow> bool" where
  "class_done budget o' c k V k' V' \<longleftrightarrow>
     (\<forall>c'. class_pool V' c' = class_pool V c') \<and> V' (\<not> c) = V (\<not> c)
     \<and> (\<forall>i. i \<noteq> o' \<and> i \<noteq> Suc o' \<longrightarrow> V' c i = V c i)
     \<and> k' + nblocks V' c = k + nblocks V c \<and> snd (snd (pair_up budget o' k (sort (V c o')))) = k'
     \<and> V' c o' = rev (fst (pair_up budget o' k (sort (V c o'))))"

lemma coalesce_class_ok:
  assumes ok: "shard_ok w m s V" and wf: "frames_wf (pool V)" and o': "Suc o' < ORDERS"
  shows "\<exists>k' m' s' V'. coalesce_class w budget o' (Suc o') c (k, m, s) = Some (k', m', s')
    \<and> shard_ok w m' s' V' \<and> mem_keeps m m' (pool V) \<and> class_done budget o' c k V k' V'"
proof -
  let ?V0 = "upd V c o' []" and ?s0 = "Shard_set_lists c (Lists_set_head (Shard_lists s c) o' 0) s"
  let ?xs = "V c o'"
  have o1: "o' < ORDERS" using o' by simp
  have ok1: "lists_ok w m s V" "counts_ok s V" using ok by (simp_all add: shard_ok_def)
  note C = clear_head_ok [OF ok1(1) o1, of c]
  have cls: "class_pool V c = class_pool ?V0 c + frl o' ?xs" using class_pool_upd [OF o1, of V c "[]"] by simp
  have pool: "pool V = pool ?V0 + frl o' ?xs" by (simp add: pool_class [of _ c] cls ac_simps)
  have wf1: "frames_wf (frl o' ?xs)" using wf frames_wf_sub [of "frl o' ?xs" "pool ?V0"] by (simp add: pool add.commute)
  obtain h m1 where S: "sort_list w m (Lists_head (Shard_lists s c) o') = Some (h, m1)"
      "hand_ok w m1 c o' h (sort ?xs)" "mem_keeps m m1 (frl o' ?xs)"
    using sort_hand [OF C(2) wf1] by blast
  have srt: "frl o' (sort ?xs) = frl o' ?xs" by (rule frl_mset) simp
  have ok2: "lists_ok w m1 ?s0 ?V0" using wf by (intro lists_ok_keeps [OF C(1) S(3)]) (simp add: pool)
  obtain sg pr k' where P: "pair_up budget o' k (sort ?xs) = (sg, pr, k')" by (metis prod_cases3)
  obtain m' s' where W: "coalesce_walk w c budget o' (Suc o') h k (m1, ?s0) = Some (k', m', s')"
      "lists_ok w m' s' (walked ?V0 c o' sg pr)" "mem_keeps m1 m' (frl o' (sort ?xs))"
      "\<forall>c'. Shard_frames s' c' = Shard_frames ?s0 c'"
    using walk_ok [OF ok2 S(2) o' _ P] wf by (auto simp: pool srt)
  note F = pair_up_frames [OF P] and Ws = walked_sums [OF o', where V = ?V0 and c = c and s = sg and p = pr]
  have pools: "class_pool (walked ?V0 c o' sg pr) c' = class_pool V c'" for c'
  proof (cases "c' = c")
    case True
    then show ?thesis using F cls srt Ws(1) by (simp add: add.assoc)
  next
    case False
    then show ?thesis using Ws(3) [of c'] by (simp add: class_pool_def upd_def)
  qed
  have "nblocks ?V0 c + length ?xs = nblocks V c" using nblocks_upd [OF o1, of V c "[]"] by simp
  then have "class_done budget o' c k V k' (walked ?V0 c o' sg pr)"
    using pools F Ws P by (auto simp: class_done_def upd_def)
  moreover have "shard_ok w m' s' (walked ?V0 c o' sg pr)"
    using W(2,4) ok1(2) pools by (simp add: shard_ok_def counts_ok_def)
  moreover have "mem_keeps m m' (pool V)"
    using mem_keeps_trans [OF S(3) W(3)] by (rule mem_keeps_mono) (auto simp: pool srt)
  moreover have "coalesce_class w budget o' (Suc o') c (k, m, s) = Some (k', m', s')"
    using S(1) W(1) by (simp add: coalesce_class_def Let_def)
  ultimately show ?thesis by blast
qed

subsection \<open>Nothing left to merge\<close>

definition no_buddies :: "nat \<Rightarrow> nat list \<Rightarrow> bool" where
  "no_buddies o' xs \<longleftrightarrow> list_all (\<lambda>a. \<not> (Order_is_lower o' a \<and> a + Order_bytes o' \<in> set xs)) xs"

lemma pair_up_mono: "k \<le> snd (snd (pair_up budget o' k xs))"
  by (induction budget o' k xs rule: pair_up.induct) (auto simp: Let_def split: prod.splits)

lemma aligned_gap:
  assumes "Order_aligns o' x" "Order_aligns o' y" "x < y"
  shows "x + Order_bytes o' \<le> y"
proof -
  have "Order_bytes o' dvd y - x" using assms by (auto simp: Order_aligns_def intro: dvd_diff_nat)
  then have "Order_bytes o' \<le> y - x" using assms(3) by (intro dvd_imp_le) simp_all
  then show ?thesis using assms(3) by simp
qed

lemma pair_up_no_buddies:
  assumes "sorted xs" "distinct xs" "\<forall>a \<in> set xs. Order_aligns o' a" "snd (snd (pair_up budget o' k xs)) < budget"
  shows "no_buddies o' (fst (pair_up budget o' k xs))"
  using assms
proof (induction budget o' k xs rule: pair_up.induct)
  case (3 budget o' k x y zs)
  show ?case
  proof (cases "k < budget \<and> Order_is_lower o' x \<and> y = x + Order_bytes o'")
    case True
    then show ?thesis using "3.IH"(1) [OF True] "3.prems" by (auto simp: Let_def split: prod.splits)
  next
    case False
    obtain s p k' where r: "pair_up budget o' k (y # zs) = (s, p, k')" by (metis prod_cases3)
    have k': "k' < budget" "k < budget"
      using "3.prems"(4) False r pair_up_mono [of k budget o' "y # zs"] by auto
    have IH: "no_buddies o' s" using "3.IH"(2) [OF False] "3.prems" k' r by auto
    have sub: "set s \<subseteq> set (y # zs)" using pair_up_frames [OF r] by simp
    have later: "x < a" if "a \<in> set s" for a using sub "3.prems"(1,2) that by (auto simp: order_le_less)
    have "x + Order_bytes o' \<notin> set s" if "Order_is_lower o' x"
    proof
      assume "x + Order_bytes o' \<in> set s"
      then have "y \<le> x + Order_bytes o'" using sub "3.prems"(1) by auto
      moreover have "x + Order_bytes o' \<le> y" using "3.prems" by (intro aligned_gap) (auto simp: order_le_less)
      ultimately show False using False k'(2) that by simp
    qed
    moreover have "a + Order_bytes o' \<noteq> x" if "a \<in> set s" for a using later [OF that] by simp
    ultimately show ?thesis using IH False r by (auto simp: no_buddies_def list_all_iff)
  qed
qed (auto simp: no_buddies_def)

lemma no_buddies_rev: "no_buddies o' (rev xs) = no_buddies o' xs"
  by (simp add: no_buddies_def list_all_iff)

lemma class_no_buddies:
  assumes ok: "lists_ok w m s V" and wf: "frames_wf (pool V)" and o': "o' < ORDERS"
    and don: "class_done budget o' c k V k' V'" and k': "k' < budget"
  shows "no_buddies o' (V' c o')"
proof -
  have al: "\<forall>a \<in> set (V c o'). Order_aligns o' a" using lists_ok_D(4) [OF ok o'] by blast
  have "pool V = frl o' (V c o') + (class_pool (upd V c o' []) c + class_pool V (\<not> c))"
    using class_pool_upd [OF o', of V c "[]"] by (simp add: pool_class [of V c] ac_simps)
  then have "frames_wf (frl o' (V c o'))" using wf frames_wf_sub by metis
  then have "distinct (V c o')" using hand_distinct [OF al] by (simp add: blocks_ok_def)
  then show ?thesis
    using pair_up_no_buddies [of "sort (V c o')" o' budget k] al don k'
    by (simp add: class_done_def no_buddies_rev)
qed

definition nb :: "view \<Rightarrow> nat" where "nb V = nblocks V False + nblocks V True"

lemma nb_class: "nb V = nblocks V c + nblocks V (\<not> c)"
  by (cases c) (simp_all add: nb_def)

text \<open>What coalescing from order \<open>lo\<close> up changes, and what it does not.\<close>

definition coalesced :: "nat \<Rightarrow> nat \<Rightarrow> view \<Rightarrow> nat \<Rightarrow> view \<Rightarrow> bool" where
  "coalesced lo k V k' V' \<longleftrightarrow> (\<forall>c. class_pool V' c = class_pool V c) \<and> k' + nb V' = k + nb V \<and> k \<le> k'
     \<and> (\<forall>c i. i < lo \<longrightarrow> V' c i = V c i)"

lemma coalesced_refl [simp]: "coalesced lo k V k V"
  by (simp add: coalesced_def)

lemma coalesced_trans: "coalesced lo k V k1 V1 \<Longrightarrow> coalesced lo' k1 V1 k2 V2 \<Longrightarrow> lo \<le> lo' \<Longrightarrow> coalesced lo k V k2 V2"
  by (auto simp: coalesced_def)

lemma coalesced_pool: "coalesced lo k V k' V' \<Longrightarrow> pool V' = pool V"
  by (simp add: coalesced_def pool_def)

lemma class_done_coalesced:
  assumes "class_done budget o' c k V k' V'"
  shows "coalesced o' k V k' V'"
proof -
  have "nblocks V' (\<not> c) = nblocks V (\<not> c)" using assms by (simp add: class_done_def nblocks_def)
  then have "k' + nb V' = k + nb V" using assms by (simp add: class_done_def nb_class [of _ c])
  moreover have "V' c' i = V c' i" if "i < o'" for c' i
    using assms that by (cases "c' = c") (auto simp: class_done_def)
  moreover have "k \<le> k'" using assms pair_up_mono [of k] by (auto simp: class_done_def)
  ultimately show ?thesis using assms by (simp add: coalesced_def class_done_def)
qed

lemma coalesce_order_ok:
  assumes ok: "shard_ok w m s V" and wf: "frames_wf (pool V)" and o': "Suc o' < ORDERS"
  shows "\<exists>k' m' s' V'. coalesce_order w budget o' (Suc o') (k, m, s) = Some (k', m', s')
    \<and> shard_ok w m' s' V' \<and> mem_keeps m m' (pool V) \<and> coalesced o' k V k' V'
    \<and> (k' < budget \<longrightarrow> (\<forall>c. no_buddies o' (V' c o')))"
proof (cases "k \<ge> budget")
  case True
  then show ?thesis using ok by (intro exI [of _ k] exI [of _ m] exI [of _ s] exI [of _ V]) (simp add: coalesce_order_def)
next
  case False
  have o1: "o' < ORDERS" using o' by simp
  obtain k1 m1 s1 V1 where A: "coalesce_class w budget o' (Suc o') False (k, m, s) = Some (k1, m1, s1)"
      "shard_ok w m1 s1 V1" "mem_keeps m m1 (pool V)" "class_done budget o' False k V k1 V1"
    using coalesce_class_ok [OF ok wf o'] by blast
  note cA = class_done_coalesced [OF A(4)]
  show ?thesis
  proof (cases "k1 \<ge> budget")
    case True
    then show ?thesis
      using A cA False by (intro exI [of _ k1] exI [of _ m1] exI [of _ s1] exI [of _ V1]) (simp add: coalesce_order_def)
  next
    case more: False
    have wf1: "frames_wf (pool V1)" using wf coalesced_pool [OF cA] by simp
    obtain k2 m2 s2 V2 where B: "coalesce_class w budget o' (Suc o') True (k1, m1, s1) = Some (k2, m2, s2)"
        "shard_ok w m2 s2 V2" "mem_keeps m1 m2 (pool V1)" "class_done budget o' True k1 V1 k2 V2"
      using coalesce_class_ok [OF A(2) wf1 o'] by blast
    note cB = class_done_coalesced [OF B(4)]
    have clean: "no_buddies o' (V2 True o')" if "k2 < budget"
      using A(2) class_no_buddies [OF _ wf1 o1 B(4) that] unfolding shard_ok_def by blast
    have "no_buddies o' (V1 False o')"
      using ok more class_no_buddies [OF _ wf o1 A(4)] unfolding shard_ok_def not_le by blast
    moreover have "V2 False = V1 False" using B(4) by (simp add: class_done_def)
    ultimately have "k2 < budget \<longrightarrow> (\<forall>c. no_buddies o' (V2 c o'))" using clean by (metis (full_types))
    moreover have "mem_keeps m m2 (pool V)"
      using mem_keeps_trans [OF A(3) B(3)] by (rule mem_keeps_mono) (simp add: coalesced_pool [OF cA])
    moreover have "coalesce_order w budget o' (Suc o') (k, m, s) = Some (k2, m2, s2)"
      using A(1) B(1) False more by (simp add: coalesce_order_def)
    ultimately show ?thesis using B(2) coalesced_trans [OF cA cB] by blast
  qed
qed

lemma coalesce_from_ok:
  assumes "shard_ok w m s V" "frames_wf (pool V)" "order < ORDERS"
  shows "\<exists>k' m' s' V'. coalesce_from w budget order (k, m, s) = Some (k', m', s')
    \<and> shard_ok w m' s' V' \<and> mem_keeps m m' (pool V) \<and> coalesced order k V k' V'
    \<and> (k' < budget \<longrightarrow> (\<forall>c i. order \<le> i \<and> i < Order_MAX \<longrightarrow> no_buddies i (V' c i)))"
  using assms
proof (induction "Order_MAX - order" arbitrary: order k m s V rule: less_induct)
  case less
  show ?case
  proof (cases "order < Order_MAX")
    case False
    then show ?thesis
      using less.prems(1)
      by (intro exI [of _ k] exI [of _ m] exI [of _ s] exI [of _ V]) (auto simp: coalesce_from.simps Order_up_def)
  next
    case True
    then have up: "Suc order < ORDERS" by (simp add: ORDERS_def)
    obtain k1 m1 s1 V1 where A: "coalesce_order w budget order (Suc order) (k, m, s) = Some (k1, m1, s1)"
        "shard_ok w m1 s1 V1" "mem_keeps m m1 (pool V)" "coalesced order k V k1 V1"
        "k1 < budget \<longrightarrow> (\<forall>c. no_buddies order (V1 c order))"
      using coalesce_order_ok [OF less.prems(1,2) up] by blast
    have pool1: "pool V1 = pool V" using coalesced_pool [OF A(4)] .
    have wf1: "frames_wf (pool V1)" using less.prems(2) pool1 by simp
    obtain k2 m2 s2 V2 where B: "coalesce_from w budget (Suc order) (k1, m1, s1) = Some (k2, m2, s2)"
        "shard_ok w m2 s2 V2" "mem_keeps m1 m2 (pool V1)" "coalesced (Suc order) k1 V1 k2 V2"
        "k2 < budget \<longrightarrow> (\<forall>c i. Suc order \<le> i \<and> i < Order_MAX \<longrightarrow> no_buddies i (V2 c i))"
      using less.hyps [OF _ A(2) wf1 up, of k1] diff_less_mono2 [OF lessI True] by blast
    have here: "no_buddies order (V2 c order)" if "k2 < budget" for c
    proof -
      have "k1 < budget" "V2 c order = V1 c order" using B(4) that by (auto simp: coalesced_def)
      then show ?thesis using A(5) by simp
    qed
    have "no_buddies i (V2 c i)" if "k2 < budget" "order \<le> i" "i < Order_MAX" for c i
      using here B(5) that by (cases "i = order") auto
    moreover have "mem_keeps m m2 (pool V)" using mem_keeps_trans [OF A(3) B(3)] by (rule mem_keeps_mono) (simp add: pool1)
    moreover have "coalesce_from w budget order (k, m, s) = Some (k2, m2, s2)"
      using A(1) B(1) True by (simp add: coalesce_from.simps [of w budget order] Order_up_def)
    ultimately show ?thesis using B(2) coalesced_trans [OF A(4) B(4)] by (intro exI conjI) auto
  qed
qed

lemma coalesce_shard_ok:
  assumes ok: "shard_ok w m s V" and wf: "frames_wf (pool V)"
  shows "\<exists>k m' s' V'. coalesce_shard w budget (m, s) = Some (k, m', s')
    \<and> shard_ok w m' s' V' \<and> mem_keeps m m' (pool V) \<and> (\<forall>c. class_pool V' c = class_pool V c)
    \<and> k \<le> 2 ^ 52 \<and> (k < budget \<longrightarrow> (\<forall>c i. i < Order_MAX \<longrightarrow> no_buddies i (V' c i)))"
proof -
  obtain k m' s' V' where C: "coalesce_from w budget 0 (0, m, s) = Some (k, m', s')"
      "shard_ok w m' s' V'" "mem_keeps m m' (pool V)" "coalesced 0 0 V k V'"
      "k < budget \<longrightarrow> (\<forall>c i. 0 \<le> i \<and> i < Order_MAX \<longrightarrow> no_buddies i (V' c i))"
    using coalesce_from_ok [OF ok wf, of 0 budget 0] by (auto simp: ORDERS_def)
  have "nblocks V c \<le> size (class_pool V c)" for c
    using ok lists_ok_D(4) by (intro nblocks_size) (auto simp: shard_ok_def)
  then have "nb V \<le> size (pool V)" by (simp add: nb_def pool_def add_mono)
  then have "k \<le> 2 ^ 52" using C(4) frames_wf_size_52 [OF wf] by (simp add: coalesced_def)
  then show ?thesis
    using C by (intro exI [of _ k] exI [of _ m'] exI [of _ s'] exI [of _ V'])
      (auto simp: coalesce_shard_def Order_FRAME_def coalesced_def)
qed

end
