(* ===== verification/Frame_Pool.thy ===== *)
theory Frame_Pool
  imports Frame_Coalesce
begin

text \<open>
  The allocator as a whole: the frontier of untouched runs, one core's attempt to serve an
  allocation, stealing from another core, and the operations callers use, as equations between
  multisets of free frames.
\<close>

subsection \<open>The frontier\<close>

definition run_mset :: "Run \<Rightarrow> nat multiset" where
  "run_mset r = run_frames (run_next r) (run_end r)"

definition frontier_frames :: "Frontier \<Rightarrow> nat multiset" where
  "frontier_frames f = (\<Sum>i < frt_count f. run_mset (frt_runs f ! i))"

definition run_ok :: "Run \<Rightarrow> bool" where
  "run_ok r \<longleftrightarrow> run_next r mod FRAME_BYTES = 0 \<and> run_end r mod FRAME_BYTES = 0 \<and> run_next r \<le> run_end r
     \<and> run_end r < 2 ^ 64"

definition frontier_ok :: "Frontier \<Rightarrow> bool" where
  "frontier_ok f \<longleftrightarrow> length (frt_runs f) = UNTOUCHED_RUNS \<and> frt_count f \<le> UNTOUCHED_RUNS
     \<and> (\<forall>i < frt_count f. run_ok (frt_runs f ! i)) \<and> unat (frt_frames f) = size (frontier_frames f)"

lemma sum_upd:
  fixes h :: "nat \<Rightarrow> 'a multiset"
  assumes "i < n"
  shows "(\<Sum>j < n. (h(i := x)) j) + h i = (\<Sum>j < n. h j) + x"
proof -
  have "(\<Sum>j < n. (h(i := x)) j) = x + (\<Sum>j \<in> {..< n} - {i}. h j)"
    using assms by (subst sum.remove [of _ i]) (auto intro!: sum.cong)
  moreover have "(\<Sum>j < n. h j) = h i + (\<Sum>j \<in> {..< n} - {i}. h j)"
    using assms by (subst sum.remove [of _ i]) auto
  ultimately show ?thesis by (simp add: ac_simps)
qed

lemma sum_update_list:
  fixes g :: "'b \<Rightarrow> 'a multiset"
  assumes "i < n" "n \<le> length xs"
  shows "(\<Sum>j < n. g (xs[i := x] ! j)) + g (xs ! i) = (\<Sum>j < n. g (xs ! j)) + g x"
proof -
  have "(\<Sum>j < n. g (xs[i := x] ! j)) = (\<Sum>j < n. ((\<lambda>j. g (xs ! j))(i := g x)) j)"
    using assms by (intro sum.cong) (auto simp: nth_list_update)
  then show ?thesis using sum_upd [OF assms(1), of "\<lambda>j. g (xs ! j)" "g x"] by simp
qed

lemma next_multiple_props:
  assumes "0 < s"
  shows "a \<le> next_multiple a s" "next_multiple a s mod s = 0"
proof -
  have "(a + s - 1) mod s < s" using assms by simp
  moreover have "(a + s - 1) div s * s + (a + s - 1) mod s = a + s - 1" by (rule div_mult_mod_eq)
  ultimately show "a \<le> next_multiple a s" unfolding next_multiple_def using assms by linarith
  show "next_multiple a s mod s = 0" by (simp add: next_multiple_def)
qed

lemma run_offers_ok:
  assumes "run_ok r" "run_offers (Order_bytes o') r = Some (aligned, stop)"
  shows "run_next r \<le> aligned" "stop = aligned + Order_bytes o'" "stop \<le> run_end r" "Order_aligns o' aligned"
    "run_mset r = run_frames (run_next r) aligned + fr o' aligned + run_frames stop (run_end r)"
proof -
  have eqs: "aligned = next_multiple (run_next r) (Order_bytes o')" "stop = aligned + Order_bytes o'"
    "stop \<le> run_end r"
    using assms(2) by (auto simp: run_offers_def checked_next_multiple_def Let_def addr_checked_add_def
        split: option.splits if_splits)
  show a: "run_next r \<le> aligned" "Order_aligns o' aligned"
    using next_multiple_props [OF Order_bytes_pos [of o'], of "run_next r"] by (simp_all add: eqs(1) Order_aligns_def)
  show "stop = aligned + Order_bytes o'" "stop \<le> run_end r" using eqs by simp_all
  have "run_frames (run_next r) (run_end r) = run_frames (run_next r) aligned + run_frames aligned (run_end r)"
    using a(1) eqs by (intro run_frames_split) auto
  moreover have "run_frames aligned (run_end r) = fr o' aligned + run_frames stop (run_end r)"
    unfolding fr_def eqs(2) [symmetric] using eqs(2,3) by (intro run_frames_split) auto
  ultimately show "run_mset r = run_frames (run_next r) aligned + fr o' aligned + run_frames stop (run_end r)"
    by (simp add: run_mset_def add.assoc)
qed

lemma frames_mod: "a mod FRAME_BYTES = 0 \<Longrightarrow> (a + Order_bytes o') mod FRAME_BYTES = 0"
  using frame_dvd_bytes [of o'] by auto

text \<open>Taking from the run at one index, which is dropped when it is used up.\<close>

lemma take_at_ok:
  fixes f :: Frontier and i :: nat and n :: u64
  assumes ok: "frontier_ok f" and i: "i < frt_count f"
    and offer: "run_offers (Order_bytes o') (frt_runs f ! i) = Some (aligned, stop)"
  defines "r \<equiv> frt_runs f ! i"
  defines "runs \<equiv> (frt_runs f)[i := r\<lparr>run_next := stop\<rparr>]" and "final \<equiv> frt_count f - 1"
  defines "f1 \<equiv> f\<lparr>frt_frames := n, frt_runs := runs\<rparr>"
    and "f2 \<equiv> f\<lparr>frt_frames := n, frt_runs := (if i \<noteq> final then runs[i := runs ! final] else runs), frt_count := final\<rparr>"
  shows "frontier_frames f = frontier_frames f1 + (run_frames (run_next r) aligned + fr o' aligned)"
    "stop \<ge> run_end r \<Longrightarrow> frontier_frames f2 = frontier_frames f1"
    "j < frt_count f \<Longrightarrow> run_ok (frt_runs f1 ! j)"
    "j < frt_count f2 \<Longrightarrow> run_ok (frt_runs f2 ! j)"
proof -
  have len: "frt_count f \<le> length (frt_runs f)" and rok: "run_ok r"
    using ok i by (simp_all add: frontier_ok_def r_def)
  note R = run_offers_ok [OF rok offer [folded r_def]]
  have split: "run_mset r = run_frames (run_next r) aligned + fr o' aligned + run_mset (r\<lparr>run_next := stop\<rparr>)"
    using R(5) by (simp add: run_mset_def)
  show "frontier_frames f = frontier_frames f1 + (run_frames (run_next r) aligned + fr o' aligned)"
    using sum_update_list [OF i len, of run_mset "r\<lparr>run_next := stop\<rparr>"] split
    by (simp add: frontier_frames_def f1_def runs_def r_def ac_simps)
  have stop: "stop mod FRAME_BYTES = 0" using R(2) frames_mod [OF aligned_frame [OF R(4)]] by simp
  show ok1: "run_ok (frt_runs f1 ! j)" if "j < frt_count f" for j
  proof (cases "j = i")
    case True
    then have "frt_runs f1 ! j = r\<lparr>run_next := stop\<rparr>" using i len by (simp add: f1_def runs_def)
    then show ?thesis using rok stop R(3) by (simp add: run_ok_def)
  next
    case False
    then have "frt_runs f1 ! j = frt_runs f ! j" by (simp add: f1_def runs_def)
    then show ?thesis using ok that by (simp add: frontier_ok_def)
  qed
  show "run_ok (frt_runs f2 ! j)" if "j < frt_count f2" for j
  proof -
    have j: "j < frt_count f" and final: "final < frt_count f" using that i by (auto simp: f2_def final_def)
    have "frt_runs f2 ! j = runs ! j \<or> frt_runs f2 ! j = runs ! final"
      using j len by (cases "i = j") (auto simp: f2_def runs_def nth_list_update)
    then show ?thesis using ok1 [OF j] ok1 [OF final] by (auto simp: f1_def)
  qed
  assume "stop \<ge> run_end r"
  then have gone: "run_mset (runs ! i) = {#}"
    using R(3) i len by (simp add: runs_def run_mset_def)
  have n: "frt_count f = Suc final" using i by (simp add: final_def)
  show "frontier_frames f2 = frontier_frames f1"
  proof (cases "i = final")
    case True
    then show ?thesis using gone by (simp add: frontier_frames_def f1_def f2_def n)
  next
    case False
    then have "i < final" "final \<le> length runs" using i n len by (simp_all add: runs_def)
    from sum_update_list [OF this, of run_mset "runs ! final"] show ?thesis
      using gone False by (simp add: frontier_frames_def f1_def f2_def n)
  qed
qed

lemma Frontier_take_from_ok:
  assumes "frontier_ok f" "k \<le> frt_count f" "frames_wf (frontier_frames f)"
    "Frontier_take_from (Order_bytes o') k f = (r, f')"
  shows "(r = None \<and> f' = f \<and> (\<forall>i < k. run_offers (Order_bytes o') (frt_runs f ! i) = None)) \<or>
    (\<exists>aligned start. r = Some (aligned, start, aligned) \<and> frontier_ok f'
      \<and> frontier_frames f = frontier_frames f' + (run_frames start aligned + fr o' aligned)
      \<and> start \<le> aligned \<and> start mod FRAME_BYTES = 0 \<and> Order_aligns o' aligned)"
  using assms
proof (induction k)
  case (Suc i)
  have len: "i < length (frt_runs f)" and i: "i < frt_count f" using Suc.prems(1,2) by (auto simp: frontier_ok_def)
  let ?r = "frt_runs f ! i"
  show ?case
  proof (cases "run_offers (Order_bytes o') ?r")
    case None
    then have "Frontier_take_from (Order_bytes o') i f = (r, f')" using Suc.prems(4) len by (simp add: get_at_def)
    then show ?thesis using Suc.IH Suc.prems(1-3) None by (auto simp: less_Suc_eq)
  next
    case (Some p)
    obtain aligned stop where p: "p = (aligned, stop)" by fastforce
    let ?n = "saturating_sub (frt_frames f) (of_nat ((stop - run_next ?r) div FRAME_BYTES))"
    let ?runs = "(frt_runs f)[i := ?r\<lparr>run_next := stop\<rparr>]" and ?final = "frt_count f - 1"
    let ?f1 = "f\<lparr>frt_frames := ?n, frt_runs := ?runs\<rparr>"
    let ?f2 = "f\<lparr>frt_frames := ?n, frt_runs := (if i \<noteq> ?final then ?runs[i := ?runs ! ?final] else ?runs),
        frt_count := ?final\<rparr>"
    have rok: "run_ok ?r" using Suc.prems(1) i by (simp add: frontier_ok_def)
    note R = run_offers_ok [OF rok Some [unfolded p]]
      and T = take_at_ok [OF Suc.prems(1) i Some [unfolded p], where n = ?n]
    have res: "r = Some (aligned, run_next ?r, aligned)" "f' = (if stop \<ge> run_end ?r then ?f2 else ?f1)"
      using Suc.prems(1,4) len i Some p by (auto simp: get_at_def Let_def frontier_ok_def split: if_splits)
    have ff: "frontier_frames f' = frontier_frames ?f1" using T(2) res(2) by simp
    have start: "run_next ?r mod FRAME_BYTES = 0" using rok by (simp add: run_ok_def)
    have al: "stop mod FRAME_BYTES = 0" using R(2) frames_mod [OF aligned_frame [OF R(4)]] by simp
    obtain c where c: "stop - run_next ?r = c * FRAME_BYTES"
      using start al by (metis dvd_diff_nat dvd_def mod_0_imp_dvd mult.commute)
    have stop: "stop = run_next ?r + c * FRAME_BYTES" using c R(1,2) by linarith
    have "run_frames (run_next ?r) stop = run_frames (run_next ?r) aligned + fr o' aligned"
      unfolding fr_def R(2) using R(1) by (rule run_frames_split) simp
    then have sz: "size (run_frames (run_next ?r) aligned + fr o' aligned) = c"
      using size_run_frames [OF start, of c] by (simp add: stop)
    have "c < 2 ^ 64"
      using frames_wf_size [OF Suc.prems(3)] sz arg_cong [OF T(1), of size] by (simp only: size_union)
    then have "unat (of_nat c :: u64) = c" by (simp add: unsigned_of_nat take_bit_nat_eq_self)
    then have "unat ?n = size (frontier_frames ?f1)"
      using Suc.prems(1) sz T(1) c by (simp add: frontier_ok_def unat_saturating_sub FRAME_BYTES_def)
    then have "frontier_ok f'"
      using Suc.prems(1) T(3,4) ff i unfolding res(2) frontier_ok_def by auto
    then show ?thesis using res(1) T(1) ff R(1,4) start by auto
  qed
qed simp

definition offers :: "Frontier \<Rightarrow> nat \<Rightarrow> bool" where
  "offers f o' \<longleftrightarrow> (\<exists>i < frt_count f. run_offers (Order_bytes o') (frt_runs f ! i) \<noteq> None)"

lemma Frontier_take_ok:
  assumes "frontier_ok f" "frames_wf (frontier_frames f)" "Frontier_take o' f = (r, f')"
  shows "(r = None \<and> f' = f \<and> \<not> offers f o') \<or>
    (\<exists>aligned start. r = Some (aligned, start, aligned) \<and> frontier_ok f'
      \<and> frontier_frames f = frontier_frames f' + (run_frames start aligned + fr o' aligned)
      \<and> start \<le> aligned \<and> start mod FRAME_BYTES = 0 \<and> Order_aligns o' aligned)"
  using Frontier_take_from_ok [OF assms(1) order_refl assms(2), of o' r f'] assms(3)
  by (auto simp: Frontier_take_def offers_def)

text \<open>A frontier that offers not even one frame is empty.\<close>

lemma no_offer_empty:
  assumes ok: "frontier_ok f" and none: "\<not> offers f 0"
  shows "frontier_frames f = {#}"
proof -
  have "run_mset (frt_runs f ! i) = {#}" if i: "i < frt_count f" for i
  proof (rule ccontr)
    let ?r = "frt_runs f ! i"
    assume ne: "run_mset ?r \<noteq> {#}"
    have r: "run_next ?r mod FRAME_BYTES = 0" "run_end ?r mod FRAME_BYTES = 0" "run_next ?r \<le> run_end ?r"
        "run_end ?r < 2 ^ 64"
      using ok i by (simp_all add: frontier_ok_def run_ok_def)
    have less: "run_next ?r < run_end ?r" using ne r(3) by (cases "run_next ?r = run_end ?r") (auto simp: run_mset_def)
    have fits: "run_next ?r + FRAME_BYTES \<le> run_end ?r"
      using dvd_imp_le [of FRAME_BYTES "run_end ?r - run_next ?r"] r(1,2) less by (auto intro: dvd_diff_nat)
    have "next_multiple (run_next ?r) FRAME_BYTES = run_next ?r"
      using r(1) by (auto simp: next_multiple_def FRAME_BYTES_def elim!: dvdE)
    then have "run_offers (Order_bytes 0) ?r \<noteq> None"
      using fits r(4) less
      by (simp add: run_offers_def checked_next_multiple_def addr_checked_add_def Order_bytes_def Let_def)
    then show False using none i by (auto simp: offers_def)
  qed
  then show ?thesis by (simp add: frontier_frames_def)
qed

subsection \<open>Refilling\<close>

text \<open>One core's shard and the shared frontier, and the frames they hold.\<close>

definition core_ok :: "Window \<Rightarrow> memory \<Rightarrow> Shard \<Rightarrow> Frontier \<Rightarrow> view \<Rightarrow> bool" where
  "core_ok w m s f V \<longleftrightarrow> shard_ok w m s V \<and> frontier_ok f"

definition core_frames :: "view \<Rightarrow> Frontier \<Rightarrow> nat multiset" where
  "core_frames V f = pool V + frontier_frames f"

definition room :: "view \<Rightarrow> bool \<Rightarrow> nat \<Rightarrow> bool" where
  "room V c order \<longleftrightarrow> (\<exists>k. order \<le> k \<and> k < ORDERS \<and> V c k \<noteq> [])"

lemma core_ok_D:
  assumes "core_ok w m s f V" "frames_wf (core_frames V f)"
  shows "shard_ok w m s V" "frontier_ok f" "frames_wf (pool V)" "frames_wf (frontier_frames f)"
  using assms frames_wf_sub [of "pool V" "frontier_frames f"] frames_wf_sub [of "frontier_frames f" "pool V"]
  by (simp_all add: core_ok_def core_frames_def add.commute)

lemma refill_hit:
  assumes ok: "core_ok w m s f V" and wf: "frames_wf (core_frames V f)" and want: "want < ORDERS"
    and take: "Frontier_take want f = (Some (b, g, g'), f')"
    and st: "give w want False b (carve w g g' (m, s)) = (m', s')"
  shows "\<exists>V'. core_ok w m' s' f' V' \<and> core_frames V' f' = core_frames V f \<and> mem_keeps m m' (frontier_frames f)
    \<and> class_pool V' True = class_pool V True \<and> V' False want \<noteq> [] \<and> size (frontier_frames f') < size (frontier_frames f)"
proof -
  note F = core_ok_D [OF ok wf]
  obtain start where T: "g = start" "g' = b" "frontier_ok f'" "start \<le> b" "start mod FRAME_BYTES = 0"
      "Order_aligns want b" "frontier_frames f = frontier_frames f' + (run_frames start b + fr want b)"
    using Frontier_take_ok [OF F(2,4) take] by auto
  obtain m1 s1 where carve: "carve w start b (m, s) = (m1, s1)" by fastforce
  have wf': "frames_wf (pool V + run_frames start b + fr want b + frontier_frames f')"
    using wf by (simp add: core_frames_def T(7) ac_simps)
  note wf1 = frames_wf_sub [OF wf'] and wf2 = frames_wf_sub [OF frames_wf_sub [OF wf']]
  obtain V1 where V1: "shard_ok w m1 s1 V1" "pool V1 = pool V + run_frames start b" "mem_keeps m m1 (run_frames start b)"
      "class_pool V1 True = class_pool V True"
    using carve_ok [OF F(1) wf2 T(5) aligned_frame [OF T(6)] T(4) carve] by auto
  have give: "give w want False b (m1, s1) = (m', s')" using st carve T(1,2) by simp
  have wf3: "frames_wf (pool V1 + fr want b)" using wf1 V1(2) by simp
  let ?V = "upd V1 False want (b # V1 False want)"
  have G: "shard_ok w m' s' ?V" "mem_keeps m1 m' (fr want b)"
    using give_ok [OF V1(1) wf3 want T(6) _ give] by simp_all
  have "mem_keeps m m' (frontier_frames f)"
    by (rule mem_keeps_mono [OF mem_keeps_trans [OF V1(3) G(2)]]) (auto simp: T(7))
  moreover have "core_frames ?V f' = core_frames V f"
    by (simp add: core_frames_def pool_push [OF want] V1(2) T(7) ac_simps)
  moreover have "size (frontier_frames f') < size (frontier_frames f)"
    using size_fr [OF T(6)] by (simp add: T(7) Order_frames_def)
  ultimately show ?thesis using G(1) T(3) V1(4) by (intro exI [of _ ?V]) (simp add: core_ok_def)
qed

lemma refill_from_ok:
  assumes "core_ok w m s f V" "frames_wf (core_frames V f)" "order \<le> want" "want < ORDERS"
    "refill_from w order want (f, m, s) = (r, f', m', s')"
  shows "(\<not> r \<and> f' = f \<and> m' = m \<and> s' = s \<and> \<not> offers f order) \<or>
    (r \<and> (\<exists>V'. core_ok w m' s' f' V' \<and> core_frames V' f' = core_frames V f \<and> mem_keeps m m' (frontier_frames f)
      \<and> class_pool V' True = class_pool V True \<and> room V' False order \<and> size (frontier_frames f') < size (frontier_frames f)))"
  using assms(3-5)
proof (induction want rule: less_induct)
  case (less want)
  obtain t f1 where take: "Frontier_take want f = (t, f1)" by fastforce
  note unfold = refill_from.simps [of w order want]
  show ?case
  proof (cases t)
    case (Some p)
    then obtain b g g' where t: "t = Some (b, g, g')" by (cases p) auto
    have "r" "f' = f1" "give w want False b (carve w g g' (m, s)) = (m', s')"
      using less.prems(3) take t by (auto simp: unfold)
    then show ?thesis
      using refill_hit [OF assms(1,2) less.prems(2) take [unfolded t]] less.prems(1,2) unfolding room_def by blast
  next
    case None
    then have miss: "f1 = f" "\<not> offers f want"
      using Frontier_take_ok [OF core_ok_D(2,4) [OF assms(1,2)] take] by auto
    show ?thesis
    proof (cases "want = order")
      case True
      then have "refill_from w order want (f, m, s) = (False, f, m, s)"
        using take None miss by (simp add: refill_from.simps [of w order order] Order_down_def)
      then show ?thesis using less.prems(3) miss True by simp
    next
      case False
      then have "refill_from w order want (f, m, s) = refill_from w order (want - 1) (f, m, s)"
        using take None miss less.prems(1) by (auto simp: unfold Order_down_def)
      then have "refill_from w order (want - 1) (f, m, s) = (r, f', m', s')" using less.prems(3) by simp
      then show ?thesis using less.IH [of "want - 1"] less.prems(1,2) False by simp
    qed
  qed
qed

lemma refill_ok:
  assumes "core_ok w m s f V" "frames_wf (core_frames V f)" "order < ORDERS"
    "refill w order (f, m, s) = (r, f', m', s')"
  shows "(\<not> r \<and> f' = f \<and> m' = m \<and> s' = s \<and> \<not> offers f order) \<or>
    (r \<and> (\<exists>V'. core_ok w m' s' f' V' \<and> core_frames V' f' = core_frames V f \<and> mem_keeps m m' (frontier_frames f)
      \<and> class_pool V' True = class_pool V True \<and> room V' False order \<and> size (frontier_frames f') < size (frontier_frames f)))"
  using refill_from_ok [OF assms(1,2) _ _ assms(4) [unfolded refill_def]] assms(3)
  by (simp add: Order_DEFAULT_def Order_HUGE_def ORDERS_def Order_MAX_def split: if_splits)

subsection \<open>One attempt\<close>

text \<open>A block of the order asked for left the core's frames.\<close>

definition core_taken ::
  "Window \<Rightarrow> nat \<Rightarrow> bool \<Rightarrow> memory \<Rightarrow> nat multiset \<Rightarrow> nat \<Rightarrow> memory \<Rightarrow> Shard \<Rightarrow> Frontier \<Rightarrow> view \<Rightarrow> bool" where
  "core_taken w order c m R b m' s' f' V' \<longleftrightarrow>
     core_ok w m' s' f' V' \<and> R = core_frames V' f' + fr order b \<and> Order_aligns order b
       \<and> mem_keeps m m' R \<and> (c \<longrightarrow> zeroed m' order b)"

lemma pop_split_core:
  assumes ok: "core_ok w m s f V" and wf: "frames_wf (core_frames V f)" and o': "order < ORDERS"
    and pop: "pop_split w order c (m, s) = (r, m', s')"
  shows "(r = None \<and> m' = m \<and> s' = s \<and> \<not> room V c order) \<or>
    (\<exists>b V'. r = Some b \<and> core_taken w order c m (core_frames V f) b m' s' f V')"
proof (cases r)
  case None
  then show ?thesis using pop_split_ok [OF core_ok_D(1,3) [OF ok wf] o' pop] by (auto simp: room_def)
next
  case (Some b)
  then have "taken w order c m V b m' s'" using pop_split_ok [OF core_ok_D(1,3) [OF ok wf] o' pop] by auto
  then obtain V' where "shard_ok w m' s' V'" "pool V = pool V' + fr order b" "Order_aligns order b"
      "mem_keeps m m' (pool V)" "c \<longrightarrow> zeroed m' order b"
    by (rule takenE)
  then have "core_taken w order c m (core_frames V f) b m' s' f V'"
    using ok unfolding core_taken_def core_frames_def core_ok_def
    by (auto simp: ac_simps intro: mem_keeps_mono)
  then show ?thesis using Some by auto
qed

lemma core_taken_after:
  assumes "core_taken w order c m1 R b m' s' f' V'" "mem_keeps m m1 R1" "set_mset R1 \<subseteq> set_mset R"
  shows "core_taken w order c m R b m' s' f' V'"
proof -
  have "mem_keeps m m' (R1 + R)" using assms(1,2) mem_keeps_trans by (auto simp: core_taken_def)
  then have "mem_keeps m m' R" by (rule mem_keeps_mono) (use assms(3) in auto)
  then show ?thesis using assms(1) by (simp add: core_taken_def)
qed

lemma attempt_refilled:
  assumes ok: "core_ok w m s f V" and wf: "frames_wf (core_frames V f)" and o': "order < ORDERS"
    and refill: "refill w order (f, m, s) = (True, f1, m1, s1)"
    and pop: "pop_split w order False (m1, s1) = (r, m', s')"
  shows "\<exists>b V'. r = Some b \<and> core_taken w order False m (core_frames V f) b m' s' f1 V'"
proof -
  obtain V1 where V1: "core_ok w m1 s1 f1 V1" "core_frames V1 f1 = core_frames V f"
      "mem_keeps m m1 (frontier_frames f)" "room V1 False order"
    using refill_ok [OF ok wf o' refill] by blast
  have wf1: "frames_wf (core_frames V1 f1)" using wf V1(2) by simp
  obtain b V' where b: "r = Some b" "core_taken w order False m1 (core_frames V f) b m' s' f1 V'"
    using pop_split_core [OF V1(1) wf1 o' pop] V1(2,4) by auto
  have "core_taken w order False m (core_frames V f) b m' s' f1 V'"
    by (rule core_taken_after [OF b(2) V1(3)]) (simp add: core_frames_def)
  then show ?thesis using b(1) by blast
qed

lemma attempt_ok:
  assumes ok: "core_ok w m s f V" and wf: "frames_wf (core_frames V f)" and o': "order < ORDERS"
    and attempt: "attempt w order pc (f, m, s) = (r, f', m', s')"
  shows "(r = None \<and> f' = f \<and> m' = m \<and> s' = s \<and> \<not> offers f order \<and> (\<forall>c. \<not> room V c order)) \<or>
    (\<exists>b src c V'. r = Some (b, src, c) \<and> core_taken w order c m (core_frames V f) b m' s' f' V')"
proof -
  obtain rc mc sc where clean: "pop_split w order True (m, s) = (rc, mc, sc)" by (metis prod_cases3)
  obtain rd md sd where dirty: "pop_split w order False (m, s) = (rd, md, sd)" by (metis prod_cases3)
  obtain rf f1 m1 s1 where refill: "refill w order (f, m, s) = (rf, f1, m1, s1)" by (metis prod_cases4)
  obtain r2 m2 s2 where second: "pop_split w order False (m1, s1) = (r2, m2, s2)" by (metis prod_cases3)
  note C = pop_split_core [OF ok wf o' clean] and D = pop_split_core [OF ok wf o' dirty]
    and R = refill_ok [OF ok wf o' refill]
  consider (clean) b where "pc" "rc = Some b"
    | (dirty) b where "pc \<longrightarrow> rc = None" "rd = Some b"
    | (refilled) b where "pc \<longrightarrow> rc = None" "rd = None" rf "r2 = Some b"
    | (empty) "pc \<longrightarrow> rc = None" "rd = None" "\<not> rf"
    using attempt_refilled [OF ok wf o' _ second, of f1] refill by (cases rc; cases rd; cases rf; cases pc) auto
  then show ?thesis
  proof cases
    case clean
    then have "r = Some (b, FromShard, True)" "f' = f" "m' = mc" "s' = sc"
      using attempt \<open>pop_split w order True (m, s) = (rc, mc, sc)\<close> by (simp_all add: attempt_def)
    then show ?thesis using C clean by auto
  next
    case dirty
    then have "r = Some (b, FromShard, False)" "f' = f" "m' = md" "s' = sd"
      using attempt C \<open>pop_split w order True (m, s) = (rc, mc, sc)\<close> \<open>pop_split w order False (m, s) = (rd, md, sd)\<close>
      by (auto simp: attempt_def split: if_splits)
    then show ?thesis using D dirty by auto
  next
    case refilled
    then have "r = Some (b, FromFrontier, False)" "f' = f1" "m' = m2" "s' = s2"
      using attempt C D \<open>pop_split w order True (m, s) = (rc, mc, sc)\<close>
        \<open>pop_split w order False (m, s) = (rd, md, sd)\<close> refill second
      by (auto simp: attempt_def split: if_splits)
    then show ?thesis using attempt_refilled [OF ok wf o' _ second, of f1] refill refilled by auto
  next
    case empty
    then have st: "md = m" "sd = s" "m1 = m" "s1 = s" "f1 = f" "pc \<longrightarrow> mc = m \<and> sc = s" using C D R by auto
    show ?thesis
    proof (cases rc)
      case None
      then have "r = None" "f' = f" "m' = m" "s' = s"
        using attempt C D R st empty \<open>pop_split w order True (m, s) = (rc, mc, sc)\<close>
          \<open>pop_split w order False (m, s) = (rd, md, sd)\<close> refill
        by (auto simp: attempt_def split: if_splits)
      moreover have "\<not> room V c order" for c using C D None empty by (cases c) auto
      ultimately show ?thesis using R empty by auto
    next
      case (Some b)
      then have "r = Some (b, FromShard, True)" "f' = f" "m' = mc" "s' = sc"
        using attempt st empty \<open>pop_split w order True (m, s) = (rc, mc, sc)\<close>
          \<open>pop_split w order False (m, s) = (rd, md, sd)\<close> refill
        by (auto simp: attempt_def split: if_splits)
      then show ?thesis using C Some by auto
    qed
  qed
qed

end
