(* ===== verification/Frame_System.thy ===== *)
theory Frame_System
  imports Frame_Pool
begin

text \<open>
  The whole allocator: every core's shard and the frontier together hold each free frame once.
  Operations on one core leave the others alone, stealing moves a block between cores, and
  allocating, freeing, coalescing and scrubbing are equations on the multiset of free frames.
\<close>

subsection \<open>All shards\<close>

definition shards_ok :: "Window \<Rightarrow> memory \<Rightarrow> Shard list \<Rightarrow> (nat \<Rightarrow> view) \<Rightarrow> bool" where
  "shards_ok w m shards Vs \<longleftrightarrow> length shards = MAX_CPUS \<and> (\<forall>i < MAX_CPUS. shard_ok w m (shards ! i) (Vs i))"

definition pools :: "(nat \<Rightarrow> view) \<Rightarrow> nat multiset" where
  "pools Vs = (\<Sum>i < MAX_CPUS. pool (Vs i))"

lemma pools_upd:
  assumes "cpu < MAX_CPUS"
  shows "pools (Vs(cpu := V')) + pool (Vs cpu) = pools Vs + pool V'"
proof -
  have "(\<lambda>i. pool ((Vs(cpu := V')) i)) = (\<lambda>i. pool (Vs i))(cpu := pool V')" by auto
  then show ?thesis using sum_upd [OF assms, of "\<lambda>i. pool (Vs i)" "pool V'"] by (simp only: pools_def)
qed

lemma pools_split:
  assumes "cpu < MAX_CPUS"
  obtains R where "pools Vs = pool (Vs cpu) + R" "\<And>i. i < MAX_CPUS \<Longrightarrow> i \<noteq> cpu \<Longrightarrow> pool (Vs i) \<subseteq># R"
proof
  let ?R = "\<Sum>i \<in> {..< MAX_CPUS} - {cpu}. pool (Vs i)"
  show "pools Vs = pool (Vs cpu) + ?R" unfolding pools_def using assms by (subst sum.remove [of _ cpu]) auto
  show "pool (Vs i) \<subseteq># ?R" if "i < MAX_CPUS" "i \<noteq> cpu" for i
    using that by (subst sum.remove [of _ i]) auto
qed

lemma shards_update:
  assumes ok: "shards_ok w m shards Vs" and wf: "frames_wf (pools Vs + Y)" and cpu: "cpu < MAX_CPUS"
    and new: "shard_ok w m' s' V'" and keeps: "mem_keeps m m' (pool (Vs cpu) + Y)"
  shows "shards_ok w m' (shards[cpu := s']) (Vs(cpu := V'))"
proof -
  obtain R where R: "pools Vs = pool (Vs cpu) + R"
      "\<And>i. i < MAX_CPUS \<Longrightarrow> i \<noteq> cpu \<Longrightarrow> pool (Vs i) \<subseteq># R"
    using pools_split [OF cpu] by blast
  have "shard_ok w m' (shards ! i) (Vs i)" if i: "i < MAX_CPUS" "i \<noteq> cpu" for i
  proof (rule shard_ok_keeps [OF _ keeps])
    show "shard_ok w m (shards ! i) (Vs i)" using ok i by (simp add: shards_ok_def)
    obtain Z where "R = pool (Vs i) + Z" using R(2) [OF i] by (metis mset_subset_eq_exists_conv)
    then show "frames_wf (pool (Vs i) + (pool (Vs cpu) + Y))"
      using wf R(1) frames_wf_sub [of "pool (Vs i) + (pool (Vs cpu) + Y)" Z] by (simp add: ac_simps)
  qed
  then show ?thesis using ok new cpu by (auto simp: shards_ok_def nth_list_update)
qed

subsection \<open>Stealing\<close>

lemma pop_counted:
  assumes "shard_ok w m s V" "frames_wf (pool V)" "at < ORDERS" "list_pop w c at (m, s) = (Some b, s1)"
  shows "taken w at c m V b m
    (Shard_set_frames c (saturating_sub (Shard_frames s1 c) (of_nat (Order_frames at))) s1)"
  using pop_split_hit [OF assms(1,2) order_refl assms(3,4)] by (simp add: split_down.simps)

lemma steal_hit:
  assumes ok: "shards_ok w m shards Vs" and wf: "frames_wf (pools Vs)"
    and me: "me < MAX_CPUS" and cpu: "cpu < MAX_CPUS" "cpu \<noteq> me" and at: "at < ORDERS"
    and pop: "list_pop w c at (m, shards ! cpu) = (Some b, s1)"
    and victim: "victim = Shard_set_frames c (saturating_sub (Shard_frames s1 c) (of_nat (Order_frames at))) s1"
    and give: "give w at c b (m, shards[cpu := victim] ! me) = (m', mine)"
  shows "\<exists>Vs'. shards_ok w m' (shards[cpu := victim, me := mine]) Vs' \<and> pools Vs' = pools Vs
    \<and> mem_keeps m m' (pools Vs) \<and> Vs' me c at \<noteq> []"
proof -
  have sh: "shard_ok w m (shards ! cpu) (Vs cpu)" "shard_ok w m (shards ! me) (Vs me)"
    using ok me cpu by (simp_all add: shards_ok_def)
  have wfc: "frames_wf (pool (Vs cpu))" using wf pools_split [OF cpu(1), of Vs] frames_wf_sub by metis
  obtain V1 where V1: "shard_ok w m victim V1" "pool (Vs cpu) = pool V1 + fr at b" "Order_aligns at b"
      "c \<longrightarrow> zeroed m at b"
    using pop_counted [OF sh(1) wfc at pop] victim by (auto elim: takenE)
  let ?Vs = "Vs(cpu := V1)"
  have pools1: "pools Vs = pools ?Vs + fr at b"
    using pools_upd [OF cpu(1), of Vs V1] V1(2) by (simp add: ac_simps)
  have ok1: "shards_ok w m (shards[cpu := victim]) ?Vs"
    by (rule shards_update [where Y = "{#}", OF ok _ cpu(1) V1(1)]) (simp_all add: wf)
  obtain R where R: "pools ?Vs = pool (?Vs me) + R" using pools_split [OF me, of ?Vs] by metis
  have wfm: "frames_wf (pool (Vs me) + fr at b)"
    using wf pools1 R cpu(2) frames_wf_sub [of "pool (Vs me) + fr at b" R] by (simp add: ac_simps)
  have "shards[cpu := victim] ! me = shards ! me" using cpu(2) by simp
  then have G: "shard_ok w m' mine (upd (Vs me) c at (b # Vs me c at))" "mem_keeps m m' (fr at b)"
    using give_ok [OF sh(2) wfm at V1(3,4)] give by simp_all
  let ?V = "upd (Vs me) c at (b # Vs me c at)"
  have "shards_ok w m' (shards[cpu := victim, me := mine]) (?Vs(me := ?V))"
    by (rule shards_update [OF ok1 _ me G(1), of "fr at b"])
      (use wf pools1 G(2) in \<open>auto intro: mem_keeps_mono\<close>)
  moreover have "pools (?Vs(me := ?V)) = pools Vs"
    using pools_upd [OF me, of ?Vs ?V] cpu(2) pools1 by (simp add: pool_push [OF at] ac_simps)
  moreover have "mem_keeps m m' (pools Vs)" by (rule mem_keeps_mono [OF G(2)]) (simp add: pools1)
  ultimately show ?thesis by (intro exI [of _ "?Vs(me := ?V)"]) simp
qed

lemma steal_from_ok:
  assumes "shards_ok w m shards Vs" "frames_wf (pools Vs)" "me < MAX_CPUS" "at < ORDERS"
    "\<forall>(cpu, c) \<in> set cs. cpu < MAX_CPUS" "steal_from w me cs at (m, shards) = (r, m', shards')"
  shows "(\<not> r \<and> m' = m \<and> shards' = shards \<and> (\<forall>(cpu, c) \<in> set cs. cpu \<noteq> me \<longrightarrow> Vs cpu c at = [])) \<or>
    (r \<and> (\<exists>Vs' c. shards_ok w m' shards' Vs' \<and> pools Vs' = pools Vs \<and> mem_keeps m m' (pools Vs) \<and> Vs' me c at \<noteq> []))"
  using assms(5,6)
proof (induction cs)
  case (Cons p cs)
  obtain cpu c where p: "p = (cpu, c)" by fastforce
  have cpu: "cpu < MAX_CPUS" using Cons.prems(1) p by simp
  obtain t s1 where pop: "list_pop w c at (m, shards ! cpu) = (t, s1)" by fastforce
  show ?case
  proof (cases "cpu = me \<or> t = None")
    case True
    then have rec: "steal_from w me cs at (m, shards) = (r, m', shards')"
      using Cons.prems(2) p pop by (cases "cpu = me") auto
    have "Vs cpu c at = []" if "cpu \<noteq> me"
      using pop_ok [of w m "shards ! cpu" "Vs cpu" at c t s1] assms(1,4) cpu pop True that
      by (auto simp: shards_ok_def shard_ok_def)
    then show ?thesis using Cons.IH [OF _ rec] Cons.prems(1) p by auto
  next
    case False
    then obtain b where t: "t = Some b" "cpu \<noteq> me" by auto
    let ?victim = "Shard_set_frames c (saturating_sub (Shard_frames s1 c) (of_nat (Order_frames at))) s1"
    obtain m1 mine where give: "give w at c b (m, shards[cpu := ?victim] ! me) = (m1, mine)" by fastforce
    have "r" "m' = m1" "shards' = shards[cpu := ?victim, me := mine]"
      using Cons.prems(2) p pop t give by (auto simp: Let_def)
    then show ?thesis
      using steal_hit [OF assms(1-3) cpu t(2) assms(4) pop [unfolded t(1)] refl give] by blast
  qed
qed auto

lemma steal_order_ok:
  assumes "shards_ok w m shards Vs" "frames_wf (pools Vs)" "me < MAX_CPUS" "at < ORDERS"
    "steal_order w me at (m, shards) = (r, m', shards')"
  shows "(\<not> r \<and> m' = m \<and> shards' = shards \<and> (\<forall>i < MAX_CPUS. \<forall>c. i \<noteq> me \<longrightarrow> \<not> room (Vs i) c at)) \<or>
    (r \<and> (\<exists>Vs' c. shards_ok w m' shards' Vs' \<and> pools Vs' = pools Vs \<and> mem_keeps m m' (pools Vs) \<and> room (Vs' me) c at))"
  using assms(4,5)
proof (induction "Order_MAX - at" arbitrary: at rule: less_induct)
  case less
  let ?cs = "List.product [0..<MAX_CPUS] [False, True]"
  obtain t m1 sh1 where first: "steal_from w me ?cs at (m, shards) = (t, m1, sh1)" by (metis prod_cases3)
  have "\<forall>(cpu, c) \<in> set ?cs. cpu < MAX_CPUS" by auto
  note S = steal_from_ok [OF assms(1-3) less.prems(1) this first]
  show ?case
  proof (cases t)
    case True
    then have "r" "m' = m1" "shards' = sh1" using less.prems(2) first by (simp_all add: steal_order.simps [of w me at])
    then show ?thesis using S True less.prems(1) unfolding room_def by blast
  next
    case False
    then have none: "m1 = m" "sh1 = shards" using S by auto
    have empty: "Vs i c at = []" if "i < MAX_CPUS" "i \<noteq> me" for i c
    proof -
      have "(i, c) \<in> set ?cs" using that by (cases c) auto
      then show ?thesis using S False that(2) by blast
    qed
    show ?thesis
    proof (cases "at < Order_MAX")
      case True
      then have rec: "steal_order w me (Suc at) (m, shards) = (r, m', shards')"
        using less.prems(2) first False none by (simp add: steal_order.simps [of w me at] Order_up_def)
      have up: "room V c at \<longleftrightarrow> V c at \<noteq> [] \<or> room V c (Suc at)" for V c
        unfolding room_def using less.prems(1) by (metis Suc_leD Suc_leI le_neq_implies_less order_refl)
      have "Suc at < ORDERS" "Order_MAX - Suc at < Order_MAX - at" using True by (simp_all add: ORDERS_def)
      from less.hyps [OF this(2,1) rec] show ?thesis using empty up by metis
    next
      case False
      then have "room V c at \<longleftrightarrow> V c at \<noteq> []" for V c
        unfolding room_def using less.prems(1) by (auto simp: ORDERS_def less_Suc_eq_le)
      moreover have "steal_order w me at (m, shards) = (False, m, shards)"
        using first \<open>\<not> t\<close> none False by (simp add: steal_order.simps [of w me at] Order_up_def)
      ultimately show ?thesis using less.prems(2) empty by auto
    qed
  qed
qed

subsection \<open>The allocator\<close>

definition fa_ok :: "memory \<Rightarrow> FrameAllocator \<Rightarrow> (nat \<Rightarrow> view) \<Rightarrow> bool" where
  "fa_ok m fa Vs \<longleftrightarrow> shards_ok (fa_map fa) m (fa_shards fa) Vs \<and> frontier_ok (fa_frontier fa)"

definition fa_frames :: "FrameAllocator \<Rightarrow> (nat \<Rightarrow> view) \<Rightarrow> nat multiset" where
  "fa_frames fa Vs = pools Vs + frontier_frames (fa_frontier fa)"

text \<open>The abstraction: the allocator's free memory is the frames \<open>R\<close>, each of them once.\<close>

definition sound :: "memory \<Rightarrow> FrameAllocator \<Rightarrow> nat multiset \<Rightarrow> bool" where
  "sound m fa R \<longleftrightarrow> (\<exists>Vs. fa_ok m fa Vs \<and> fa_frames fa Vs = R) \<and> frames_wf R"

lemma fa_core:
  assumes "fa_ok m fa Vs" "frames_wf (fa_frames fa Vs + Y)" "cpu < MAX_CPUS"
  shows "core_ok (fa_map fa) m (fa_shards fa ! cpu) (fa_frontier fa) (Vs cpu)"
    "frames_wf (core_frames (Vs cpu) (fa_frontier fa) + Y)"
proof -
  show "core_ok (fa_map fa) m (fa_shards fa ! cpu) (fa_frontier fa) (Vs cpu)"
    using assms(1,3) by (simp add: fa_ok_def core_ok_def shards_ok_def)
  obtain R where "pools Vs = pool (Vs cpu) + R" using pools_split [OF assms(3)] by blast
  then show "frames_wf (core_frames (Vs cpu) (fa_frontier fa) + Y)"
    using assms(2) frames_wf_sub [of "core_frames (Vs cpu) (fa_frontier fa) + Y" R]
    by (simp add: fa_frames_def core_frames_def ac_simps)
qed

text \<open>A step of one core, from \<open>X\<close> taken out to \<open>Y\<close> given in.\<close>

lemma core_step:
  assumes ok: "fa_ok m fa Vs" and wf: "frames_wf (fa_frames fa Vs + Y)" and cpu: "cpu < MAX_CPUS"
    and core: "core_ok (fa_map fa) m' s' f' V'" and keeps: "mem_keeps m m' (core_frames (Vs cpu) (fa_frontier fa) + Y)"
    and frames: "core_frames V' f' + X = core_frames (Vs cpu) (fa_frontier fa) + Y"
    and fa': "fa_map fa' = fa_map fa" "fa_frontier fa' = f'" "fa_shards fa' = (fa_shards fa)[cpu := s']"
  shows "fa_ok m' fa' (Vs(cpu := V'))" "fa_frames fa' (Vs(cpu := V')) + X = fa_frames fa Vs + Y"
proof -
  have "shards_ok (fa_map fa) m' ((fa_shards fa)[cpu := s']) (Vs(cpu := V'))"
    by (rule shards_update [of _ m _ _ "frontier_frames (fa_frontier fa) + Y"])
      (use ok wf cpu core keeps in \<open>auto simp: fa_ok_def core_ok_def fa_frames_def core_frames_def ac_simps\<close>)
  then show "fa_ok m' fa' (Vs(cpu := V'))" using core by (simp add: fa_ok_def core_ok_def fa')
  let ?P = "pools (Vs(cpu := V'))" and ?p = "pool (Vs cpu)" and ?f = "frontier_frames (fa_frontier fa)"
    and ?f' = "frontier_frames f'"
  have "(?P + ?f' + X) + ?p = (?P + ?p) + (?f' + X)" by (simp only: ac_simps)
  also have "\<dots> = (pools Vs + pool V') + (?f' + X)" by (simp only: pools_upd [OF cpu])
  also have "\<dots> = pools Vs + (pool V' + ?f' + X)" by (simp only: ac_simps)
  also have "\<dots> = pools Vs + (?p + ?f + Y)" using frames by (simp only: core_frames_def)
  also have "\<dots> = (pools Vs + ?f + Y) + ?p" by (simp only: ac_simps)
  finally show "fa_frames fa' (Vs(cpu := V')) + X = fa_frames fa Vs + Y"
    by (simp only: fa_frames_def fa' add_right_cancel)
qed

end
