(* ===== verification/Frame_Ops.thy ===== *)
theory Frame_Ops
  imports Frame_System
begin

text \<open>
  The operations of the frame allocator against its free memory: taking a block, freeing one,
  coalescing a core's lists and scrubbing dirty blocks.
\<close>

subsection \<open>Taking a block\<close>

text \<open>A block of the order asked for has left the free memory \<open>R\<close>.\<close>

definition allotted :: "nat \<Rightarrow> bool \<Rightarrow> memory \<Rightarrow> nat multiset \<Rightarrow> nat \<Rightarrow> memory \<Rightarrow> FrameAllocator \<Rightarrow> bool" where
  "allotted order c m R b m' fa' \<longleftrightarrow>
     (\<exists>R'. sound m' fa' R' \<and> R = R' + fr order b) \<and> Order_aligns order b \<and> mem_keeps m m' R
       \<and> (c \<longrightarrow> zeroed m' order b)"

text \<open>No run of the frontier and no list of any core holds a block of the order or above.\<close>

definition fa_exhausted :: "FrameAllocator \<Rightarrow> nat \<Rightarrow> bool" where
  "fa_exhausted fa order \<longleftrightarrow> \<not> offers (fa_frontier fa) order
     \<and> (\<forall>i < MAX_CPUS. \<forall>c k. order \<le> k \<and> k < ORDERS \<longrightarrow> Lists_head (Shard_lists (fa_shards fa ! i) c) k = 0)"

lemma core_step_out:
  assumes ok: "fa_ok m fa Vs" and wf: "frames_wf (fa_frames fa Vs)" and cpu: "cpu < MAX_CPUS"
    and core: "core_ok (fa_map fa) m' s' f' V'" and keeps: "mem_keeps m m' (core_frames (Vs cpu) (fa_frontier fa))"
    and frames: "core_frames (Vs cpu) (fa_frontier fa) = core_frames V' f' + X"
    and fa': "fa_map fa' = fa_map fa" "fa_frontier fa' = f'" "fa_shards fa' = (fa_shards fa)[cpu := s']"
  shows "fa_ok m' fa' (Vs(cpu := V'))" "fa_frames fa Vs = fa_frames fa' (Vs(cpu := V')) + X"
    "mem_keeps m m' (fa_frames fa Vs)"
proof -
  have wf0: "frames_wf (fa_frames fa Vs + {#})" and keeps0: "mem_keeps m m' (core_frames (Vs cpu) (fa_frontier fa) + {#})"
    and frames0: "core_frames V' f' + X = core_frames (Vs cpu) (fa_frontier fa) + {#}"
    using wf keeps frames by simp_all
  note S = core_step [OF ok wf0 cpu core keeps0 frames0 fa']
  show "fa_ok m' fa' (Vs(cpu := V'))" "fa_frames fa Vs = fa_frames fa' (Vs(cpu := V')) + X" using S by simp_all
  obtain R where "pools Vs = pool (Vs cpu) + R" using pools_split [OF cpu] by blast
  then show "mem_keeps m m' (fa_frames fa Vs)"
    by (intro mem_keeps_mono [OF keeps]) (auto simp: fa_frames_def core_frames_def)
qed

lemma fa_core0:
  assumes "fa_ok m fa Vs" "frames_wf (fa_frames fa Vs)" "cpu < MAX_CPUS"
  shows "core_ok (fa_map fa) m (fa_shards fa ! cpu) (fa_frontier fa) (Vs cpu)"
    "frames_wf (core_frames (Vs cpu) (fa_frontier fa))"
  using fa_core [OF assms(1) _ assms(3), of "{#}"] assms(2) by simp_all

lemma sound_sub:
  assumes "fa_ok m fa Vs" "frames_wf (fa_frames fa Vs + X)"
  shows "sound m fa (fa_frames fa Vs)"
  using assms frames_wf_sub unfolding sound_def by blast

lemma attempt_on_ok:
  assumes ok: "fa_ok m fa Vs" and wf: "frames_wf (fa_frames fa Vs)" and cpu: "cpu < MAX_CPUS" and o': "order < ORDERS"
    and att: "attempt_on cpu order pc (m, fa) = (r, m', fa')"
  shows "(r = None \<and> m' = m \<and> fa' = fa \<and> \<not> offers (fa_frontier fa) order \<and> (\<forall>c. \<not> room (Vs cpu) c order)) \<or>
    (\<exists>b src c. r = Some (b, src, c) \<and> allotted order c m (fa_frames fa Vs) b m' fa')"
proof -
  obtain f1 s1 where at: "attempt (fa_map fa) order pc (fa_frontier fa, m, fa_shards fa ! cpu) = (r, f1, m', s1)"
      and fa': "fa' = fa\<lparr>fa_frontier := f1, fa_shards := (fa_shards fa)[cpu := s1]\<rparr>"
    using att by (auto simp: attempt_on_def split: prod.splits)
  note C = fa_core0 [OF ok wf cpu]
  show ?thesis
  proof (cases r)
    case None
    then show ?thesis using attempt_ok [OF C o' at] fa' by simp
  next
    case (Some p)
    then obtain b src c V' where r: "r = Some (b, src, c)"
        and T: "core_taken (fa_map fa) order c m (core_frames (Vs cpu) (fa_frontier fa)) b m' s1 f1 V'"
      using attempt_ok [OF C o' at] by blast
    have T': "core_ok (fa_map fa) m' s1 f1 V'" "mem_keeps m m' (core_frames (Vs cpu) (fa_frontier fa))"
        "core_frames (Vs cpu) (fa_frontier fa) = core_frames V' f1 + fr order b"
        "Order_aligns order b" "c \<longrightarrow> zeroed m' order b"
      using T unfolding core_taken_def by blast+
    have F: "fa_map fa' = fa_map fa" "fa_frontier fa' = f1" "fa_shards fa' = (fa_shards fa)[cpu := s1]"
      by (simp_all add: fa')
    note S = core_step_out [OF ok wf cpu T'(1-3) F]
    have "sound m' fa' (fa_frames fa' (Vs(cpu := V')))" by (rule sound_sub [OF S(1)]) (use wf S(2) in simp)
    then show ?thesis unfolding allotted_def using r S(2,3) T'(4,5) by blast
  qed
qed

lemma coalesce_on_ok:
  assumes ok: "fa_ok m fa Vs" and wf: "frames_wf (fa_frames fa Vs)" and cpu: "cpu < MAX_CPUS"
  shows "\<exists>k m' fa' V'. coalesce_on cpu budget (m, fa) = Some (k, m', fa') \<and> fa_ok m' fa' (Vs(cpu := V'))
    \<and> fa_frames fa' (Vs(cpu := V')) = fa_frames fa Vs \<and> mem_keeps m m' (fa_frames fa Vs)
    \<and> (\<forall>c. class_pool V' c = class_pool (Vs cpu) c) \<and> k \<le> 2 ^ 52
    \<and> (k < budget \<longrightarrow> (\<forall>c i. i < Order_MAX \<longrightarrow> no_buddies i (V' c i)))"
proof -
  note C = fa_core0 [OF ok wf cpu]
  obtain k m' s' V' where S: "coalesce_shard (fa_map fa) budget (m, fa_shards fa ! cpu) = Some (k, m', s')"
      "shard_ok (fa_map fa) m' s' V'" "mem_keeps m m' (pool (Vs cpu))" "\<forall>c. class_pool V' c = class_pool (Vs cpu) c"
      "k \<le> 2 ^ 52" "k < budget \<longrightarrow> (\<forall>c i. i < Order_MAX \<longrightarrow> no_buddies i (V' c i))"
    using coalesce_shard_ok [OF core_ok_D(1,3) [OF C]] by blast
  let ?fa = "fa\<lparr>fa_shards := (fa_shards fa)[cpu := s']\<rparr>"
  have pool: "pool V' = pool (Vs cpu)" using S(4) by (simp add: pool_def)
  have keeps: "mem_keeps m m' (core_frames (Vs cpu) (fa_frontier fa))"
    by (rule mem_keeps_mono [OF S(3)]) (simp add: core_frames_def)
  have "core_ok (fa_map fa) m' s' (fa_frontier fa) V'" using S(2) C(1) by (simp add: core_ok_def)
  note T = core_step_out [OF ok wf cpu this keeps, where X = "{#}" and fa' = ?fa]
  have "coalesce_on cpu budget (m, fa) = Some (k, m', ?fa)" using S(1) by (simp add: coalesce_on_def)
  moreover have "fa_ok m' ?fa (Vs(cpu := V'))" "fa_frames ?fa (Vs(cpu := V')) = fa_frames fa Vs"
      "mem_keeps m m' (fa_frames fa Vs)"
    using T by (simp_all add: core_frames_def pool)
  ultimately show ?thesis using S(4-6) by blast
qed

lemma shard_ok_record [simp]: "shard_ok w m (record_path src stolen s) V = shard_ok w m s V"
  by (cases src) (simp_all add: record_path_def shard_ok_def counts_ok_def)

lemma fa_ok_record [simp]: "fa_ok m (record_on cpu src stolen fa) Vs = fa_ok m fa Vs"
proof -
  have "shard_ok w m (fa_shards (record_on cpu src stolen fa) ! i) V = shard_ok w m (fa_shards fa ! i) V"
    if "i < length (fa_shards fa)" for w i V
    using that by (cases "i = cpu") (simp_all add: record_on_def)
  then show ?thesis by (auto simp: fa_ok_def shards_ok_def record_on_def)
qed

lemma fa_frames_record [simp]: "fa_frames (record_on cpu src stolen fa) Vs = fa_frames fa Vs"
  by (simp add: fa_frames_def record_on_def)

lemma allotted_record: "allotted order c m R b m' fa' \<Longrightarrow> allotted order c m R b m' (record_on cpu src stolen fa')"
  by (simp add: allotted_def sound_def)

text \<open>A core whose lists are empty from an order up, read off the list heads.\<close>

lemma no_room_heads:
  assumes "shard_ok w m s V" "\<not> room V c order" "order \<le> k" "k < ORDERS"
  shows "Lists_head (Shard_lists s c) k = 0"
proof -
  have "V c k = []" using assms(2-4) by (auto simp: room_def)
  moreover have "lists_ok w m s V" using assms(1) by (simp add: shard_ok_def)
  ultimately show ?thesis using lists_ok_D(2,3) [of w m s V k c] assms(4) by simp
qed

lemma fa_exhaustedI:
  assumes "fa_ok m fa Vs" "\<not> offers (fa_frontier fa) order" "\<And>i c. i < MAX_CPUS \<Longrightarrow> \<not> room (Vs i) c order"
  shows "fa_exhausted fa order"
  using assms no_room_heads unfolding fa_exhausted_def fa_ok_def shards_ok_def by blast

lemma allotted_after:
  assumes "allotted order c m1 R b m' fa'" "mem_keeps m m1 R"
  shows "allotted order c m R b m' fa'"
proof -
  have "mem_keeps m m' (R + R)" using assms mem_keeps_trans by (auto simp: allotted_def)
  then have "mem_keeps m m' R" by (rule mem_keeps_mono) simp
  then show ?thesis using assms(1) by (simp add: allotted_def)
qed

text \<open>
  What \<open>take\<close> leaves behind: the block it found, or no block of the order anywhere and the free
  memory as it was.
\<close>

definition take_done ::
  "nat \<Rightarrow> memory \<Rightarrow> nat multiset \<Rightarrow> (nat \<times> bool) option \<Rightarrow> memory \<Rightarrow> FrameAllocator \<Rightarrow> bool" where
  "take_done order m R hit m' fa' \<longleftrightarrow>
     (case hit of
        None \<Rightarrow> sound m' fa' R \<and> mem_keeps m m' R \<and> fa_exhausted fa' order
      | Some (b, c) \<Rightarrow> allotted order c m R b m' fa')"

lemma steal_then_attempt:
  assumes ok: "fa_ok m fa Vs" and wf: "frames_wf (fa_frames fa Vs)" and cpu: "cpu < MAX_CPUS" and o': "order < ORDERS"
    and steal: "steal (fa_map fa) cpu order (m, fa_shards fa) = (True, m1, shards)"
    and att: "attempt_on cpu order pc (m1, fa\<lparr>fa_shards := shards\<rparr>) = (r, m', fa')"
  shows "\<exists>b src c. r = Some (b, src, c) \<and> allotted order c m (fa_frames fa Vs) b m' fa'"
proof -
  have sh: "shards_ok (fa_map fa) m (fa_shards fa) Vs" "frames_wf (pools Vs)"
    using ok wf frames_wf_sub by (auto simp: fa_ok_def fa_frames_def)
  obtain Vs' c where S: "shards_ok (fa_map fa) m1 shards Vs'" "pools Vs' = pools Vs" "mem_keeps m m1 (pools Vs)"
      "room (Vs' cpu) c order"
    using steal_order_ok [OF sh cpu o' steal [unfolded steal_def]] by blast
  let ?fa = "fa\<lparr>fa_shards := shards\<rparr>"
  have ok1: "fa_ok m1 ?fa Vs'" and eq: "fa_frames ?fa Vs' = fa_frames fa Vs"
    using ok S(1,2) by (simp_all add: fa_ok_def fa_frames_def)
  have wf1: "frames_wf (fa_frames ?fa Vs')" using wf eq by simp
  obtain b src c where "r = Some (b, src, c)" "allotted order c m1 (fa_frames ?fa Vs') b m' fa'"
    using attempt_on_ok [OF ok1 wf1 cpu o' att] S(4) by blast
  moreover have "mem_keeps m m1 (fa_frames fa Vs)" by (rule mem_keeps_mono [OF S(3)]) (simp add: fa_frames_def)
  ultimately have "r = Some (b, src, c)" "allotted order c m (fa_frames fa Vs) b m' fa'"
    using allotted_after [where c = c] unfolding eq by simp_all
  then show ?thesis by blast
qed

lemma take_coalesced:
  assumes ok: "fa_ok m fa Vs" and wf: "frames_wf (fa_frames fa Vs)" and cpu: "cpu < MAX_CPUS" and o': "order < ORDERS"
  shows "\<exists>hit m' fa'.
    (case attempt_on cpu order pc (m, fa) of
       (Some (block, source, clean), m, fa) \<Rightarrow> Some (Some (block, clean), m, record_on cpu source False fa)
     | (None, m, fa) \<Rightarrow>
         (case steal (fa_map fa) cpu order (m, fa_shards fa) of
            (False, m, shards) \<Rightarrow> Some (None, m, fa\<lparr>fa_shards := shards\<rparr>)
          | (True, m, shards) \<Rightarrow>
              (case attempt_on cpu order pc (m, fa\<lparr>fa_shards := shards\<rparr>) of
                 (Some (block, source, clean), m, fa) \<Rightarrow> Some (Some (block, clean), m, record_on cpu source True fa)
               | (None, st) \<Rightarrow> Some (None, st)))) = Some (hit, m', fa')
    \<and> take_done order m (fa_frames fa Vs) hit m' fa'"
proof -
  obtain r1 m1 fa1 where att: "attempt_on cpu order pc (m, fa) = (r1, m1, fa1)" by (metis prod_cases3)
  note A = attempt_on_ok [OF ok wf cpu o' att]
  show ?thesis
  proof (cases r1)
    case (Some p)
    then obtain b src c where r1: "r1 = Some (b, src, c)" "allotted order c m (fa_frames fa Vs) b m1 fa1"
      using A by blast
    then show ?thesis using att allotted_record by (auto simp: take_done_def)
  next
    case None
    then have miss: "m1 = m" "fa1 = fa" "\<not> offers (fa_frontier fa) order" "\<And>c. \<not> room (Vs cpu) c order"
      using A by blast+
    obtain t m2 shards where steal: "steal (fa_map fa) cpu order (m, fa_shards fa) = (t, m2, shards)"
      by (metis prod_cases3)
    show ?thesis
    proof (cases t)
      case False
      have sh: "shards_ok (fa_map fa) m (fa_shards fa) Vs" "frames_wf (pools Vs)"
        using ok wf frames_wf_sub by (auto simp: fa_ok_def fa_frames_def)
      have st: "m2 = m" "shards = fa_shards fa" "\<And>i c. i < MAX_CPUS \<Longrightarrow> i \<noteq> cpu \<Longrightarrow> \<not> room (Vs i) c order"
        using steal_order_ok [OF sh cpu o' steal [unfolded steal_def]] False by blast+
      have "fa_exhausted fa order" by (rule fa_exhaustedI [OF ok miss(3)]) (use miss(4) st(3) in blast)
      moreover have "sound m fa (fa_frames fa Vs)" using ok wf by (auto simp: sound_def)
      ultimately show ?thesis using att None miss steal False st by (simp add: take_done_def)
    next
      case True
      obtain r3 m3 fa3 where att3: "attempt_on cpu order pc (m2, fa\<lparr>fa_shards := shards\<rparr>) = (r3, m3, fa3)"
        by (metis prod_cases3)
      obtain b src c where "r3 = Some (b, src, c)" "allotted order c m (fa_frames fa Vs) b m3 fa3"
        using steal_then_attempt [OF ok wf cpu o' _ att3] steal True by auto
      then show ?thesis using att None miss steal True att3 allotted_record by (auto simp: take_done_def)
    qed
  qed
qed

lemma take_ok:
  assumes sound: "sound m fa R" and cpu: "cpu < MAX_CPUS" and o': "order < ORDERS"
  shows "\<exists>hit m' fa'. FrameAllocator_take cpu order pc (m, fa) = Some (hit, m', fa') \<and> take_done order m R hit m' fa'"
proof -
  obtain Vs where ok: "fa_ok m fa Vs" and R: "fa_frames fa Vs = R" and wf: "frames_wf (fa_frames fa Vs)"
    using sound by (auto simp: sound_def)
  obtain r1 m1 fa1 where att: "attempt_on cpu order pc (m, fa) = (r1, m1, fa1)" by (metis prod_cases3)
  note A = attempt_on_ok [OF ok wf cpu o' att]
  show ?thesis
  proof (cases r1)
    case (Some p)
    then obtain b src c where "r1 = Some (b, src, c)" "allotted order c m R b m1 fa1" using A R by blast
    then show ?thesis using att allotted_record by (auto simp: FrameAllocator_take_def take_done_def)
  next
    case None
    then have miss: "m1 = m" "fa1 = fa" using A by blast+
    obtain k m2 fa2 V' where C: "coalesce_on cpu (2 ^ 64 - 1) (m, fa) = Some (k, m2, fa2)" "fa_ok m2 fa2 (Vs(cpu := V'))"
        "fa_frames fa2 (Vs(cpu := V')) = R" "mem_keeps m m2 R"
      using coalesce_on_ok [OF ok wf cpu] R by blast
    have wf2: "frames_wf (fa_frames fa2 (Vs(cpu := V')))" using wf R C(3) by simp
    obtain hit m' fa' where T: "FrameAllocator_take cpu order pc (m, fa) = Some (hit, m', fa')"
        "take_done order m2 R hit m' fa'"
      using take_coalesced [OF C(2) wf2 cpu o', of pc] att None miss C(1,3)
      by (auto simp: FrameAllocator_take_def)
    have "take_done order m R hit m' fa'"
    proof (cases hit)
      case None
      then have "mem_keeps m m' (R + R)" using T(2) C(4) mem_keeps_trans by (auto simp: take_done_def)
      then have "mem_keeps m m' R" by (rule mem_keeps_mono) simp
      then show ?thesis using T(2) None by (simp add: take_done_def)
    next
      case (Some p)
      then show ?thesis using T(2) allotted_after [OF _ C(4)] by (auto simp: take_done_def)
    qed
    then show ?thesis using T(1) by blast
  qed
qed

end
