(* ===== verification/Frame_Scrub.thy ===== *)
theory Frame_Scrub
  imports Frame_Ops
begin

text \<open>
  Scrubbing: a loop over one core's dirty memory that ends, because each round either zeroes a
  block within the budget or moves frames out of the frontier.
\<close>

lemma scrub_want_ok:
  assumes "want < ORDERS" "Order_frames want \<le> left"
  shows "scrub_want left want < ORDERS \<and> Order_frames (scrub_want left want) \<le> left"
  using assms
proof (induction left want rule: scrub_want.induct)
  case (1 left want)
  show ?case
  proof (cases "want < Order_MAX \<and> Order_frames (Suc want) \<le> left")
    case True
    then have "scrub_want left want = scrub_want left (Suc want)"
      by (simp add: scrub_want.simps [of left want] Order_up_def)
    then show ?thesis using "1.IH" [of "Suc want"] True by (simp add: Order_up_def ORDERS_def)
  next
    case False
    then have "scrub_want left want = want" by (auto simp: scrub_want.simps [of left want] Order_up_def)
    then show ?thesis using "1.prems" by simp
  qed
qed

lemma scrub_pop_ok:
  assumes "shard_ok w m s V" "frames_wf (pool V)" "want < ORDERS" "scrub_pop w want (m, s) = (r, m', s')"
  shows "(r = None \<and> m' = m \<and> s' = s \<and> \<not> room V False 0) \<or>
    (\<exists>b o'. r = Some (b, o') \<and> o' \<le> want \<and> taken w o' False m V b m' s')"
  using assms(3,4)
proof (induction want)
  case 0
  then show ?case
    using pop_split_ok [OF assms(1,2), of 0 False]
    by (auto simp: scrub_pop.simps [of w 0] Order_down_def room_def split: prod.splits option.splits)
next
  case (Suc down)
  obtain t m1 s1 where pop: "pop_split w (Suc down) False (m, s) = (t, m1, s1)" by (metis prod_cases3)
  note P = pop_split_ok [OF assms(1,2) Suc.prems(1) pop]
  show ?case
  proof (cases t)
    case None
    then have "scrub_pop w down (m, s) = (r, m', s')"
      using Suc.prems(2) pop P by (simp add: scrub_pop.simps [of w "Suc down"] Order_down_def)
    then show ?thesis using Suc.IH Suc.prems(1) by fastforce
  next
    case (Some b)
    then have "r = Some (b, Suc down)" "m' = m1" "s' = s1"
      using Suc.prems(2) pop by (simp_all add: scrub_pop.simps [of w "Suc down"])
    then show ?thesis using P Some by auto
  qed
qed

lemma scrub_round:
  assumes taken: "taken w o' False m V b m1 s1" and wf: "frames_wf (pool V)" and o': "o' < ORDERS"
    and give: "give w o' True b (zero_block b o' m1, s1) = (m', s')"
  shows "\<exists>V'. shard_ok w m' s' V' \<and> pool V' = pool V \<and> mem_keeps m m' (pool V)
    \<and> size (class_pool V' True) = size (class_pool V True) + Order_frames o'"
proof -
  obtain V1 where V1: "shard_ok w m1 s1 V1" "pool V = pool V1 + fr o' b" "Order_aligns o' b" "mem_keeps m m1 (pool V)"
      "class_pool V True = class_pool V1 True"
    using taken by (rule takenE) simp
  have wf1: "frames_wf (pool V1 + fr o' b)" using wf V1(2) by simp
  have ok2: "shard_ok w (zero_block b o' m1) s1 V1"
    by (rule shard_ok_keeps [OF V1(1) mem_keeps_zero [OF V1(3)] wf1])
  have z: "True \<longrightarrow> zeroed (zero_block b o' m1) o' b" by (simp add: zeroed_def zero_block_def)
  note G = give_ok [OF ok2 wf1 o' V1(3) z give]
  let ?V = "upd V1 True o' (b # V1 True o')"
  have "mem_keeps m m' (pool V + fr o' b + fr o' b)"
    using mem_keeps_trans [OF mem_keeps_trans [OF V1(4) mem_keeps_zero [OF V1(3)]] G(2)] .
  then have "mem_keeps m m' (pool V)" by (rule mem_keeps_mono) (simp add: V1(2))
  moreover have "size (class_pool ?V True) = size (class_pool V True) + Order_frames o'"
    using size_fr [OF V1(3)] by (simp add: class_pool_push [OF o'] V1(5))
  ultimately show ?thesis
    using G(1) pool_push [OF o', of V1 True b] V1(2) by (intro exI [of _ ?V]) simp
qed

lemma no_dirty:
  assumes "\<not> room V False 0"
  shows "class_pool V False = {#}"
  using assms by (simp add: room_def class_pool_def)

text \<open>What scrubbing from \<open>done\<close> frames on has achieved when it returns.\<close>

definition scrubbed ::
  "Window \<Rightarrow> nat \<Rightarrow> nat \<Rightarrow> memory \<Rightarrow> Frontier \<Rightarrow> view \<Rightarrow> nat \<Rightarrow> Frontier \<Rightarrow> memory \<Rightarrow> Shard \<Rightarrow> view \<Rightarrow> bool" where
  "scrubbed w budget n m f V n' f' m' s' V' \<longleftrightarrow>
     core_ok w m' s' f' V' \<and> core_frames V' f' = core_frames V f \<and> mem_keeps m m' (core_frames V f)
     \<and> n' \<le> budget \<and> size (class_pool V' True) + n = size (class_pool V True) + n'
     \<and> (n' < budget \<longrightarrow> class_pool V' False = {#} \<and> frontier_frames f' = {#})"

lemma scrubbed_step:
  assumes "scrubbed w budget n1 m1 f1 V1 n' f' m' s' V'" "core_frames V1 f1 = core_frames V f"
    "mem_keeps m m1 (core_frames V f)" "size (class_pool V1 True) + n = size (class_pool V True) + n1"
  shows "scrubbed w budget n m f V n' f' m' s' V'"
proof -
  have "mem_keeps m m' (core_frames V f + core_frames V f)"
    using mem_keeps_trans [OF assms(3)] assms(1,2) by (simp add: scrubbed_def)
  then have "mem_keeps m m' (core_frames V f)" by (rule mem_keeps_mono) simp
  then show ?thesis using assms by (simp add: scrubbed_def)
qed

text \<open>One turn of the loop: it goes on with less to do, or has nothing more to do.\<close>

definition scrub_turn ::
  "Window \<Rightarrow> nat \<Rightarrow> nat \<Rightarrow> memory \<Rightarrow> Shard \<Rightarrow> Frontier \<Rightarrow> view \<Rightarrow> nat \<Rightarrow> memory \<Rightarrow> Shard \<Rightarrow> Frontier \<Rightarrow> view \<Rightarrow> bool" where
  "scrub_turn w budget n m s f V n1 m1 s1 f1 V1 \<longleftrightarrow>
     scrub_loop w budget n (f, m, s) = scrub_loop w budget n1 (f1, m1, s1)
     \<and> core_ok w m1 s1 f1 V1 \<and> core_frames V1 f1 = core_frames V f \<and> mem_keeps m m1 (core_frames V f)
     \<and> size (class_pool V1 True) + n = size (class_pool V True) + n1 \<and> n1 \<le> budget
     \<and> (n < n1 \<or> n1 = n \<and> size (frontier_frames f1) < size (frontier_frames f))"

lemma scrub_hit:
  assumes ok: "core_ok w m s f V" "frames_wf (core_frames V f)" and n: "n < budget" "budget < 2 ^ 64"
    and pop: "scrub_pop w (scrub_want (budget - n) Order_FRAME) (m, s) = (Some (b, o'), m1, s1)"
  shows "\<exists>m2 s2 V2. scrub_turn w budget n m s f V (n + Order_frames o') m2 s2 f V2"
proof -
  let ?want = "scrub_want (budget - n) Order_FRAME"
  have want: "?want < ORDERS" "Order_frames ?want \<le> budget - n"
    using scrub_want_ok [of Order_FRAME "budget - n"] n(1) by (simp_all add: Order_FRAME_def ORDERS_def Order_frames_def)
  note D = core_ok_D [OF ok]
  have t: "o' \<le> ?want" "taken w o' False m V b m1 s1" using scrub_pop_ok [OF D(1,3) want(1) pop] by auto
  have o': "o' < ORDERS" "Order_frames o' \<le> budget - n" "0 < Order_frames o'"
    using t(1) want order_trans [OF power_increasing [OF t(1), of "2::nat"]] by (simp_all add: Order_frames_def)
  obtain m2 s2 where give: "give w o' True b (zero_block b o' m1, s1) = (m2, s2)" by fastforce
  obtain V2 where V2: "shard_ok w m2 s2 V2" "pool V2 = pool V" "mem_keeps m m2 (pool V)"
      "size (class_pool V2 True) = size (class_pool V True) + Order_frames o'"
    using scrub_round [OF t(2) D(3) o'(1) give] by auto
  have "sat64 (n + Order_frames o') = n + Order_frames o'" using o'(2) n by (simp add: sat64_def)
  then have "scrub_loop w budget n (f, m, s) = scrub_loop w budget (n + Order_frames o') (f, m2, s2)"
    using n(1) pop give by (simp add: scrub_loop.simps [of w budget n "(f, m, s)"])
  moreover have "n + Order_frames o' \<le> budget" using o'(2) n(1) by linarith
  moreover have "mem_keeps m m2 (core_frames V f)" by (rule mem_keeps_mono [OF V2(3)]) (simp add: core_frames_def)
  ultimately show ?thesis
    using V2(1,2,4) D(2) o'(3) by (intro exI [of _ m2] exI [of _ s2] exI [of _ V2])
      (simp add: scrub_turn_def core_ok_def core_frames_def)
qed

lemma scrub_miss:
  assumes ok: "core_ok w m s f V" "frames_wf (core_frames V f)" and n: "n < budget"
    and pop: "scrub_pop w (scrub_want (budget - n) Order_FRAME) (m, s) = (None, m1, s1)"
  shows "(\<exists>m2 s2 f2 V2. scrub_turn w budget n m s f V n m2 s2 f2 V2) \<or>
    (scrub_loop w budget n (f, m, s) = Some (n, f, m, s) \<and> scrubbed w budget n m f V n f m s V)"
proof -
  have want: "scrub_want (budget - n) Order_FRAME < ORDERS"
    using scrub_want_ok [of Order_FRAME "budget - n"] n by (simp add: Order_FRAME_def ORDERS_def Order_frames_def)
  note D = core_ok_D [OF ok] and unfold = scrub_loop.simps [of w budget n "(f, m, s)"]
  have miss: "m1 = m" "s1 = s" "\<not> room V False 0" using scrub_pop_ok [OF D(1,3) want pop] by auto
  obtain rf f2 m2 s2 where refill: "refill w Order_FRAME (f, m, s) = (rf, f2, m2, s2)" by (metis prod_cases4)
  have "Order_FRAME < ORDERS" by (simp add: Order_FRAME_def ORDERS_def)
  note R = refill_ok [OF ok this refill]
  show ?thesis
  proof (cases rf)
    case True
    then obtain V2 where V2: "core_ok w m2 s2 f2 V2" "core_frames V2 f2 = core_frames V f"
        "mem_keeps m m2 (frontier_frames f)" "class_pool V2 True = class_pool V True"
        "size (frontier_frames f2) < size (frontier_frames f)"
      using R by blast
    have "mem_keeps m m2 (core_frames V f)" by (rule mem_keeps_mono [OF V2(3)]) (simp add: core_frames_def)
    moreover have "scrub_loop w budget n (f, m, s) = scrub_loop w budget n (f2, m2, s2)"
      using n pop miss refill True by (simp add: unfold)
    ultimately have "scrub_turn w budget n m s f V n m2 s2 f2 V2" using V2 n by (simp add: scrub_turn_def)
    then show ?thesis by blast
  next
    case False
    then have "f2 = f" "m2 = m" "s2 = s" "\<not> offers f 0" using R by (auto simp: Order_FRAME_def)
    then show ?thesis
      using n pop miss refill False ok(1) no_dirty [OF miss(3)] no_offer_empty [OF D(2)]
      by (simp add: unfold scrubbed_def)
  qed
qed

lemma scrub_loop_ok:
  assumes "core_ok w m s f V" "frames_wf (core_frames V f)" "n \<le> budget" "budget < 2 ^ 64"
  shows "\<exists>n' f' m' s' V'. scrub_loop w budget n (f, m, s) = Some (n', f', m', s')
    \<and> scrubbed w budget n m f V n' f' m' s' V'"
  using assms(1-3)
proof (induction "(budget - n, size (frontier_frames f))" arbitrary: n m s f V
    rule: wf_induct_rule [OF wf_lex_prod [OF wf_less wf_less]])
  case 1
  show ?case
  proof (cases "n < budget")
    case False
    then have "scrub_loop w budget n (f, m, s) = Some (n, f, m, s)"
      by (simp add: scrub_loop.simps [of w budget n "(f, m, s)"])
    moreover have "scrubbed w budget n m f V n f m s V" using 1(2,4) False by (simp add: scrubbed_def)
    ultimately show ?thesis by blast
  next
    case True
    obtain t m1 s1 where pop: "scrub_pop w (scrub_want (budget - n) Order_FRAME) (m, s) = (t, m1, s1)"
      by (metis prod_cases3)
    consider (more) n1 m1 s1 f1 V1 where "scrub_turn w budget n m s f V n1 m1 s1 f1 V1"
      | (stop) "scrub_loop w budget n (f, m, s) = Some (n, f, m, s)" "scrubbed w budget n m f V n f m s V"
      using scrub_hit [OF 1(2,3) True assms(4)] scrub_miss [OF 1(2,3) True] pop
      by (metis (no_types, lifting) option.exhaust surj_pair)
    then show ?thesis
    proof cases
      case more
      then have T: "scrub_loop w budget n (f, m, s) = scrub_loop w budget n1 (f1, m1, s1)" "core_ok w m1 s1 f1 V1"
          "core_frames V1 f1 = core_frames V f" "mem_keeps m m1 (core_frames V f)"
          "size (class_pool V1 True) + n = size (class_pool V True) + n1" "n1 \<le> budget"
          "n < n1 \<or> n1 = n \<and> size (frontier_frames f1) < size (frontier_frames f)"
        by (simp_all add: scrub_turn_def)
      have "((budget - n1, size (frontier_frames f1)), (budget - n, size (frontier_frames f)))
          \<in> {(x, y). x < y} <*lex*> {(x, y). x < y}"
        using T(6,7) by auto
      then obtain n' f' m' s' V' where "scrub_loop w budget n1 (f1, m1, s1) = Some (n', f', m', s')"
          "scrubbed w budget n1 m1 f1 V1 n' f' m' s' V'"
        using 1(1) [of n1 f1 m1 s1 V1] T(2,3,6) 1(3) by auto
      then show ?thesis using T(1) scrubbed_step [OF _ T(3-5)] by metis
    next
      case stop
      then show ?thesis by blast
    qed
  qed
qed

end
