(* ===== verification/Frame_Region.thy ===== *)
theory Frame_Region
  imports Frame_Scrub
begin

text \<open>
  Handing a region of physical memory to the allocator: exactly its frames above the first
  mebibyte that no reserved range touches and the window reaches become free memory; the others
  of them are counted as unreachable.
\<close>

subsection \<open>Accepting one run\<close>

lemma unat_frames_between:
  assumes "a mod FRAME_BYTES = 0" "b mod FRAME_BYTES = 0" "a \<le> b" "b < 2 ^ 64"
  shows "unat (of_nat ((b - a) div FRAME_BYTES) :: u64) = size (run_frames a b)"
proof -
  obtain n where n: "b - a = n * FRAME_BYTES"
    using assms(1,2) by (metis dvd_diff_nat dvd_def mod_0_imp_dvd mult.commute)
  then have b: "b = a + n * FRAME_BYTES" using assms(3) by linarith
  have "n < 2 ^ 64" using b assms(4) by (simp add: FRAME_BYTES_def)
  then have "unat (of_nat n :: u64) = n" by (simp add: unsigned_of_nat take_bit_nat_eq_self)
  moreover have "size (run_frames a b) = n" unfolding b by (rule size_run_frames [OF assms(1)])
  moreover have "(b - a) div FRAME_BYTES = n" using n by (simp add: FRAME_BYTES_def)
  ultimately show ?thesis by simp
qed

lemma Frontier_accept_ok:
  assumes ok: "frontier_ok f" and run: "run_ok \<lparr>run_next = a, run_end = b\<rparr>"
    and wf: "frames_wf (frontier_frames f + run_frames a b)" and acc: "Frontier_accept a b f = (r, f')"
  shows "(\<not> r \<and> f' = f) \<or> (r \<and> frontier_ok f' \<and> frontier_frames f' = frontier_frames f + run_frames a b)"
proof (cases "frt_count f < UNTOUCHED_RUNS")
  case False
  then show ?thesis using acc by (simp add: Frontier_accept_def)
next
  case True
  let ?new = "\<lparr>run_next = a, run_end = b\<rparr>"
  let ?n = "saturating_add (frt_frames f) (of_nat ((b - a) div FRAME_BYTES))"
  have len: "length (frt_runs f) = UNTOUCHED_RUNS" "unat (frt_frames f) = size (frontier_frames f)"
    using ok by (simp_all add: frontier_ok_def)
  have r: "r" "f' = f\<lparr>frt_runs := (frt_runs f)[frt_count f := ?new], frt_count := frt_count f + 1, frt_frames := ?n\<rparr>"
    using acc True len by (simp_all add: Frontier_accept_def)
  have ff: "frontier_frames f' = frontier_frames f + run_frames a b"
    using True len by (simp add: frontier_frames_def r(2) run_mset_def)
  have "unat ?n = size (frontier_frames f')"
    using frames_wf_size [OF wf] run unat_frames_between [of a b] len(2)
    by (simp add: unat_saturating_add ff run_ok_def)
  moreover have "run_ok (frt_runs f' ! i)" if "i < frt_count f'" for i
    using that ok run True len by (cases "i = frt_count f") (auto simp: r(2) frontier_ok_def)
  ultimately show ?thesis using r True len ff by (simp add: frontier_ok_def)
qed

lemma accept_ok:
  assumes sound: "sound m fa R" and wf: "frames_wf (R + run_frames a b)" and run: "run_ok \<lparr>run_next = a, run_end = b\<rparr>"
    and cpu: "cpu < MAX_CPUS" and acc: "FrameAllocator_accept cpu a b (m, fa) = (m', fa')"
  shows "sound m' fa' (R + run_frames a b)" "mem_keeps m m' (run_frames a b)" "fa_map fa' = fa_map fa"
    "fa_unreachable fa' = fa_unreachable fa"
    "fa_total fa' = saturating_add (fa_total fa) (of_nat ((b - a) div FRAME_BYTES))"
proof -
  obtain Vs where ok: "fa_ok m fa Vs" "fa_frames fa Vs = R" using sound by (auto simp: sound_def)
  have wf1: "frames_wf (fa_frames fa Vs + run_frames a b)" using wf ok(2) by simp
  note C = fa_core [OF ok(1) wf1 cpu]
  obtain r f1 where F: "Frontier_accept a b (fa_frontier fa) = (r, f1)" by fastforce
  obtain m1 s1 where S: "carve (fa_map fa) a b (m, fa_shards fa ! cpu) = (m1, s1)" by fastforce
  let ?t = "saturating_add (fa_total fa) (of_nat ((b - a) div FRAME_BYTES))"
  have shape: "fa' = (if r then fa\<lparr>fa_total := ?t, fa_frontier := f1\<rparr>
      else fa\<lparr>fa_total := ?t, fa_frontier := f1, fa_shards := (fa_shards fa)[cpu := s1]\<rparr>)" "m' = (if r then m else m1)"
    using acc F S by (auto simp: FrameAllocator_accept_def Let_def split: if_splits bool.splits)
  then show "fa_map fa' = fa_map fa" "fa_unreachable fa' = fa_unreachable fa" "fa_total fa' = ?t" by simp_all
  have fwf: "frames_wf (frontier_frames (fa_frontier fa) + run_frames a b)"
    using C(2) frames_wf_sub [of "frontier_frames (fa_frontier fa) + run_frames a b" "pool (Vs cpu)"]
    by (simp add: core_frames_def ac_simps)
  have fok: "frontier_ok (fa_frontier fa)" using C(1) by (simp add: core_ok_def)
  note A = Frontier_accept_ok [OF fok run fwf F]
  have "sound m' fa' (R + run_frames a b) \<and> mem_keeps m m' (run_frames a b)"
  proof (cases r)
    case True
    then have "fa_ok m fa' Vs" "fa_frames fa' Vs = R + run_frames a b"
      using A ok by (auto simp: shape fa_ok_def fa_frames_def ac_simps)
    then show ?thesis using wf True by (auto simp: sound_def shape)
  next
    case False
    have pwf: "frames_wf (pool (Vs cpu) + run_frames a b)"
      using C(2) frames_wf_sub [of "pool (Vs cpu) + run_frames a b" "frontier_frames (fa_frontier fa)"]
      by (simp add: core_frames_def ac_simps)
    obtain V' where V': "shard_ok (fa_map fa) m1 s1 V'" "pool V' = pool (Vs cpu) + run_frames a b"
        "mem_keeps m m1 (run_frames a b)"
      using carve_ok [OF _ pwf _ _ _ S] C(1) run by (auto simp: core_ok_def run_ok_def)
    have core: "core_ok (fa_map fa) m1 s1 (fa_frontier fa) V'" using V'(1) fok by (simp add: core_ok_def)
    have keeps: "mem_keeps m m1 (core_frames (Vs cpu) (fa_frontier fa) + run_frames a b)"
      by (rule mem_keeps_mono [OF V'(3)]) simp
    have frames: "core_frames V' (fa_frontier fa) + {#} = core_frames (Vs cpu) (fa_frontier fa) + run_frames a b"
      by (simp add: core_frames_def V'(2) ac_simps)
    have "fa_map fa' = fa_map fa" "fa_frontier fa' = fa_frontier fa" "fa_shards fa' = (fa_shards fa)[cpu := s1]"
      using A False by (simp_all add: shape)
    from core_step [OF ok(1) wf1 cpu core keeps frames this] show ?thesis
      using wf ok(2) V'(3) False by (auto simp: sound_def shape(2))
  qed
  then show "sound m' fa' (R + run_frames a b)" "mem_keeps m m' (run_frames a b)" by simp_all
qed

subsection \<open>The frames of a region\<close>

definition usable :: "Reserved list \<Rightarrow> nat \<Rightarrow> bool" where
  "usable reserved frame \<longleftrightarrow>
     LOW_MEMORY_LIMIT \<le> frame \<and> \<not> list_ex (\<lambda>r. Reserved_overlaps r frame (frame + FRAME_BYTES)) reserved"

definition reached :: "nat \<Rightarrow> Reserved list \<Rightarrow> nat \<Rightarrow> nat \<Rightarrow> nat multiset" where
  "reached reach reserved a b = filter_mset (\<lambda>f. usable reserved f \<and> f + FRAME_BYTES \<le> reach) (run_frames a b)"

definition missed :: "nat \<Rightarrow> Reserved list \<Rightarrow> nat \<Rightarrow> nat \<Rightarrow> nat multiset" where
  "missed reach reserved a b = filter_mset (\<lambda>f. usable reserved f \<and> reach < f + FRAME_BYTES) (run_frames a b)"

lemma reached_split: "a \<le> b \<Longrightarrow> b \<le> c \<Longrightarrow> reached L rs a c = reached L rs a b + reached L rs b c"
  by (simp add: reached_def run_frames_split [of a b c])

lemma missed_split: "a \<le> b \<Longrightarrow> b \<le> c \<Longrightarrow> missed L rs a c = missed L rs a b + missed L rs b c"
  by (simp add: missed_def run_frames_split [of a b c])

lemma reached_empty [simp]: "b \<le> a \<Longrightarrow> reached L rs a b = {#}"
  by (simp add: reached_def run_frames_def)

lemma missed_empty [simp]: "b \<le> a \<Longrightarrow> missed L rs a b = {#}"
  by (simp add: missed_def run_frames_def)

lemma reached_one:
  assumes "a mod FRAME_BYTES = 0"
  shows "reached L rs a (a + FRAME_BYTES) = (if usable rs a \<and> a + FRAME_BYTES \<le> L then {#a#} else {#})"
    "missed L rs a (a + FRAME_BYTES) = (if usable rs a \<and> L < a + FRAME_BYTES then {#a#} else {#})"
  by (simp_all add: reached_def missed_def run_frames_one [OF assms])

text \<open>Past every reserved end and the first mebibyte, a frame is usable without looking.\<close>

lemma ceiling_bound:
  assumes "r \<in> set reserved"
  shows "rsv_end r \<le> foldl max 0 (map rsv_end reserved)"
proof -
  have "x \<le> foldl max x ys \<and> (\<forall>y \<in> set ys. y \<le> foldl max x ys)" for x :: nat and ys
  proof (induction ys arbitrary: x)
    case (Cons y ys)
    have "x \<le> max x y" "y \<le> max x y" by simp_all
    then show ?case using Cons.IH [of "max x y"] by (auto intro: order_trans)
  qed simp
  then show ?thesis using assms by auto
qed

lemma usable_above:
  assumes "max (foldl max 0 (map rsv_end reserved)) LOW_MEMORY_LIMIT \<le> f"
  shows "usable reserved f"
proof -
  have "rsv_end r \<le> f" if "r \<in> set reserved" for r using ceiling_bound [OF that] assms by simp
  then show ?thesis using assms by (auto simp: usable_def list_ex_iff Reserved_overlaps_def leD)
qed

lemma reached_all:
  assumes "\<And>f. a \<le> f \<Longrightarrow> f < b \<Longrightarrow> f mod FRAME_BYTES = 0 \<Longrightarrow> usable rs f \<and> f + FRAME_BYTES \<le> L"
  shows "reached L rs a b = run_frames a b"
  unfolding reached_def using assms by (simp add: filter_mset_eq_conv in_run_frames)

lemma missed_all:
  assumes "\<And>f. a \<le> f \<Longrightarrow> f < b \<Longrightarrow> f mod FRAME_BYTES = 0 \<Longrightarrow> usable rs f \<and> L < f + FRAME_BYTES"
  shows "missed L rs a b = run_frames a b"
  unfolding missed_def using assms by (simp add: filter_mset_eq_conv in_run_frames)

lemma reached_none:
  assumes "L \<le> a"
  shows "reached L rs a b = {#}"
  unfolding reached_def using assms by (auto simp: filter_mset_eq_mempty_iff in_run_frames FRAME_BYTES_def)

lemma frame_fits:
  assumes "f mod FRAME_BYTES = 0" "b mod FRAME_BYTES = 0" "f < b"
  shows "f + FRAME_BYTES \<le> b"
  using dvd_imp_le [of FRAME_BYTES "b - f"] assms by (auto intro: dvd_diff_nat)

lemma missed_none:
  assumes "b \<le> L" "b mod FRAME_BYTES = 0"
  shows "missed L rs a b = {#}"
proof -
  have "f + FRAME_BYTES \<le> L" if "f < b" "f mod FRAME_BYTES = 0" for f
    using frame_fits [OF that(2) assms(2) that(1)] assms(1) by simp
  then show ?thesis by (simp add: missed_def filter_mset_eq_mempty_iff in_run_frames not_less)
qed

subsection \<open>The walk below the threshold\<close>

text \<open>
  Where the walk stands: every frame of an open run is usable and reached; the frames given so far
  together with those from the open run on are always the same.
\<close>

definition open_from :: "nat \<Rightarrow> nat \<Rightarrow> nat" where
  "open_from frame run = (if run = 0 then frame else run)"

definition walk_ok :: "nat \<Rightarrow> Reserved list \<Rightarrow> nat \<Rightarrow> nat \<Rightarrow> nat \<Rightarrow> bool" where
  "walk_ok reach reserved fe frame run \<longleftrightarrow> frame mod FRAME_BYTES = 0
     \<and> (run \<noteq> 0 \<longrightarrow> run mod FRAME_BYTES = 0 \<and> run < frame \<and> frame \<le> fe
          \<and> reached reach reserved run frame = run_frames run frame)"

definition region_walked ::
  "nat \<Rightarrow> Reserved list \<Rightarrow> nat \<Rightarrow> memory \<Rightarrow> FrameAllocator \<Rightarrow> nat \<Rightarrow> nat \<Rightarrow> nat multiset
     \<Rightarrow> memory \<Rightarrow> FrameAllocator \<Rightarrow> nat \<Rightarrow> nat \<Rightarrow> nat multiset \<Rightarrow> bool" where
  "region_walked reach reserved fe m fa frame run R m' fa' frame' run' R' \<longleftrightarrow>
     sound m' fa' R' \<and> R' + reached reach reserved (open_from frame' run') fe = R + reached reach reserved (open_from frame run) fe
     \<and> mem_keeps m m' (reached reach reserved (open_from frame run) fe)
     \<and> set_mset (reached reach reserved (open_from frame' run') fe) \<subseteq> set_mset (reached reach reserved (open_from frame run) fe)
     \<and> fa_map fa' = fa_map fa
     \<and> fa_unreachable fa' + size (missed reach reserved frame' fe) = fa_unreachable fa + size (missed reach reserved frame fe)"

lemma sound_unreachable [simp]: "sound m (fa\<lparr>fa_unreachable := n\<rparr>) R = sound m fa R"
  by (simp add: sound_def fa_ok_def fa_frames_def)

lemma region_walked_trans:
  assumes "region_walked reach rs fe m fa frame run R m1 fa1 frame1 run1 R1"
    "region_walked reach rs fe m1 fa1 frame1 run1 R1 m' fa' frame' run' R'"
  shows "region_walked reach rs fe m fa frame run R m' fa' frame' run' R'"
proof -
  let ?A = "reached reach rs (open_from frame run) fe" and ?B = "reached reach rs (open_from frame1 run1) fe"
  have "mem_keeps m m' (?A + ?B)" using assms(1,2) mem_keeps_trans by (auto simp: region_walked_def)
  then have "mem_keeps m m' ?A" by (rule mem_keeps_mono) (use assms(1) in \<open>auto simp: region_walked_def\<close>)
  then show ?thesis using assms(1,2) by (auto simp: region_walked_def)
qed

lemma walk_step_take:
  assumes ok: "walk_ok reach rs fe frame run" and here: "frame < fe" "fe mod FRAME_BYTES = 0" "0 < frame"
    and take: "usable rs frame" "frame + FRAME_BYTES \<le> reach" and sound: "sound m fa R"
  shows "walk_ok reach rs fe (frame + FRAME_BYTES) (if run = 0 then frame else run)"
    "region_walked reach rs fe m fa frame run R m fa (frame + FRAME_BYTES) (if run = 0 then frame else run) R"
proof -
  have al: "frame mod FRAME_BYTES = 0" using ok by (simp add: walk_ok_def)
  note fit = frame_fits [OF al here(2,1)]
  let ?run = "if run = 0 then frame else run"
  have "?run \<le> frame" using ok by (auto simp: walk_ok_def)
  then have "reached reach rs ?run (frame + FRAME_BYTES) = reached reach rs ?run frame + {#frame#}"
      "run_frames ?run (frame + FRAME_BYTES) = run_frames ?run frame + {#frame#}"
    using reached_split [of ?run frame "frame + FRAME_BYTES"] run_frames_split [of ?run frame "frame + FRAME_BYTES"]
      reached_one(1) [OF al, of reach rs] run_frames_one [OF al] take by simp_all
  moreover have "0 < FRAME_BYTES" by (simp add: FRAME_BYTES_def)
  ultimately show "walk_ok reach rs fe (frame + FRAME_BYTES) ?run"
    using ok fit al here(3) by (auto simp: walk_ok_def)
  have "missed reach rs frame fe = missed reach rs (frame + FRAME_BYTES) fe"
    using missed_split [OF _ fit, of frame reach rs] reached_one(2) [OF al, of reach rs] take(2) by simp
  then show "region_walked reach rs fe m fa frame run R m fa (frame + FRAME_BYTES) ?run R"
    using sound here(3) by (simp add: region_walked_def open_from_def)
qed

lemma skip_counts:
  assumes al: "frame mod FRAME_BYTES = 0" and here: "frame < fe" "fe mod FRAME_BYTES = 0"
    and skip: "\<not> (usable rs frame \<and> frame + FRAME_BYTES \<le> reach)"
  shows "reached reach rs frame fe = reached reach rs (frame + FRAME_BYTES) fe"
    "size (missed reach rs frame fe) =
      (if usable rs frame \<and> reach < frame + FRAME_BYTES then 1 else 0) + size (missed reach rs (frame + FRAME_BYTES) fe)"
proof -
  note fit = frame_fits [OF al here(2,1)]
  show "reached reach rs frame fe = reached reach rs (frame + FRAME_BYTES) fe"
    using reached_split [OF _ fit, of frame reach rs] reached_one(1) [OF al, of reach rs] skip by simp
  show "size (missed reach rs frame fe) =
      (if usable rs frame \<and> reach < frame + FRAME_BYTES then 1 else 0) + size (missed reach rs (frame + FRAME_BYTES) fe)"
    using missed_split [OF _ fit, of frame reach rs] reached_one(2) [OF al, of reach rs] by simp
qed

lemma walk_step_skip:
  assumes ok: "walk_ok reach rs fe frame 0" and here: "frame < fe" "fe mod FRAME_BYTES = 0"
    and skip: "\<not> (usable rs frame \<and> frame + FRAME_BYTES \<le> reach)"
    and before: "region_walked reach rs fe m (fa\<lparr>fa_unreachable := fa_unreachable fa + n\<rparr>) frame run R m' fa' frame 0 R'"
    and n: "n = (if usable rs frame \<and> reach < frame + FRAME_BYTES then 1 else 0)"
  shows "walk_ok reach rs fe (frame + FRAME_BYTES) 0"
    "region_walked reach rs fe m fa frame run R m' fa' (frame + FRAME_BYTES) 0 R'"
proof -
  have al: "frame mod FRAME_BYTES = 0" using ok by (simp add: walk_ok_def)
  show "walk_ok reach rs fe (frame + FRAME_BYTES) 0" using al by (simp add: walk_ok_def)
  show "region_walked reach rs fe m fa frame run R m' fa' (frame + FRAME_BYTES) 0 R'"
    using before skip_counts [OF al here skip] unfolding region_walked_def open_from_def n by simp
qed

lemma walk_close:
  assumes ok: "walk_ok reach rs fe frame run" "run \<noteq> 0" and fe: "fe < 2 ^ 64" and cpu: "cpu < MAX_CPUS"
    and sound: "sound m fa R" and wf: "frames_wf (R + reached reach rs run fe)"
    and acc: "FrameAllocator_accept cpu run frame (m, fa) = (m', fa')"
  shows "walk_ok reach rs fe frame 0" "region_walked reach rs fe m fa frame run R m' fa' frame 0 (R + run_frames run frame)"
proof -
  have W: "frame mod FRAME_BYTES = 0" "run mod FRAME_BYTES = 0" "run < frame" "frame \<le> fe"
      "reached reach rs run frame = run_frames run frame"
    using ok by (simp_all add: walk_ok_def)
  have split: "reached reach rs run fe = run_frames run frame + reached reach rs frame fe"
    using reached_split [of run frame fe] W by simp
  have "frames_wf (R + run_frames run frame)"
    by (rule frames_wf_sub [of _ "reached reach rs frame fe"]) (use wf in \<open>simp add: split add.assoc\<close>)
  moreover have "run_ok \<lparr>run_next = run, run_end = frame\<rparr>" using W fe by (simp add: run_ok_def)
  ultimately have A: "sound m' fa' (R + run_frames run frame)" "mem_keeps m m' (run_frames run frame)"
      "fa_map fa' = fa_map fa" "fa_unreachable fa' = fa_unreachable fa"
    using accept_ok [OF sound _ _ cpu acc] by simp_all
  show "walk_ok reach rs fe frame 0" using W(1) by (simp add: walk_ok_def)
  have "mem_keeps m m' (reached reach rs run fe)" by (rule mem_keeps_mono [OF A(2)]) (simp add: split)
  then show "region_walked reach rs fe m fa frame run R m' fa' frame 0 (R + run_frames run frame)"
    using A ok(2) by (simp add: region_walked_def open_from_def split ac_simps)
qed

lemma region_walked_refl: "sound m fa R \<Longrightarrow> region_walked reach rs fe m fa frame run R m fa frame run R"
  by (simp add: region_walked_def)

lemma region_turn:
  assumes ok: "walk_ok reach rs fe frame run" and fe: "fe < 2 ^ 64" "fe mod FRAME_BYTES = 0" and cpu: "cpu < MAX_CPUS"
    and sound: "sound m fa R" and wf: "frames_wf (R + reached reach rs (open_from frame run) fe)"
    and here: "frame < thr" "frame < fe"
  shows "\<exists>m1 fa1 run1 R1. region_filter cpu thr fe reach rs frame run (m, fa)
      = region_filter cpu thr fe reach rs (frame + FRAME_BYTES) run1 (m1, fa1)
    \<and> walk_ok reach rs fe (frame + FRAME_BYTES) run1
    \<and> region_walked reach rs fe m fa frame run R m1 fa1 (frame + FRAME_BYTES) run1 R1"
proof -
  have al: "frame mod FRAME_BYTES = 0" using ok by (simp add: walk_ok_def)
  note unfold = region_filter.simps [of cpu thr fe reach rs frame run "(m, fa)"]
  let ?n = "if usable rs frame \<and> reach < frame + FRAME_BYTES then 1 else 0"
  let ?fa = "fa\<lparr>fa_unreachable := fa_unreachable fa + ?n\<rparr>"
  have sound1: "sound m ?fa R" using sound by simp
  consider (take) "usable rs frame" "frame + FRAME_BYTES \<le> reach"
    | (skip) "\<not> (usable rs frame \<and> frame + FRAME_BYTES \<le> reach)" "run = 0"
    | (close) "\<not> (usable rs frame \<and> frame + FRAME_BYTES \<le> reach)" "run \<noteq> 0"
    by blast
  then show ?thesis
  proof cases
    case take
    then have pos: "0 < frame" by (simp add: usable_def LOW_MEMORY_LIMIT_def)
    note T = walk_step_take [OF ok here(2) fe(2) pos take sound]
    have "region_filter cpu thr fe reach rs frame run (m, fa)
        = region_filter cpu thr fe reach rs (frame + FRAME_BYTES) (if run = 0 then frame else run) (m, fa)"
      using here take unfolding unfold by (simp add: usable_def Let_def)
    then show ?thesis using T by blast
  next
    case skip
    have W: "walk_ok reach rs fe frame 0" using al by (simp add: walk_ok_def)
    note T = walk_step_skip [OF W here(2) fe(2) skip(1) region_walked_refl [OF sound1] refl]
    have "region_filter cpu thr fe reach rs frame run (m, fa)
        = region_filter cpu thr fe reach rs (frame + FRAME_BYTES) 0 (m, ?fa)"
      using here skip unfolding unfold by (auto simp: usable_def Let_def)
    then show ?thesis using T skip(2) by blast
  next
    case close
    obtain m1 fa1 where acc: "FrameAllocator_accept cpu run frame (m, ?fa) = (m1, fa1)" by fastforce
    have wf1: "frames_wf (R + reached reach rs run fe)" using wf close(2) by (simp add: open_from_def)
    note C = walk_close [OF ok close(2) fe(1) cpu sound1 wf1 acc]
    note T = walk_step_skip [OF C(1) here(2) fe(2) close(1) C(2) refl]
    have "region_filter cpu thr fe reach rs frame run (m, fa)
        = region_filter cpu thr fe reach rs (frame + FRAME_BYTES) 0 (m1, fa1)"
      using here close acc unfolding unfold by (auto simp: usable_def Let_def)
    then show ?thesis using T by blast
  qed
qed

lemma region_filter_ok:
  assumes "walk_ok reach rs fe frame run" "fe < 2 ^ 64" "fe mod FRAME_BYTES = 0" "cpu < MAX_CPUS"
    "sound m fa R" "frames_wf (R + reached reach rs (open_from frame run) fe)"
    "region_filter cpu thr fe reach rs frame run (m, fa) = (frame', run', m', fa')"
  shows "\<exists>R'. walk_ok reach rs fe frame' run' \<and> region_walked reach rs fe m fa frame run R m' fa' frame' run' R'
    \<and> (thr \<le> frame' \<or> fe \<le> frame')"
  using assms(1,5-7)
proof (induction "fe - frame" arbitrary: frame run m fa R rule: less_induct)
  case less
  show ?case
  proof (cases "frame < thr \<and> frame < fe")
    case False
    then have "frame' = frame" "run' = run" "m' = m" "fa' = fa"
      using less.prems(4) by (auto simp: region_filter.simps [of cpu thr fe reach rs frame run "(m, fa)"])
    then show ?thesis using less.prems(1,2) False region_walked_refl by fastforce
  next
    case True
    obtain m1 fa1 run1 R1 where T: "region_filter cpu thr fe reach rs frame run (m, fa)
          = region_filter cpu thr fe reach rs (frame + FRAME_BYTES) run1 (m1, fa1)"
        "walk_ok reach rs fe (frame + FRAME_BYTES) run1"
        "region_walked reach rs fe m fa frame run R m1 fa1 (frame + FRAME_BYTES) run1 R1"
      using region_turn [OF less.prems(1) assms(2-4) less.prems(2,3)] True by metis
    have "fe - (frame + FRAME_BYTES) < fe - frame" using True by (auto simp: FRAME_BYTES_def)
    moreover have "sound m1 fa1 R1" "frames_wf (R1 + reached reach rs (open_from (frame + FRAME_BYTES) run1) fe)"
      using T(3) less.prems(3) by (simp_all add: region_walked_def)
    ultimately show ?thesis
      using less.hyps [of "frame + FRAME_BYTES" run1 m1 fa1 R1] T(1,2) less.prems(4) region_walked_trans [OF T(3)]
      by (metis (no_types, lifting))
  qed
qed

subsection \<open>The whole region\<close>

lemma frames_end_props:
  shows "sat64 n div FRAME_BYTES * FRAME_BYTES < 2 ^ 64" "n div FRAME_BYTES * FRAME_BYTES mod FRAME_BYTES = 0"
proof -
  have "sat64 n div FRAME_BYTES * FRAME_BYTES \<le> sat64 n" by simp
  moreover have "sat64 n < 2 ^ 64" by (simp add: sat64_def)
  ultimately show "sat64 n div FRAME_BYTES * FRAME_BYTES < 2 ^ 64" by linarith
qed simp

text \<open>Past the threshold the rest of the region needs no walk.\<close>

lemma region_rest:
  assumes thr: "max (foldl max 0 (map rsv_end rs)) LOW_MEMORY_LIMIT \<le> frame \<or> fe \<le> frame"
    and ok: "walk_ok reach rs fe frame run" and fe: "fe mod FRAME_BYTES = 0" and reach: "reach mod FRAME_BYTES = 0"
    and frame1: "frame1 = (if frame < min fe reach then min fe reach else frame)"
    and run1: "run1 = (if frame < min fe reach \<and> run = 0 then frame else run)"
  shows "run1 \<noteq> 0 \<Longrightarrow> walk_ok reach rs fe frame1 run1" "reached reach rs frame1 fe = {#}"
    "reached reach rs (open_from frame1 run1) fe = reached reach rs (open_from frame run) fe"
    "size (missed reach rs frame fe) = (if frame1 < fe then (fe - frame1) div FRAME_BYTES else 0)"
proof -
  let ?rest = "min fe reach"
  have al: "frame mod FRAME_BYTES = 0" and rest: "?rest mod FRAME_BYTES = 0"
    using ok fe reach by (auto simp: walk_ok_def min_def)
  have al1: "frame1 mod FRAME_BYTES = 0" and le: "frame \<le> frame1" using al rest frame1 by auto
  show none: "reached reach rs frame1 fe = {#}"
    using reached_none [of reach frame1] by (cases "fe \<le> frame1") (auto simp: frame1)
  have tail: "reached reach rs frame frame1 = run_frames frame frame1" if "frame < ?rest"
  proof (rule reached_all)
    fix f assume f: "frame \<le> f" "f < frame1" "f mod FRAME_BYTES = 0"
    have "usable rs f" using thr that f(1) by (intro usable_above) auto
    moreover have "f + FRAME_BYTES \<le> ?rest" using frame_fits [OF f(3) rest] f(2) that frame1 by simp
    ultimately show "usable rs f \<and> f + FRAME_BYTES \<le> reach" by simp
  qed
  have pos: "0 < frame" if "frame < ?rest" using thr that by (auto simp: LOW_MEMORY_LIMIT_def)
  show "reached reach rs (open_from frame1 run1) fe = reached reach rs (open_from frame run) fe"
    using pos by (auto simp: open_from_def frame1 run1)
  show "walk_ok reach rs fe frame1 run1" if "run1 \<noteq> 0"
  proof (cases "frame < ?rest")
    case True
    have "run1 \<le> frame" "reached reach rs run1 frame = run_frames run1 frame" "run1 mod FRAME_BYTES = 0"
      using ok al True by (auto simp: run1 walk_ok_def)
    then show ?thesis
      using reached_split [of run1 frame frame1] run_frames_split [of run1 frame frame1] tail [OF True] le al1 True that
      by (auto simp: walk_ok_def frame1)
  next
    case False
    then show ?thesis using ok by (auto simp: frame1 run1)
  qed
  show "size (missed reach rs frame fe) = (if frame1 < fe then (fe - frame1) div FRAME_BYTES else 0)"
  proof (cases "frame1 < fe")
    case True
    then have past: "reach \<le> frame1" using frame1 by (auto split: if_splits)
    have "missed reach rs frame frame1 = {#}"
      using missed_none [OF _ al1, of reach] frame1 by (cases "frame < ?rest") auto
    moreover have "missed reach rs frame1 fe = run_frames frame1 fe"
      by (rule missed_all) (use past thr le True in \<open>auto simp: FRAME_BYTES_def intro!: usable_above\<close>)
    moreover obtain n where n: "fe - frame1 = n * FRAME_BYTES"
      using fe al1 by (metis dvd_diff_nat dvd_def mod_0_imp_dvd mult.commute)
    then have "fe = frame1 + n * FRAME_BYTES" using True by linarith
    then have "size (run_frames frame1 fe) = (fe - frame1) div FRAME_BYTES"
      using size_run_frames [OF al1, of n] n by (simp add: FRAME_BYTES_def)
    ultimately show ?thesis using missed_split [OF le, of fe] True by simp
  next
    case False
    then have "missed reach rs frame fe = {#}"
      using missed_none [OF _ fe, of reach] frame1 by (cases "frame < ?rest") (auto simp: min_def split: if_splits)
    then show ?thesis using False by simp
  qed
qed

lemma region_finish:
  assumes X: "run1 \<noteq> 0 \<Longrightarrow> walk_ok reach rs fe frame1 run1" "reached reach rs frame1 fe = {#}"
      "reached reach rs (open_from frame1 run1) fe = reached reach rs (open_from frame run) fe"
    and W: "region_walked reach rs fe m fa f0 0 R m1 fa1 frame run R1" and f0: "frames_wf (R + reached reach rs f0 fe)"
    and fe: "fe < 2 ^ 64" and cpu: "cpu < MAX_CPUS"
    and last: "(if run1 \<noteq> 0 then FrameAllocator_accept cpu run1 frame1 (m1, fa1) else (m1, fa1)) = (m2, fa2)"
  shows "sound m2 fa2 (R + reached reach rs f0 fe) \<and> mem_keeps m m2 (reached reach rs f0 fe) \<and> fa_map fa2 = fa_map fa
    \<and> fa_unreachable fa2 + size (missed reach rs frame fe) = fa_unreachable fa + size (missed reach rs f0 fe)"
proof -
  have W': "sound m1 fa1 R1" "R1 + reached reach rs (open_from frame run) fe = R + reached reach rs f0 fe"
      "mem_keeps m m1 (reached reach rs f0 fe)" "fa_map fa1 = fa_map fa"
      "fa_unreachable fa1 + size (missed reach rs frame fe) = fa_unreachable fa + size (missed reach rs f0 fe)"
    using W by (simp_all add: region_walked_def open_from_def)
  show ?thesis
  proof (cases "run1 = 0")
    case True
    then have "m2 = m1" "fa2 = fa1" "R1 = R + reached reach rs f0 fe" using last X(2,3) W'(2) by (simp_all add: open_from_def)
    then show ?thesis using W' by simp
  next
    case False
    then have wf1: "frames_wf (R1 + reached reach rs run1 fe)" and eq: "R1 + reached reach rs run1 fe = R + reached reach rs f0 fe"
      using X(3) W'(2) f0 by (simp_all add: open_from_def)
    have "region_walked reach rs fe m1 fa1 frame1 run1 R1 m2 fa2 frame1 0 (R1 + run_frames run1 frame1)"
      using walk_close(2) [OF X(1) [OF False] False fe cpu W'(1) wf1] last False by simp
    then have C: "R1 + run_frames run1 frame1 = R + reached reach rs f0 fe" "sound m2 fa2 (R1 + run_frames run1 frame1)" "mem_keeps m1 m2 (reached reach rs run1 fe)"
        "fa_map fa2 = fa_map fa1" "fa_unreachable fa2 = fa_unreachable fa1"
      using X(2) eq False unfolding region_walked_def open_from_def by auto
    have "set_mset (reached reach rs run1 fe) \<subseteq> set_mset (reached reach rs f0 fe)"
      using W X(3) False by (simp add: region_walked_def open_from_def)
    then have "mem_keeps m m2 (reached reach rs f0 fe)"
      using mem_keeps_mono [OF mem_keeps_trans [OF W'(3) C(3)], of "reached reach rs f0 fe"] by simp
    then show ?thesis using C W'(4,5) by auto
  qed
qed

text \<open>The frames a region adds, and those it has that the window does not reach.\<close>

definition region_end :: "nat \<Rightarrow> nat \<Rightarrow> nat" where
  "region_end base len = sat64 (base + len) div FRAME_BYTES * FRAME_BYTES"

definition window_reach :: "FrameAllocator \<Rightarrow> nat" where
  "window_reach fa = win_limit (fa_map fa) div FRAME_BYTES * FRAME_BYTES"

definition region_frames :: "FrameAllocator \<Rightarrow> nat \<Rightarrow> nat \<Rightarrow> Reserved list \<Rightarrow> nat multiset" where
  "region_frames fa base len reserved =
     reached (window_reach fa) reserved (next_multiple base FRAME_BYTES) (region_end base len)"

definition region_missed :: "FrameAllocator \<Rightarrow> nat \<Rightarrow> nat \<Rightarrow> Reserved list \<Rightarrow> nat multiset" where
  "region_missed fa base len reserved =
     missed (window_reach fa) reserved (next_multiple base FRAME_BYTES) (region_end base len)"

lemma add_region_ok:
  assumes sound: "sound m fa R" and wf: "frames_wf (R + region_frames fa base len reserved)" and cpu: "cpu < MAX_CPUS"
    and add: "add_region cpu base len reserved (m, fa) = (m', fa')"
  shows "sound m' fa' (R + region_frames fa base len reserved)" "mem_keeps m m' (region_frames fa base len reserved)"
    "fa_unreachable fa' = fa_unreachable fa + size (region_missed fa base len reserved)" "fa_map fa' = fa_map fa"
proof -
  let ?fe = "region_end base len" and ?L = "window_reach fa" and ?f0 = "next_multiple base FRAME_BYTES"
  let ?thr = "max (foldl max 0 (map rsv_end reserved)) LOW_MEMORY_LIMIT"
  have fe: "?fe < 2 ^ 64" "?fe mod FRAME_BYTES = 0" "?L mod FRAME_BYTES = 0"
    unfolding region_end_def window_reach_def by (rule frames_end_props)+
  have start: "walk_ok ?L reserved ?fe ?f0 0"
    using next_multiple_props(2) [of FRAME_BYTES base] by (simp add: walk_ok_def FRAME_BYTES_def)
  obtain frame run m1 fa1 where filt:
      "region_filter cpu ?thr ?fe ?L reserved ?f0 0 (m, fa) = (frame, run, m1, fa1)" by (metis prod_cases4)
  have wf0: "frames_wf (R + reached ?L reserved (open_from ?f0 0) ?fe)"
    using wf by (simp add: region_frames_def open_from_def)
  obtain R1 where W: "walk_ok ?L reserved ?fe frame run"
      "region_walked ?L reserved ?fe m fa ?f0 0 R m1 fa1 frame run R1" "?thr \<le> frame \<or> ?fe \<le> frame"
    using region_filter_ok [OF start fe(1,2) cpu sound wf0 filt] by blast
  define frame1 where "frame1 = (if frame < min ?fe ?L then min ?fe ?L else frame)"
  define run1 where "run1 = (if frame < min ?fe ?L \<and> run = 0 then frame else run)"
  note X = region_rest [OF W(3,1) fe(2,3) frame1_def run1_def]
  obtain m2 fa2 where last: "(if run1 \<noteq> 0 then FrameAllocator_accept cpu run1 frame1 (m1, fa1) else (m1, fa1)) = (m2, fa2)"
    by fastforce
  have "(m', fa') = (if frame1 < ?fe
      then (m2, fa2\<lparr>fa_unreachable := fa_unreachable fa2 + (?fe - frame1) div FRAME_BYTES\<rparr>) else (m2, fa2))"
    unfolding add [symmetric] add_region_def
    by (simp only: Let_def snd_conv prod.case region_end_def [symmetric] window_reach_def [symmetric] filt
        frame1_def [symmetric] run1_def [symmetric] last)
  then have res: "m' = m2" "fa' = (if frame1 < ?fe
      then fa2\<lparr>fa_unreachable := fa_unreachable fa2 + (?fe - frame1) div FRAME_BYTES\<rparr> else fa2)"
    by (simp_all split: if_splits)
  have Y: "sound m2 fa2 (R + region_frames fa base len reserved) \<and> mem_keeps m m2 (region_frames fa base len reserved)
      \<and> fa_map fa2 = fa_map fa
      \<and> fa_unreachable fa2 + size (missed ?L reserved frame ?fe) = fa_unreachable fa + size (region_missed fa base len reserved)"
    unfolding region_frames_def region_missed_def
    by (rule region_finish [OF X(1-3) W(2) _ fe(1) cpu last]) (use wf in \<open>simp_all add: region_frames_def\<close>)
  then show "sound m' fa' (R + region_frames fa base len reserved)" "mem_keeps m m' (region_frames fa base len reserved)"
    "fa_map fa' = fa_map fa"
    by (simp_all add: res)
  show "fa_unreachable fa' = fa_unreachable fa + size (region_missed fa base len reserved)"
    using Y X(4) unfolding res(2) by auto
qed

end
