(* ===== verification/Frame_Memory.thy ===== *)
theory Frame_Memory
  imports Frame_Region
begin

text \<open>
  Each operation of the frame allocator as a statement about its free memory: allocation, zeroed
  or not, freeing, coalescing and scrubbing; and what the counters report of it.
\<close>

subsection \<open>Soundness and counts\<close>

lemma sound_keeps:
  assumes sound: "sound m fa R" and keeps: "mem_keeps m m' X" and wf: "frames_wf (R + X)"
  shows "sound m' fa R"
proof -
  obtain Vs where ok: "fa_ok m fa Vs" "fa_frames fa Vs = R" using sound by (auto simp: sound_def)
  have "shard_ok (fa_map fa) m' (fa_shards fa ! i) (Vs i)" if i: "i < MAX_CPUS" for i
  proof (rule shard_ok_keeps [OF _ keeps])
    show "shard_ok (fa_map fa) m (fa_shards fa ! i) (Vs i)" using ok(1) i by (simp add: fa_ok_def shards_ok_def)
    obtain Z where "pools Vs = pool (Vs i) + Z" using pools_split [OF i] by blast
    then have "R + X = (pool (Vs i) + X) + (Z + frontier_frames (fa_frontier fa))"
      using ok(2) by (simp add: fa_frames_def ac_simps)
    then show "frames_wf (pool (Vs i) + X)" using wf frames_wf_sub by metis
  qed
  then have "fa_ok m' fa Vs" using ok(1) by (simp add: fa_ok_def shards_ok_def)
  then show ?thesis using sound ok(2) by (auto simp: sound_def)
qed

lemma sum_saturating:
  fixes g :: "Shard \<Rightarrow> u64"
  assumes "\<And>i. i < length xs \<Longrightarrow> unat (g (xs ! i)) = n i" "unat a + (\<Sum>i < length xs. n i) < 2 ^ 64"
  shows "unat (foldl (\<lambda>total s. saturating_add total (g s)) a xs) = unat a + (\<Sum>i < length xs. n i)"
  using assms
proof (induction xs arbitrary: a n)
  case (Cons x xs)
  let ?a = "saturating_add a (g x)" and ?n = "\<lambda>i. n (Suc i)"
  have g: "unat (g x) = n 0" using Cons.prems(1) [of 0] by simp
  have sum: "(\<Sum>i < length (x # xs). n i) = n 0 + (\<Sum>i < length xs. ?n i)" by (simp only: list.size(4) add_0_right add_Suc_right sum.lessThan_Suc_shift)
  have a: "unat ?a = unat a + n 0" using Cons.prems(2) g sum by (simp add: unat_saturating_add)
  have "unat (foldl (\<lambda>total s. saturating_add total (g s)) ?a xs) = unat ?a + (\<Sum>i < length xs. ?n i)"
    using Cons.prems(1) [of "Suc i" for i] Cons.prems(2) a sum by (intro Cons.IH) auto
  then show ?case using a sum by simp
qed simp

lemma size_pools: "size (pools Vs) = (\<Sum>i < MAX_CPUS. size (pool (Vs i)))"
  by (simp add: pools_def)

lemma counts_exact:
  assumes ok: "fa_ok m fa Vs" and wf: "frames_wf (fa_frames fa Vs)"
  shows "unat (FrameAllocator_free_count fa) = size (fa_frames fa Vs)"
    "unat (FrameAllocator_clean_count fa) = (\<Sum>i < MAX_CPUS. size (class_pool (Vs i) True))"
    "unat (FrameAllocator_dirty_count fa) =
      size (frontier_frames (fa_frontier fa)) + (\<Sum>i < MAX_CPUS. size (class_pool (Vs i) False))"
proof -
  have len: "length (fa_shards fa) = MAX_CPUS" and f: "unat (frt_frames (fa_frontier fa)) = size (frontier_frames (fa_frontier fa))"
    using ok by (simp_all add: fa_ok_def shards_ok_def frontier_ok_def)
  have cls: "unat (shd_clean_frames (fa_shards fa ! i)) = size (class_pool (Vs i) True)"
      "unat (shd_dirty_frames (fa_shards fa ! i)) = size (class_pool (Vs i) False)" if "i < MAX_CPUS" for i
  proof -
    have "counts_ok (fa_shards fa ! i) (Vs i)" using ok that by (simp add: fa_ok_def shards_ok_def shard_ok_def)
    then have "unat (Shard_frames (fa_shards fa ! i) c) = size (class_pool (Vs i) c)" for c by (simp add: counts_ok_def)
    from this [of True] this [of False]
    show "unat (shd_clean_frames (fa_shards fa ! i)) = size (class_pool (Vs i) True)"
      "unat (shd_dirty_frames (fa_shards fa ! i)) = size (class_pool (Vs i) False)" by (simp_all add: Shard_frames_def)
  qed
  have total: "size (pools Vs) + size (frontier_frames (fa_frontier fa)) < 2 ^ 64"
    using frames_wf_size [OF wf] by (simp add: fa_frames_def)
  have le: "size (pool (Vs i)) \<le> size (pools Vs)" if "i < MAX_CPUS" for i
    unfolding size_pools using that by (intro member_le_sum) auto
  have both: "unat (shd_clean_frames (fa_shards fa ! i) + shd_dirty_frames (fa_shards fa ! i)) = size (pool (Vs i))"
    if "i < MAX_CPUS" for i
    using cls [OF that] le [OF that] total by (subst unat_add_no_wrap) (simp_all add: pool_def)
  have c: "(\<Sum>i < MAX_CPUS. size (class_pool (Vs i) c)) \<le> size (pools Vs)" for c
    unfolding size_pools by (intro sum_mono) (cases c, simp_all add: pool_def)
  note S = sum_saturating [where a = 0 and xs = "fa_shards fa", unfolded len]
  have "unat (FrameAllocator_sum (\<lambda>s. shd_clean_frames s + shd_dirty_frames s) fa) = size (pools Vs)"
    unfolding FrameAllocator_sum_def size_pools using S [of "\<lambda>s. shd_clean_frames s + shd_dirty_frames s" "\<lambda>i. size (pool (Vs i))", OF both] total by (simp add: size_pools)
  then show "unat (FrameAllocator_free_count fa) = size (fa_frames fa Vs)"
    using total f by (simp add: FrameAllocator_free_count_def unat_saturating_add fa_frames_def)
  show "unat (FrameAllocator_clean_count fa) = (\<Sum>i < MAX_CPUS. size (class_pool (Vs i) True))"
    unfolding FrameAllocator_clean_count_def FrameAllocator_sum_def
    using S [of shd_clean_frames "\<lambda>i. size (class_pool (Vs i) True)", OF cls(1)] total c [of True] by simp
  have "unat (FrameAllocator_sum shd_dirty_frames fa) = (\<Sum>i < MAX_CPUS. size (class_pool (Vs i) False))"
    unfolding FrameAllocator_sum_def using S [of shd_dirty_frames "\<lambda>i. size (class_pool (Vs i) False)", OF cls(2)] total c [of False] by simp
  then show "unat (FrameAllocator_dirty_count fa) =
      size (frontier_frames (fa_frontier fa)) + (\<Sum>i < MAX_CPUS. size (class_pool (Vs i) False))"
    using total f c [of False] by (simp add: FrameAllocator_dirty_count_def unat_saturating_add)
qed

lemma sound_free_count: "sound m fa R \<Longrightarrow> unat (FrameAllocator_free_count fa) = size R"
  using counts_exact(1) by (auto simp: sound_def)

lemma fa_exhausted_empty:
  assumes "sound m fa R" "fa_exhausted fa 0"
  shows "R = {#}"
proof -
  obtain Vs where ok: "fa_ok m fa Vs" "fa_frames fa Vs = R" using assms(1) by (auto simp: sound_def)
  have "Vs i c k = []" if i: "i < MAX_CPUS" "k < ORDERS" for i c k
  proof -
    have "lists_ok (fa_map fa) m (fa_shards fa ! i) (Vs i)" using ok(1) i(1) by (simp add: fa_ok_def shards_ok_def shard_ok_def)
    note L = lists_ok_D(2,3) [OF this i(2), of c]
    have "Lists_head (Shard_lists (fa_shards fa ! i) c) k = 0" using assms(2) i by (simp add: fa_exhausted_def)
    then show ?thesis using L by simp
  qed
  then have "pools Vs = {#}" by (simp add: pools_def pool_def class_pool_def)
  moreover have "frontier_frames (fa_frontier fa) = {#}"
    using ok(1) assms(2) by (intro no_offer_empty) (simp_all add: fa_ok_def fa_exhausted_def)
  ultimately show ?thesis using ok(2) by (simp add: fa_frames_def)
qed

subsection \<open>The operations\<close>

definition Frame_mset :: "Frame \<Rightarrow> nat multiset" where
  "Frame_mset f = fr (frm_order f) (frm_base f)"

definition Frame_ok :: "Frame \<Rightarrow> bool" where
  "Frame_ok f \<longleftrightarrow> frm_order f < ORDERS \<and> Order_aligns (frm_order f) (frm_base f)"

lemma alloc_ok:
  assumes sound: "sound m fa R" and cpu: "cpu < MAX_CPUS" and o': "order < ORDERS"
  shows "\<exists>r m' fa'. FrameAllocator_alloc cpu order (m, fa) = Some (r, m', fa') \<and> mem_keeps m m' R
    \<and> (case r of None \<Rightarrow> sound m' fa' R \<and> fa_exhausted fa' order
       | Some f \<Rightarrow> frm_order f = order \<and> Frame_ok f \<and> (\<exists>R'. sound m' fa' R' \<and> R = R' + Frame_mset f))"
proof -
  obtain hit m' fa' where T: "FrameAllocator_take cpu order False (m, fa) = Some (hit, m', fa')" "take_done order m R hit m' fa'"
    using take_ok [OF sound cpu o'] by blast
  then show ?thesis
    using o' by (cases hit) (auto simp: FrameAllocator_alloc_def take_done_def allotted_def Frame_ok_def Frame_mset_def)
qed

lemma alloc_zeroed_ok:
  assumes sound: "sound m fa R" and cpu: "cpu < MAX_CPUS" and o': "order < ORDERS"
  shows "\<exists>r m' fa'. FrameAllocator_alloc_zeroed cpu order (m, fa) = Some (r, m', fa') \<and> mem_keeps m m' R
    \<and> (case r of None \<Rightarrow> sound m' fa' R \<and> fa_exhausted fa' order
       | Some f \<Rightarrow> frm_order f = order \<and> Frame_ok f \<and> (\<exists>R'. sound m' fa' R' \<and> R = R' + Frame_mset f)
           \<and> (\<forall>x. frm_base f \<le> x \<and> x < frm_base f + Frame_bytes f \<longrightarrow> m' x = 0))"
proof -
  obtain hit m1 fa1 where T: "FrameAllocator_take cpu order True (m, fa) = Some (hit, m1, fa1)" "take_done order m R hit m1 fa1"
    using take_ok [OF sound cpu o'] by blast
  show ?thesis
  proof (cases hit)
    case None
    then show ?thesis using T by (auto simp: FrameAllocator_alloc_zeroed_def take_done_def)
  next
    case (Some p)
    then obtain b c where hit: "hit = Some (b, c)" by fastforce
    then obtain R' where A: "sound m1 fa1 R'" "R = R' + fr order b" "Order_aligns order b" "mem_keeps m m1 R"
        "c \<longrightarrow> zeroed m1 order b"
      using T(2) by (auto simp: take_done_def allotted_def)
    let ?m = "if c then clear_link b m1 else zero_block b order m1"
    have keeps: "mem_keeps m1 ?m (fr order b)"
      using mem_keeps_zero [OF A(3)] mem_keeps_clear [OF base_in_fr [OF A(3)] aligned_frame [OF A(3)]] by simp
    have wf: "frames_wf (R' + fr order b)" using sound A(2) by (simp add: sound_def)
    have "?m x = 0" if "b \<le> x" "x < b + Order_bytes order" for x
      using A(5) that by (cases "x = b") (auto simp: clear_link_def zero_block_def zeroed_def)
    moreover have "mem_keeps m ?m R"
      using mem_keeps_mono [OF mem_keeps_trans [OF A(4) keeps], of R] by (simp add: A(2))
    moreover have "FrameAllocator_alloc_zeroed cpu order (m, fa) = Some (Some \<lparr>frm_base = b, frm_order = order\<rparr>, ?m, fa1)"
      using T(1) hit by (simp add: FrameAllocator_alloc_zeroed_def)
    ultimately show ?thesis
      using sound_keeps [OF A(1) keeps wf] A(2,3) o' by (auto simp: Frame_ok_def Frame_mset_def Frame_bytes_def)
  qed
qed

lemma free_ok:
  assumes sound: "sound m fa R" and cpu: "cpu < MAX_CPUS" and f: "Frame_ok f" and wf: "frames_wf (R + Frame_mset f)"
    and free: "FrameAllocator_free cpu f (m, fa) = (m', fa')"
  shows "sound m' fa' (R + Frame_mset f)" "mem_keeps m m' (Frame_mset f)"
proof -
  obtain Vs where ok: "fa_ok m fa Vs" "fa_frames fa Vs = R" using sound by (auto simp: sound_def)
  let ?b = "frm_base f" and ?o = "frm_order f" and ?V = "Vs cpu" and ?f = "fa_frontier fa"
  obtain s' where give: "give (fa_map fa) ?o False ?b (m, fa_shards fa ! cpu) = (m', s')"
      and fa': "fa' = fa\<lparr>fa_shards := (fa_shards fa)[cpu := s']\<rparr>"
    using free by (auto simp: FrameAllocator_free_def split: prod.splits)
  have wf1: "frames_wf (fa_frames fa Vs + Frame_mset f)" using wf ok(2) by simp
  note C = fa_core [OF ok(1) wf1 cpu]
  have o': "?o < ORDERS" "Order_aligns ?o ?b" using f by (simp_all add: Frame_ok_def)
  have pwf: "frames_wf (pool ?V + fr ?o ?b)"
    using C(2) frames_wf_sub [of "pool ?V + fr ?o ?b" "frontier_frames ?f"] by (simp add: core_frames_def Frame_mset_def ac_simps)
  have sh: "shard_ok (fa_map fa) m (fa_shards fa ! cpu) ?V" using C(1) by (simp add: core_ok_def)
  let ?V' = "upd ?V False ?o (?b # ?V False ?o)"
  note G = give_ok [OF sh pwf o' _ give]
  show keeps: "mem_keeps m m' (Frame_mset f)" using G(2) by (simp add: Frame_mset_def)
  have core: "core_ok (fa_map fa) m' s' ?f ?V'" using G(1) C(1) by (simp add: core_ok_def)
  have k2: "mem_keeps m m' (core_frames ?V ?f + Frame_mset f)" by (rule mem_keeps_mono [OF keeps]) simp
  have frames: "core_frames ?V' ?f + {#} = core_frames ?V ?f + Frame_mset f"
    by (simp add: core_frames_def pool_push [OF o'(1)] Frame_mset_def ac_simps)
  have F: "fa_map fa' = fa_map fa" "fa_frontier fa' = ?f" "fa_shards fa' = (fa_shards fa)[cpu := s']" by (simp_all add: fa')
  from core_step [OF ok(1) wf1 cpu core k2 frames F] show "sound m' fa' (R + Frame_mset f)"
    using wf ok(2) by (auto simp: sound_def)
qed

lemma class_pools_upd:
  fixes Vs :: "nat \<Rightarrow> view"
  assumes "cpu < MAX_CPUS" "size (class_pool V' c) = size (class_pool (Vs cpu) c) + n"
  shows "(\<Sum>i < MAX_CPUS. size (class_pool ((Vs(cpu := V')) i) c)) = (\<Sum>i < MAX_CPUS. size (class_pool (Vs i) c)) + n"
proof -
  let ?rest = "\<Sum>i \<in> {..< MAX_CPUS} - {cpu}. size (class_pool (Vs i) c)"
  have "(\<Sum>i < MAX_CPUS. size (class_pool ((Vs(cpu := V')) i) c)) = size (class_pool V' c) + ?rest"
    using assms(1) by (subst sum.remove [of _ cpu]) (auto intro!: sum.cong)
  moreover have "(\<Sum>i < MAX_CPUS. size (class_pool (Vs i) c)) = size (class_pool (Vs cpu) c) + ?rest"
    using assms(1) by (subst sum.remove [of _ cpu]) auto
  ultimately show ?thesis using assms(2) by simp
qed

text \<open>The blocks on one of a core's lists, as its links in memory give them.\<close>

definition on_list :: "memory \<Rightarrow> FrameAllocator \<Rightarrow> nat \<Rightarrow> bool \<Rightarrow> nat \<Rightarrow> nat list \<Rightarrow> bool" where
  "on_list m fa cpu c order xs \<longleftrightarrow> linked (fa_map fa) m (Lists_head (Shard_lists (fa_shards fa ! cpu) c) order) xs"

lemma coalesce_ok:
  assumes sound: "sound m fa R" and cpu: "cpu < MAX_CPUS"
  shows "\<exists>k m' fa'. FrameAllocator_coalesce cpu budget (m, fa) = Some (k, m', fa') \<and> sound m' fa' R \<and> mem_keeps m m' R
    \<and> k \<le> 2 ^ 52 \<and> FrameAllocator_clean_count fa' = FrameAllocator_clean_count fa
    \<and> FrameAllocator_dirty_count fa' = FrameAllocator_dirty_count fa
    \<and> (k < budget \<longrightarrow> (\<forall>c i. i < Order_MAX \<longrightarrow> (\<exists>xs. on_list m' fa' cpu c i xs \<and> no_buddies i xs)))"
proof -
  obtain Vs where ok: "fa_ok m fa Vs" "fa_frames fa Vs = R" and wf: "frames_wf (fa_frames fa Vs)"
    using sound by (auto simp: sound_def)
  obtain k m' fa' V' where C: "coalesce_on cpu budget (m, fa) = Some (k, m', fa')" "fa_ok m' fa' (Vs(cpu := V'))"
      "fa_frames fa' (Vs(cpu := V')) = fa_frames fa Vs" "mem_keeps m m' (fa_frames fa Vs)"
      "\<forall>c. class_pool V' c = class_pool (Vs cpu) c" "k \<le> 2 ^ 52"
      "k < budget \<longrightarrow> (\<forall>c i. i < Order_MAX \<longrightarrow> no_buddies i (V' c i))"
    using coalesce_on_ok [OF ok(1) wf cpu] by blast
  have wf': "frames_wf (fa_frames fa' (Vs(cpu := V')))" using wf C(3) by simp
  have fr: "fa_frontier fa' = fa_frontier fa"
    using C(1) by (auto simp: coalesce_on_def split: Option.bind_splits prod.splits)
  have cls: "(\<Sum>i < MAX_CPUS. size (class_pool ((Vs(cpu := V')) i) c)) = (\<Sum>i < MAX_CPUS. size (class_pool (Vs i) c))" for c
    using class_pools_upd [OF cpu, of V' c Vs 0] C(5) by simp
  have counts: "FrameAllocator_clean_count fa' = FrameAllocator_clean_count fa"
      "FrameAllocator_dirty_count fa' = FrameAllocator_dirty_count fa"
    using counts_exact(2,3) [OF ok(1) wf] counts_exact(2,3) [OF C(2) wf'] cls fr by (metis unsigned_word_eqI)+
  have "on_list m' fa' cpu c i (V' c i)" if "i < ORDERS" for c i
  proof -
    have "lists_ok (fa_map fa') m' (fa_shards fa' ! cpu) V'"
      using C(2) cpu by (auto simp: fa_ok_def shards_ok_def shard_ok_def)
    from lists_ok_D(2,3) [OF this that, of c] show ?thesis by (simp add: on_list_def)
  qed
  then have "k < budget \<longrightarrow> (\<forall>c i. i < Order_MAX \<longrightarrow> (\<exists>xs. on_list m' fa' cpu c i xs \<and> no_buddies i xs))"
    using C(7) by (metis ORDERS_def Suc_eq_plus1 less_SucI)
  moreover have "sound m' fa' R" using C(2,3) ok(2) wf by (auto simp: sound_def)
  ultimately show ?thesis using C(1,4,6) counts ok(2) by (auto simp: FrameAllocator_coalesce_def)
qed

lemma scrub_ok:
  assumes sound: "sound m fa R" and cpu: "cpu < MAX_CPUS" and budget: "budget < 2 ^ 64"
  shows "\<exists>n m' fa'. FrameAllocator_scrub cpu budget (m, fa) = Some (n, m', fa') \<and> sound m' fa' R \<and> mem_keeps m m' R
    \<and> n \<le> budget \<and> unat (FrameAllocator_clean_count fa') = unat (FrameAllocator_clean_count fa) + n
    \<and> (n < budget \<longrightarrow> frt_frames (fa_frontier fa') = 0 \<and> shd_dirty_frames (fa_shards fa' ! cpu) = 0)"
proof -
  obtain Vs where ok: "fa_ok m fa Vs" "fa_frames fa Vs = R" and wf: "frames_wf (fa_frames fa Vs)"
    using sound by (auto simp: sound_def)
  obtain n f' m' s' V' where S: "scrub_loop (fa_map fa) budget 0 (fa_frontier fa, m, fa_shards fa ! cpu) = Some (n, f', m', s')"
      "scrubbed (fa_map fa) budget 0 m (fa_frontier fa) (Vs cpu) n f' m' s' V'"
    using scrub_loop_ok [OF fa_core0 [OF ok(1) wf cpu] _ budget, of 0] by auto
  let ?fa = "fa\<lparr>fa_frontier := f', fa_shards := (fa_shards fa)[cpu := s']\<rparr>"
  have D: "core_ok (fa_map fa) m' s' f' V'" "mem_keeps m m' (core_frames (Vs cpu) (fa_frontier fa))"
      "core_frames (Vs cpu) (fa_frontier fa) = core_frames V' f' + {#}" "n \<le> budget"
      "size (class_pool V' True) = size (class_pool (Vs cpu) True) + n"
      "n < budget \<longrightarrow> class_pool V' False = {#} \<and> frontier_frames f' = {#}"
    using S(2) by (auto simp: scrubbed_def)
  have F: "fa_map ?fa = fa_map fa" "fa_frontier ?fa = f'" "fa_shards ?fa = (fa_shards fa)[cpu := s']" by simp_all
  note C = core_step_out [OF ok(1) wf cpu D(1-3) F]
  have len: "cpu < length (fa_shards fa)" using ok(1) cpu by (simp add: fa_ok_def shards_ok_def)
  have wf': "frames_wf (fa_frames ?fa (Vs(cpu := V')))" using wf C(2) by simp
  have "unat (FrameAllocator_clean_count ?fa) = unat (FrameAllocator_clean_count fa) + n"
    using counts_exact(2) [OF ok(1) wf] counts_exact(2) [OF C(1) wf'] class_pools_upd [OF cpu, of V' True Vs n] D(5) by simp
  moreover have "frt_frames f' = 0 \<and> shd_dirty_frames s' = 0" if "n < budget"
  proof -
    have "counts_ok s' V'" "unat (frt_frames f') = size (frontier_frames f')"
      using D(1) by (simp_all add: core_ok_def shard_ok_def frontier_ok_def)
    moreover from this(1) have "unat (Shard_frames s' False) = size (class_pool V' False)" by (simp add: counts_ok_def)
    ultimately show ?thesis using D(6) that by (simp add: Shard_frames_def unat_eq_zero)
  qed
  moreover have "FrameAllocator_scrub cpu budget (m, fa) = Some (n, m', ?fa)"
    using S(1) by (simp add: FrameAllocator_scrub_def)
  moreover have "sound m' ?fa R" using C(1,2) ok(2) wf by (auto simp: sound_def)
  moreover have "mem_keeps m m' R" using C(3) ok(2) by simp
  ultimately show ?thesis using D(4) len by (intro exI [of _ n] exI [of _ m'] exI [of _ ?fa]) simp
qed

end
