(* ===== verification/Frame_Theorems.thy ===== *)
theory Frame_Theorems
  imports Frame_Memory
begin

text \<open>
  The contract of the frame allocator and what its callers may rely on: a locale for a source of
  blocks, whose clients never share a block and never lose one, interpreted on the allocator; and
  what zeroed allocation, coalescing, scrubbing and adding a region do.
\<close>

subsection \<open>The contract\<close>

text \<open>
  What callers ask of a source of blocks, on any core: to take a block, zeroed or not, to give one
  back, to write into one they hold, and the upkeep the kernel does in between.
\<close>

datatype upkeep = Coalescing nat | Scrubbing nat

datatype request = Take bool nat nat | Release nat nat | Poke nat u64 | Upkeep nat upkeep

definition request_ok :: "request \<Rightarrow> bool" where
  "request_ok q = (case q of
      Take _ cpu order \<Rightarrow> cpu < MAX_CPUS \<and> order < ORDERS
    | Release cpu _ \<Rightarrow> cpu < MAX_CPUS
    | Poke _ _ \<Rightarrow> True
    | Upkeep cpu u \<Rightarrow> cpu < MAX_CPUS \<and> (case u of Scrubbing budget \<Rightarrow> budget < 2 ^ 64 | Coalescing _ \<Rightarrow> True))"

definition covers :: "Frame \<Rightarrow> nat \<Rightarrow> bool" where
  "covers f x \<longleftrightarrow> frm_base f \<le> x \<and> x < frm_base f + Frame_bytes f"

definition remove_nth :: "nat \<Rightarrow> 'a list \<Rightarrow> 'a list" where
  "remove_nth i xs = take i xs @ drop (Suc i) xs"

text \<open>One request, and a history of them, against the blocks the callers hold.\<close>

fun serve ::
  "(bool \<Rightarrow> nat \<Rightarrow> nat \<Rightarrow> 's \<Rightarrow> (Frame option \<times> 's) option) \<Rightarrow> (nat \<Rightarrow> Frame \<Rightarrow> 's \<Rightarrow> 's)
     \<Rightarrow> (nat \<Rightarrow> u64 \<Rightarrow> 's \<Rightarrow> 's) \<Rightarrow> (nat \<Rightarrow> upkeep \<Rightarrow> 's \<Rightarrow> 's option)
     \<Rightarrow> request \<Rightarrow> 's \<times> Frame list \<Rightarrow> ('s \<times> Frame list) option" where
  "serve alloc release poke tend (Take zero cpu order) (s, held) =
     do { (r, s) \<leftarrow> alloc zero cpu order s; Some (s, case r of None \<Rightarrow> held | Some f \<Rightarrow> f # held) }"
| "serve alloc release poke tend (Release cpu i) (s, held) =
     (if i < length held then Some (release cpu (held ! i) s, remove_nth i held) else Some (s, held))"
| "serve alloc release poke tend (Poke a v) (s, held) =
     Some (if list_ex (\<lambda>f. covers f a) held then poke a v s else s, held)"
| "serve alloc release poke tend (Upkeep cpu u) (s, held) = do { s \<leftarrow> tend cpu u s; Some (s, held) }"

fun serve_history ::
  "(bool \<Rightarrow> nat \<Rightarrow> nat \<Rightarrow> 's \<Rightarrow> (Frame option \<times> 's) option) \<Rightarrow> (nat \<Rightarrow> Frame \<Rightarrow> 's \<Rightarrow> 's)
     \<Rightarrow> (nat \<Rightarrow> u64 \<Rightarrow> 's \<Rightarrow> 's) \<Rightarrow> (nat \<Rightarrow> upkeep \<Rightarrow> 's \<Rightarrow> 's option)
     \<Rightarrow> request list \<Rightarrow> 's \<times> Frame list \<Rightarrow> ('s \<times> Frame list) option" where
  "serve_history alloc release poke tend [] st = Some st"
| "serve_history alloc release poke tend (q # qs) st =
     do { st \<leftarrow> serve alloc release poke tend q st; serve_history alloc release poke tend qs st }"

definition held_mset :: "Frame list \<Rightarrow> nat multiset" where
  "held_mset held = \<Sum>\<^sub># (image_mset Frame_mset (mset held))"

lemma held_mset_simps [simp]:
  "held_mset [] = {#}" "held_mset (f # held) = Frame_mset f + held_mset held"
  by (simp_all add: held_mset_def)

lemma held_mset_append [simp]: "held_mset (a @ b) = held_mset a + held_mset b"
  by (simp add: held_mset_def)

lemma held_remove_nth: "i < length held \<Longrightarrow> held_mset held = held_mset (remove_nth i held) + Frame_mset (held ! i)"
  by (subst id_take_nth_drop [of i held]) (simp_all add: remove_nth_def ac_simps)

lemma covers_frame: "Frame_ok f \<Longrightarrow> covers f x \<longleftrightarrow> frame_at x \<in># Frame_mset f"
  using word_in_block [of "frm_order f" "frm_base f" x] by (simp add: covers_def Frame_ok_def Frame_bytes_def Frame_mset_def)

lemma held_covers: "f \<in> set held \<Longrightarrow> Frame_ok f \<Longrightarrow> covers f x \<Longrightarrow> frame_at x \<in># held_mset held"
  by (auto simp: covers_frame held_mset_def)

locale block_source =
  fixes holds :: "'s \<Rightarrow> nat multiset \<Rightarrow> bool"
    and alloc :: "bool \<Rightarrow> nat \<Rightarrow> nat \<Rightarrow> 's \<Rightarrow> (Frame option \<times> 's) option"
    and release :: "nat \<Rightarrow> Frame \<Rightarrow> 's \<Rightarrow> 's"
    and poke :: "nat \<Rightarrow> u64 \<Rightarrow> 's \<Rightarrow> 's"
    and tend :: "nat \<Rightarrow> upkeep \<Rightarrow> 's \<Rightarrow> 's option"
  assumes holds_wf: "holds s R \<Longrightarrow> frames_wf R"
    and alloc_law: "holds s R \<Longrightarrow> request_ok (Take zero cpu order) \<Longrightarrow>
      \<exists>r s'. alloc zero cpu order s = Some (r, s')
        \<and> (case r of None \<Rightarrow> holds s' R | Some f \<Rightarrow> Frame_ok f \<and> (\<exists>R'. holds s' R' \<and> R = R' + Frame_mset f))"
    and release_law: "holds s R \<Longrightarrow> request_ok (Release cpu i) \<Longrightarrow> Frame_ok f \<Longrightarrow> frames_wf (R + Frame_mset f) \<Longrightarrow>
      holds (release cpu f s) (R + Frame_mset f)"
    and poke_law: "holds s R \<Longrightarrow> frames_wf (R + {#frame_at a#}) \<Longrightarrow> holds (poke a v s) R"
    and tend_law: "holds s R \<Longrightarrow> request_ok (Upkeep cpu u) \<Longrightarrow> \<exists>s'. tend cpu u s = Some s' \<and> holds s' R"
begin

definition ledger :: "nat multiset \<Rightarrow> 's \<times> Frame list \<Rightarrow> bool" where
  "ledger T = (\<lambda>(s, held). (\<exists>R. holds s R \<and> R + held_mset held = T) \<and> frames_wf T \<and> (\<forall>f \<in> set held. Frame_ok f))"

lemma serve_ledger:
  assumes "ledger T st" "request_ok q"
  shows "\<exists>st'. serve alloc release poke tend q st = Some st' \<and> ledger T st'"
proof -
  obtain s held R where st: "st = (s, held)" "holds s R" "R + held_mset held = T" "frames_wf T" "\<forall>f \<in> set held. Frame_ok f"
    using assms(1) by (cases st) (auto simp: ledger_def)
  show ?thesis
  proof (cases q)
    case (Take zero cpu order)
    then obtain r s' where "alloc zero cpu order s = Some (r, s')"
        "case r of None \<Rightarrow> holds s' R | Some f \<Rightarrow> Frame_ok f \<and> (\<exists>R'. holds s' R' \<and> R = R' + Frame_mset f)"
      using alloc_law [OF st(2)] assms(2) by blast
    then show ?thesis using st Take by (cases r) (auto simp: ledger_def ac_simps)
  next
    case (Release cpu i)
    show ?thesis
    proof (cases "i < length held")
      case True
      have sub: "set (remove_nth i held) \<subseteq> set held"
        unfolding remove_nth_def using set_take_subset set_drop_subset by fastforce
      have "frames_wf (R + Frame_mset (held ! i) + held_mset (remove_nth i held))"
        using st(3,4) held_remove_nth [OF True] by (simp add: ac_simps)
      then have "holds (release cpu (held ! i) s) (R + Frame_mset (held ! i))"
        using release_law [OF st(2) _ _ frames_wf_sub] st(5) True assms(2) Release nth_mem by blast
      moreover have "R + Frame_mset (held ! i) + held_mset (remove_nth i held) = T"
        using st(3) held_remove_nth [OF True] by (simp add: ac_simps)
      ultimately have "ledger T (release cpu (held ! i) s, remove_nth i held)"
        using st(4,5) sub unfolding ledger_def by blast
      then show ?thesis using st(1) Release True by simp
    qed (use assms(1) Release st(1) in simp)
  next
    case (Poke a v)
    have "holds (poke a v s) R" if "list_ex (\<lambda>f. covers f a) held"
    proof -
      have "frame_at a \<in># held_mset held" using that st(5) held_covers by (auto simp: list_ex_iff)
      then obtain H where "held_mset held = {#frame_at a#} + H" by (metis mset_add add_mset_add_single add.commute)
      then show ?thesis using st(3,4) by (intro poke_law [OF st(2)]) (metis add.assoc frames_wf_sub)
    qed
    then show ?thesis using st Poke by (auto simp: ledger_def)
  next
    case (Upkeep cpu u)
    then show ?thesis using tend_law [OF st(2), of cpu u] assms(2) st by (auto simp: ledger_def)
  qed
qed

lemma history_ledger:
  assumes "ledger T st" "list_all request_ok qs"
  shows "\<exists>st'. serve_history alloc release poke tend qs st = Some st' \<and> ledger T st'"
  using assms
proof (induction qs arbitrary: st)
  case (Cons q qs)
  obtain st1 where "serve alloc release poke tend q st = Some st1" "ledger T st1"
    using serve_ledger [OF Cons.prems(1), of q] Cons.prems(2) unfolding list.pred_inject(2) by blast
  then show ?case using Cons.IH [of st1] Cons.prems(2) by simp
qed simp

lemma history_from_start:
  assumes "holds s R" "list_all request_ok qs"
  shows "\<exists>s' held R'. serve_history alloc release poke tend qs (s, []) = Some (s', held) \<and> holds s' R'
    \<and> R' + held_mset held = R \<and> (\<forall>f \<in> set held. Frame_ok f)"
proof -
  have "ledger R (s, [])" using assms(1) holds_wf by (simp add: ledger_def)
  from history_ledger [OF this assms(2)] show ?thesis by (auto simp: ledger_def)
qed

end

subsection \<open>The allocator keeps the contract\<close>

definition fa_alloc ::
  "bool \<Rightarrow> nat \<Rightarrow> nat \<Rightarrow> memory \<times> FrameAllocator \<Rightarrow> (Frame option \<times> memory \<times> FrameAllocator) option" where
  "fa_alloc zero = (if zero then FrameAllocator_alloc_zeroed else FrameAllocator_alloc)"

definition fa_poke :: "nat \<Rightarrow> u64 \<Rightarrow> memory \<times> FrameAllocator \<Rightarrow> memory \<times> FrameAllocator" where
  "fa_poke a v = (\<lambda>(m, fa). (m(a := v), fa))"

definition fa_tend :: "nat \<Rightarrow> upkeep \<Rightarrow> memory \<times> FrameAllocator \<Rightarrow> (memory \<times> FrameAllocator) option" where
  "fa_tend cpu u st = (case u of
      Coalescing budget \<Rightarrow> map_option snd (FrameAllocator_coalesce cpu budget st)
    | Scrubbing budget \<Rightarrow> map_option snd (FrameAllocator_scrub cpu budget st))"

lemma fa_alloc_law:
  assumes "sound m fa R" "request_ok (Take zero cpu order)"
  shows "\<exists>r m' fa'. fa_alloc zero cpu order (m, fa) = Some (r, m', fa')
    \<and> (case r of None \<Rightarrow> sound m' fa' R | Some f \<Rightarrow> Frame_ok f \<and> (\<exists>R'. sound m' fa' R' \<and> R = R' + Frame_mset f))"
proof -
  have ok: "cpu < MAX_CPUS" "order < ORDERS" using assms(2) by (simp_all add: request_ok_def)
  obtain r m' fa' where R: "fa_alloc zero cpu order (m, fa) = Some (r, m', fa')"
      "case r of None \<Rightarrow> sound m' fa' R \<and> fa_exhausted fa' order
       | Some f \<Rightarrow> frm_order f = order \<and> Frame_ok f \<and> (\<exists>R'. sound m' fa' R' \<and> R = R' + Frame_mset f)"
  proof (cases zero)
    case True
    obtain r m' fa' where "FrameAllocator_alloc_zeroed cpu order (m, fa) = Some (r, m', fa')"
        "case r of None \<Rightarrow> sound m' fa' R \<and> fa_exhausted fa' order
         | Some f \<Rightarrow> frm_order f = order \<and> Frame_ok f \<and> (\<exists>R'. sound m' fa' R' \<and> R = R' + Frame_mset f)
             \<and> (\<forall>x. frm_base f \<le> x \<and> x < frm_base f + Frame_bytes f \<longrightarrow> m' x = 0)"
      using alloc_zeroed_ok [OF assms(1) ok] by blast
    then show ?thesis using that True by (cases r) (auto simp: fa_alloc_def)
  next
    case False
    then show ?thesis using that alloc_ok [OF assms(1) ok] by (auto simp: fa_alloc_def)
  qed
  then show ?thesis by (cases r) auto
qed

lemma fa_tend_law:
  assumes "sound m fa R" "request_ok (Upkeep cpu u)"
  shows "\<exists>m' fa'. fa_tend cpu u (m, fa) = Some (m', fa') \<and> sound m' fa' R"
proof (cases u)
  case (Coalescing budget)
  have "cpu < MAX_CPUS" using assms(2) by (simp add: request_ok_def)
  then show ?thesis using coalesce_ok [OF assms(1), of cpu budget] Coalescing by (auto simp: fa_tend_def)
next
  case (Scrubbing budget)
  have "cpu < MAX_CPUS" "budget < 2 ^ 64" using assms(2) Scrubbing by (simp_all add: request_ok_def)
  then show ?thesis using scrub_ok [OF assms(1), of cpu budget] Scrubbing by (auto simp: fa_tend_def)
qed

lemma fa_poke_law:
  assumes "sound m fa R" "frames_wf (R + {#frame_at a#})"
  shows "sound (m(a := v)) fa R"
  by (rule sound_keeps [OF assms(1) _ assms(2)]) (auto simp: mem_keeps_def)

interpretation frames: block_source "\<lambda>(m, fa) R. sound m fa R" fa_alloc FrameAllocator_free fa_poke fa_tend
proof (unfold_locales, goal_cases)
  case (1 s R)
  then show ?case by (simp add: sound_def split: prod.splits)
next
  case (2 s R zero cpu order)
  then show ?case using fa_alloc_law [of "fst s" "snd s" R zero cpu order] by (cases s) fastforce
next
  case (3 s R cpu i f)
  then show ?case using free_ok(1) [of "fst s" "snd s" R cpu f]
    by (cases s; cases "FrameAllocator_free cpu f s") (simp add: request_ok_def)
next
  case (4 s R a v)
  then show ?case using fa_poke_law by (cases s) (simp add: fa_poke_def)
next
  case (5 s R cpu u)
  then show ?case using fa_tend_law [of "fst s" "snd s" R cpu u] by (cases s) fastforce
qed

subsection \<open>A small machine\<close>

text \<open>Two frames at two mebibytes, for the witnesses.\<close>

definition boot :: "memory \<times> FrameAllocator" where
  "boot = add_region 0 0x200000 0x2000 [] (\<lambda>_. 0, FrameAllocator_new 7)"

lemma new_sound: "sound m (FrameAllocator_new cookie) {#}"
proof -
  let ?fa = "FrameAllocator_new cookie" and ?V = "\<lambda>_ _ _. [] :: nat list"
  have "class_pool (\<lambda>_ _. []) c = {#}" for c by (simp add: class_pool_def)
  then have "shard_ok w m Shard_EMPTY (\<lambda>_ _. [])" for w
    by (auto simp: shard_ok_def lists_ok_def counts_ok_def Shard_EMPTY_def Shard_lists_def Shard_frames_def Lists_EMPTY_def)
  then have "fa_ok m ?fa ?V"
    by (simp add: fa_ok_def shards_ok_def FrameAllocator_new_def frontier_ok_def Frontier_EMPTY_def frontier_frames_def)
  moreover have "fa_frames ?fa ?V = {#}"
    by (simp add: fa_frames_def pools_def pool_def class_pool_def FrameAllocator_new_def Frontier_EMPTY_def frontier_frames_def)
  ultimately show ?thesis by (auto simp: sound_def frames_wf_def)
qed

lemma boot_frames: "region_frames (FrameAllocator_new 7) 0x200000 0x2000 [] = {#0x200000, 0x201000#}"
proof -
  have "run_frames 0x200000 0x202000 = {#0x200000, 0x201000#}"
    using run_frames_split [of "0x200000" "0x201000" "0x202000"] run_frames_one [of "0x200000"] run_frames_one [of "0x201000"]
    by (simp add: FRAME_BYTES_def)
  then show ?thesis
    by (simp add: region_frames_def reached_def window_reach_def region_end_def next_multiple_def FrameAllocator_new_def
        usable_def sat64_def FRAME_BYTES_def LOW_MEMORY_LIMIT_def IDENTITY_LIMIT_def)
qed

lemma boot_wf: "frames_wf {#0x200000, 0x201000#}"
  by (simp add: frames_wf_def FRAME_BYTES_def)

lemma boot_sound: "sound (fst boot) (snd boot) {#0x200000, 0x201000#}"
  using add_region_ok(1) [OF new_sound _ _ prod.collapse [symmetric], of 7 "0x200000" "0x2000" "[]" 0 "\<lambda>_. 0"]
  by (simp add: boot_frames boot_wf MAX_CPUS_def boot_def)

subsection \<open>Properties\<close>

lemma apart_from_wf:
  assumes "frames_wf (R + held_mset held)" "\<forall>f \<in> set held. Frame_ok f"
  shows "sorted_wrt (\<lambda>f g. \<forall>x. \<not> (covers f x \<and> covers g x)) held"
  using assms
proof (induction held)
  case (Cons f held)
  have wf: "frames_wf (Frame_mset f + held_mset held)"
    using Cons.prems(1) frames_wf_sub [of "Frame_mset f + held_mset held" R] by (simp add: ac_simps)
  have "frames_wf (R + held_mset held)"
    using Cons.prems(1) frames_wf_sub [of "R + held_mset held" "Frame_mset f"] by (simp add: ac_simps)
  moreover have "\<not> (covers f x \<and> covers g x)" if "g \<in> set held" for g x
    using frames_wf_disjoint [OF wf, of "frame_at x"] covers_frame [of f x] held_covers [OF that, of x] Cons.prems(2) that
    by auto
  ultimately show ?case using Cons by simp
qed simp

text \<open>
  C32: No memory is handed out twice and none is lost. Starting from any sound allocator, after any
  history of allocations, zeroed or not, frees, writes by the holders into the blocks they hold,
  coalescing and scrubbing, on any cores, every call has returned; the blocks now held do not
  overlap each other or the free memory; free and held memory together are exactly the memory there
  was; and the allocator's count of free frames is exact.
\<close>
theorem alloc_exclusive:
  assumes "sound m fa R" "list_all request_ok qs"
  shows "\<exists>m' fa' held R'.
    serve_history fa_alloc FrameAllocator_free fa_poke fa_tend qs ((m, fa), []) = Some ((m', fa'), held)
    \<and> sound m' fa' R' \<and> R' + held_mset held = R \<and> unat (FrameAllocator_free_count fa') = size R'
    \<and> sorted_wrt (\<lambda>f g. \<forall>x. \<not> (covers f x \<and> covers g x)) held
    \<and> (\<forall>f \<in> set held. \<forall>x. covers f x \<longrightarrow> frame_at x \<notin># R')"
proof -
  have "(case (m, fa) of (m, fa) \<Rightarrow> sound m fa) R" using assms(1) by simp
  from frames.history_from_start [OF this assms(2)] obtain m' fa' held R' where H:
      "serve_history fa_alloc FrameAllocator_free fa_poke fa_tend qs ((m, fa), []) = Some ((m', fa'), held)"
      "sound m' fa' R'" "R' + held_mset held = R" "\<forall>f \<in> set held. Frame_ok f"
    by auto
  have wf: "frames_wf (R' + held_mset held)" using assms(1) H(3) by (simp add: sound_def)
  have "frame_at x \<notin># R'" if "f \<in> set held" "covers f x" for f x
    using frames_wf_disjoint [OF wf, of "frame_at x"] held_covers [OF that(1) _ that(2)] H(4) that(1) by auto
  then show ?thesis using H apart_from_wf [OF wf H(4)] sound_free_count [OF H(2)] by blast
qed

theorem alloc_exclusive_witness:
  "list_all request_ok [Take True 0 0, Take False 1 0, Poke 0x200008 9, Release 0 0, Upkeep 0 (Coalescing 5), Upkeep 1 (Scrubbing 4)]
   \<and> (\<exists>m' fa' held R'. serve_history fa_alloc FrameAllocator_free fa_poke fa_tend
        [Take True 0 0, Take False 1 0, Poke 0x200008 9, Release 0 0, Upkeep 0 (Coalescing 5), Upkeep 1 (Scrubbing 4)]
        ((fst boot, snd boot), []) = Some ((m', fa'), held)
      \<and> sound m' fa' R' \<and> R' + held_mset held = {#0x200000, 0x201000#}
      \<and> unat (FrameAllocator_free_count fa') = size R'
      \<and> sorted_wrt (\<lambda>f g. \<forall>x. \<not> (covers f x \<and> covers g x)) held
      \<and> (\<forall>f \<in> set held. \<forall>x. covers f x \<longrightarrow> frame_at x \<notin># R'))"
proof -
  have "list_all request_ok [Take True 0 0, Take False 1 0, Poke 0x200008 9, Release 0 0, Upkeep 0 (Coalescing 5), Upkeep 1 (Scrubbing 4)]"
    by (simp add: request_ok_def MAX_CPUS_def ORDERS_def Order_MAX_def)
  then show ?thesis using alloc_exclusive [OF boot_sound] by blast
qed

text \<open>
  C33: A zeroed allocation returns, touches no memory that is not free, and either gives an aligned
  block of the order asked for whose every word is zero, taken out of the free memory, or gives
  nothing, with the free memory as it was and no block of that order or above on any core's lists
  or in any untouched run. A single frame is refused only when no frame is free.
\<close>
theorem alloc_zeroed_clean:
  assumes "sound m fa R" "cpu < MAX_CPUS" "order \<le> Order_MAX"
  shows "\<exists>r m' fa'. FrameAllocator_alloc_zeroed cpu order (m, fa) = Some (r, m', fa')
    \<and> (\<forall>x. frame_at x \<notin># R \<longrightarrow> m' x = m x)
    \<and> (case r of
         None \<Rightarrow> sound m' fa' R \<and> fa_exhausted fa' order \<and> (order = 0 \<longrightarrow> R = {#})
       | Some f \<Rightarrow> frm_order f = order \<and> frm_base f mod Order_bytes order = 0
           \<and> (\<forall>x. frm_base f \<le> x \<and> x < frm_base f + Order_bytes order \<longrightarrow> m' x = 0)
           \<and> (\<exists>R'. sound m' fa' R' \<and> R = R' + fr order (frm_base f)))"
proof -
  have "order < ORDERS" using assms(3) by (simp add: ORDERS_def)
  then obtain r m' fa' where A: "FrameAllocator_alloc_zeroed cpu order (m, fa) = Some (r, m', fa')" "mem_keeps m m' R"
      "case r of None \<Rightarrow> sound m' fa' R \<and> fa_exhausted fa' order
       | Some f \<Rightarrow> frm_order f = order \<and> Frame_ok f \<and> (\<exists>R'. sound m' fa' R' \<and> R = R' + Frame_mset f)
           \<and> (\<forall>x. frm_base f \<le> x \<and> x < frm_base f + Frame_bytes f \<longrightarrow> m' x = 0)"
    using alloc_zeroed_ok [OF assms(1,2)] by blast
  have "order = 0 \<longrightarrow> R = {#}" if "r = None" using A(3) that fa_exhausted_empty by auto
  then show ?thesis
    using A by (cases r) (auto simp: mem_keeps_def Frame_ok_def Frame_mset_def Frame_bytes_def Order_aligns_def)
qed

theorem alloc_zeroed_clean_witness:
  "\<exists>f m' fa' R'. FrameAllocator_alloc_zeroed 3 0 (fst boot, snd boot) = Some (Some f, m', fa')
    \<and> (\<forall>x. frm_base f \<le> x \<and> x < frm_base f + Order_bytes 0 \<longrightarrow> m' x = 0)
    \<and> sound m' fa' R' \<and> {#0x200000, 0x201000#} = R' + fr 0 (frm_base f)"
proof -
  have "3 < MAX_CPUS" "0 \<le> Order_MAX" by (simp_all add: MAX_CPUS_def)
  from alloc_zeroed_clean [OF boot_sound this] obtain r m' fa' where A:
      "FrameAllocator_alloc_zeroed 3 0 (fst boot, snd boot) = Some (r, m', fa')"
      "case r of
         None \<Rightarrow> sound m' fa' {#0x200000, 0x201000#} \<and> fa_exhausted fa' 0 \<and> ((0::nat) = 0 \<longrightarrow> {#0x200000, 0x201000::nat#} = {#})
       | Some f \<Rightarrow> frm_order f = 0 \<and> frm_base f mod Order_bytes 0 = 0
           \<and> (\<forall>x. frm_base f \<le> x \<and> x < frm_base f + Order_bytes 0 \<longrightarrow> m' x = 0)
           \<and> (\<exists>R'. sound m' fa' R' \<and> {#0x200000, 0x201000#} = R' + fr 0 (frm_base f))"
    by blast
  then show ?thesis by (cases r) auto
qed

text \<open>
  C34: Coalescing returns, whatever the lists hold, and changes neither the free memory nor how many
  free frames are clean and how many dirty, nor any word outside the free memory. If it stopped
  short of its budget, no list of the core below the largest order holds both halves of a larger
  block.
\<close>
theorem coalesce_complete:
  assumes "sound m fa R" "cpu < MAX_CPUS"
  shows "\<exists>k m' fa'. FrameAllocator_coalesce cpu budget (m, fa) = Some (k, m', fa')
    \<and> sound m' fa' R \<and> (\<forall>x. frame_at x \<notin># R \<longrightarrow> m' x = m x)
    \<and> FrameAllocator_clean_count fa' = FrameAllocator_clean_count fa
    \<and> FrameAllocator_dirty_count fa' = FrameAllocator_dirty_count fa
    \<and> (k < budget \<longrightarrow> (\<forall>c i. i < Order_MAX \<longrightarrow> (\<exists>xs. on_list m' fa' cpu c i xs
         \<and> (\<forall>a \<in> set xs. Order_is_lower i a \<longrightarrow> a + Order_bytes i \<notin> set xs))))"
proof -
  obtain k m' fa' where C: "FrameAllocator_coalesce cpu budget (m, fa) = Some (k, m', fa')" "sound m' fa' R" "mem_keeps m m' R"
      "FrameAllocator_clean_count fa' = FrameAllocator_clean_count fa"
      "FrameAllocator_dirty_count fa' = FrameAllocator_dirty_count fa"
      "k < budget \<longrightarrow> (\<forall>c i. i < Order_MAX \<longrightarrow> (\<exists>xs. on_list m' fa' cpu c i xs \<and> no_buddies i xs))"
    using coalesce_ok [OF assms] by blast
  have "k < budget \<longrightarrow> (\<forall>c i. i < Order_MAX \<longrightarrow> (\<exists>xs. on_list m' fa' cpu c i xs
      \<and> (\<forall>a \<in> set xs. Order_is_lower i a \<longrightarrow> a + Order_bytes i \<notin> set xs)))"
    using C(6) unfolding no_buddies_def list_all_iff by metis
  then show ?thesis using C(1-5) unfolding mem_keeps_def by blast
qed

theorem coalesce_complete_witness:
  "\<exists>k m' fa'. FrameAllocator_coalesce 0 9 (fst boot, snd boot) = Some (k, m', fa')
    \<and> sound m' fa' {#0x200000, 0x201000#}
    \<and> FrameAllocator_clean_count fa' = FrameAllocator_clean_count (snd boot)
    \<and> (k < 9 \<longrightarrow> (\<forall>c i. i < Order_MAX \<longrightarrow> (\<exists>xs. on_list m' fa' 0 c i xs
         \<and> (\<forall>a \<in> set xs. Order_is_lower i a \<longrightarrow> a + Order_bytes i \<notin> set xs))))"
proof -
  have "0 < MAX_CPUS" by (simp add: MAX_CPUS_def)
  from coalesce_complete [OF boot_sound this, of 9] show ?thesis by metis
qed

text \<open>
  C35: Scrubbing ends, zeroes at most its budget of frames, and moves exactly as many free frames
  from dirty to clean as it reports, with the free memory unchanged. It stops short of its budget
  only when the core holds no dirty frame and no untouched memory is left.
\<close>
theorem scrub_exact:
  assumes "sound m fa R" "cpu < MAX_CPUS" "budget < 2 ^ 64"
  shows "\<exists>n m' fa'. FrameAllocator_scrub cpu budget (m, fa) = Some (n, m', fa') \<and> sound m' fa' R
    \<and> (\<forall>x. frame_at x \<notin># R \<longrightarrow> m' x = m x) \<and> n \<le> budget
    \<and> unat (FrameAllocator_clean_count fa') = unat (FrameAllocator_clean_count fa) + n
    \<and> (n < budget \<longrightarrow> frt_frames (fa_frontier fa') = 0 \<and> shd_dirty_frames (fa_shards fa' ! cpu) = 0)"
  using scrub_ok [OF assms] unfolding mem_keeps_def by blast

theorem scrub_exact_witness:
  "\<exists>n m' fa'. FrameAllocator_scrub 0 1 (fst boot, snd boot) = Some (n, m', fa') \<and> n \<le> 1
    \<and> sound m' fa' {#0x200000, 0x201000#}
    \<and> unat (FrameAllocator_clean_count fa') = unat (FrameAllocator_clean_count (snd boot)) + n
    \<and> (n < 1 \<longrightarrow> frt_frames (fa_frontier fa') = 0 \<and> shd_dirty_frames (fa_shards fa' ! 0) = 0)"
proof -
  have "0 < MAX_CPUS" "(1::nat) < 2 ^ 64" by (simp_all add: MAX_CPUS_def)
  from scrub_exact [OF boot_sound this] show ?thesis by metis
qed

lemma in_region_frames:
  assumes "f mod FRAME_BYTES = 0"
  shows "f \<in># region_frames fa base len reserved \<longleftrightarrow>
    base \<le> f \<and> f + FRAME_BYTES \<le> sat64 (base + len) \<and> LOW_MEMORY_LIMIT \<le> f \<and> f + FRAME_BYTES \<le> win_limit (fa_map fa)
    \<and> (\<forall>r \<in> set reserved. f + FRAME_BYTES \<le> rsv_base r \<or> rsv_end r \<le> f)"
proof -
  have F: "0 < FRAME_BYTES" by (simp add: FRAME_BYTES_def)
  obtain k where k: "f = k * FRAME_BYTES" using assms by (metis dvd_def mod_0_imp_dvd mult.commute)
  have up: "f + FRAME_BYTES \<le> n div FRAME_BYTES * FRAME_BYTES \<longleftrightarrow> f + FRAME_BYTES \<le> n" for n
  proof -
    have "f + FRAME_BYTES = Suc k * FRAME_BYTES" by (simp add: k)
    then show ?thesis using F by (simp only: mult_le_cancel2 less_eq_div_iff_mult_less_eq) auto
  qed
  have "f < region_end base len \<longleftrightarrow> f + FRAME_BYTES \<le> sat64 (base + len)"
    using frame_fits [OF assms frames_end_props(2)] F up unfolding region_end_def
    by (metis (no_types, lifting) add_less_cancel_left add_0_right less_le_trans)
  moreover have "next_multiple base FRAME_BYTES \<le> f \<longleftrightarrow> base \<le> f"
  proof
    show "base \<le> f" if "next_multiple base FRAME_BYTES \<le> f"
      using next_multiple_props(1) [OF F, of base] that by (rule order_trans)
    assume "base \<le> f"
    then have "(base + FRAME_BYTES - 1) div FRAME_BYTES \<le> (f + FRAME_BYTES - 1) div FRAME_BYTES" by (intro div_le_mono) simp
    also have "\<dots> = k" using F unfolding k by (simp add: div_mult_self3 FRAME_BYTES_def)
    finally show "next_multiple base FRAME_BYTES \<le> f" by (simp add: next_multiple_def k)
  qed
  ultimately show ?thesis
    using assms up [of "win_limit (fa_map fa)"]
    by (auto simp: region_frames_def reached_def in_run_frames usable_def window_reach_def list_ex_iff
        Reserved_overlaps_def not_less)
qed

text \<open>
  C36: Adding a region makes free exactly its whole frames that lie above the first mebibyte, end
  within what the window reaches, and overlap no reserved range; nothing else becomes free, no word
  of other memory changes, the count of free frames grows by as many, and the region's other usable
  frames are counted as unreachable.
\<close>
theorem add_region_exact:
  assumes "sound m fa R" "frames_wf (R + region_frames fa base len reserved)" "cpu < MAX_CPUS"
    "base \<le> 2 ^ 64 - FRAME_BYTES" "add_region cpu base len reserved (m, fa) = (m', fa')"
  shows "sound m' fa' (R + region_frames fa base len reserved)
    \<and> (\<forall>f. f \<in># region_frames fa base len reserved \<longleftrightarrow> f mod FRAME_BYTES = 0
         \<and> base \<le> f \<and> f + FRAME_BYTES \<le> min (base + len) (2 ^ 64 - 1)
         \<and> LOW_MEMORY_LIMIT \<le> f \<and> f + FRAME_BYTES \<le> win_limit (fa_map fa)
         \<and> (\<forall>r \<in> set reserved. f + FRAME_BYTES \<le> rsv_base r \<or> rsv_end r \<le> f))
    \<and> (\<forall>x. frame_at x \<notin># region_frames fa base len reserved \<longrightarrow> m' x = m x)
    \<and> unat (FrameAllocator_free_count fa') = unat (FrameAllocator_free_count fa) + size (region_frames fa base len reserved)
    \<and> FrameAllocator_unreachable_count fa' = FrameAllocator_unreachable_count fa + size (region_missed fa base len reserved)"
proof -
  note A = add_region_ok [OF assms(1-3,5)]
  have "f mod FRAME_BYTES = 0" if "f \<in># region_frames fa base len reserved" for f
    using that by (simp add: region_frames_def reached_def in_run_frames)
  then show ?thesis
    using A sound_free_count [OF A(1)] sound_free_count [OF assms(1)] in_region_frames [of _ fa base len reserved]
    unfolding mem_keeps_def sat64_def FrameAllocator_unreachable_count_def by (metis size_union)
qed

theorem add_region_exact_witness:
  "sound (fst boot) (snd boot) ({#} + {#0x200000, 0x201000#})
    \<and> unat (FrameAllocator_free_count (snd boot)) = unat (FrameAllocator_free_count (FrameAllocator_new 7)) + 2"
proof -
  have "frames_wf ({#} + region_frames (FrameAllocator_new 7) 0x200000 0x2000 [])" "0 < MAX_CPUS"
      "0x200000 \<le> 2 ^ 64 - FRAME_BYTES"
      "add_region 0 0x200000 0x2000 [] (\<lambda>_. 0, FrameAllocator_new 7) = (fst boot, snd boot)"
    by (simp_all add: boot_frames boot_wf MAX_CPUS_def FRAME_BYTES_def boot_def)
  from add_region_exact [OF new_sound this] show ?thesis by (simp add: boot_frames)
qed

end
