(* ===== verification/Bytes.thy ===== *)
theory Bytes
  imports Prelude
begin

text \<open>
  Byte strings as the storage sources use them: sub-slices and copies into them, little- and
  big-endian integers, arrays cut into pieces of one size, and the rounding of a length to blocks.
\<close>

subsection \<open>Slices\<close>

text \<open>\<open>&xs[a..b]\<close>, and \<open>xs[a..a + n].copy_from_slice(ys)\<close> for \<open>ys\<close> of length \<open>n\<close>.\<close>

definition slice :: "nat \<Rightarrow> nat \<Rightarrow> 'a list \<Rightarrow> 'a list" where
  "slice a b xs = take (b - a) (drop a xs)"

definition put_at :: "nat \<Rightarrow> 'a list \<Rightarrow> 'a list \<Rightarrow> 'a list" where
  "put_at a ys xs = take a xs @ ys @ drop (a + length ys) xs"

lemma length_slice [simp]: "length (slice a b xs) = min (b - a) (length xs - a)"
  by (simp add: slice_def)

lemma length_put_at [simp]: "a + length ys \<le> length xs \<Longrightarrow> length (put_at a ys xs) = length xs"
  by (simp add: put_at_def)

lemma nth_put_at:
  "a + length ys \<le> length xs \<Longrightarrow> i < length xs \<Longrightarrow>
   put_at a ys xs ! i = (if a \<le> i \<and> i < a + length ys then ys ! (i - a) else xs ! i)"
  by (auto simp: put_at_def nth_append)

lemma nth_slice: "i < b - a \<Longrightarrow> a + i < length xs \<Longrightarrow> slice a b xs ! i = xs ! (a + i)"
  by (simp add: slice_def)

lemma slice_put_at_same [simp]:
  "a + length ys \<le> length xs \<Longrightarrow> b = a + length ys \<Longrightarrow> slice a b (put_at a ys xs) = ys"
  by (simp add: slice_def put_at_def)

lemma slice_put_at_other:
  assumes "a + length ys \<le> length xs" "d \<le> a \<or> a + length ys \<le> c"
  shows "slice c d (put_at a ys xs) = slice c d xs"
  using assms by (intro nth_equalityI) (auto simp: nth_slice nth_put_at)

lemma take_put_at: "n \<le> a \<Longrightarrow> a \<le> length xs \<Longrightarrow> take n (put_at a ys xs) = take n xs"
  by (simp add: put_at_def)

lemma take_put_at_end:
  "a \<le> length xs \<Longrightarrow> take (a + length ys) (put_at a ys xs) = take a xs @ ys"
  by (simp add: put_at_def)

lemma put_at_0 [simp]: "put_at 0 ys xs = ys @ drop (length ys) xs"
  by (simp add: put_at_def)

lemma slice_append_left: "b \<le> length xs \<Longrightarrow> slice a b (xs @ ys) = slice a b xs"
  by (auto simp: slice_def)

lemma slice_append_right:
  "length xs \<le> a \<Longrightarrow> slice a b (xs @ ys) = slice (a - length xs) (b - length xs) ys"
  by (simp add: slice_def)

lemma slice_all: "length xs = b \<Longrightarrow> slice 0 b xs = xs"
  by (simp add: slice_def)

lemma slice_0: "slice 0 b xs = take b xs"
  by (simp add: slice_def)

subsection \<open>Integers in memory\<close>

text \<open>\<open>to_le_bytes\<close> of an integer of \<open>n\<close> bytes and its inverse; big-endian is the reverse.\<close>

definition to_le_bytes :: "nat \<Rightarrow> 'a::len word \<Rightarrow> u8 list" where
  "to_le_bytes n w = map (\<lambda>i. ucast (drop_bit (8 * i) w)) [0..<n]"

fun from_le_bytes :: "u8 list \<Rightarrow> 'a::len word" where
  "from_le_bytes [] = 0"
| "from_le_bytes (b # bs) = ucast b OR push_bit 8 (from_le_bytes bs)"

definition to_be_bytes :: "nat \<Rightarrow> 'a::len word \<Rightarrow> u8 list" where
  "to_be_bytes n w = rev (to_le_bytes n w)"

definition from_be_bytes :: "u8 list \<Rightarrow> 'a::len word" where
  "from_be_bytes bs = from_le_bytes (rev bs)"

lemma length_to_le_bytes [simp]: "length (to_le_bytes n w) = n"
  by (simp add: to_le_bytes_def)

lemma length_to_be_bytes [simp]: "length (to_be_bytes n w) = n"
  by (simp add: to_be_bytes_def)

lemma bit_from_le_bytes:
  "bit (from_le_bytes bs :: 'a::len word) n \<longleftrightarrow>
     n < LENGTH('a) \<and> n div 8 < length bs \<and> bit (bs ! (n div 8)) (n mod 8)"
proof (induction bs arbitrary: n)
  case (Cons b bs)
  show ?case
  proof (cases "n < 8")
    case True
    then show ?thesis
      by (auto simp: bit_or_iff bit_push_bit_iff bit_ucast_iff)
  next
    case False
    then have "n div 8 = Suc ((n - 8) div 8)" "n mod 8 = (n - 8) mod 8"
      by (simp_all add: le_div_geq le_mod_geq)
    moreover have "\<not> bit (ucast b :: 'a word) n"
      using False by (auto simp: bit_ucast_iff dest: bit_imp_le_length)
    ultimately show ?thesis
      using False Cons.IH [of "n - 8"] by (auto simp: bit_or_iff bit_push_bit_iff)
  qed
qed simp

lemma from_to_le_bytes:
  assumes "LENGTH('a) \<le> 8 * n"
  shows "from_le_bytes (to_le_bytes n w) = (w :: 'a::len word)"
proof (rule bit_word_eqI)
  fix k assume "k < LENGTH('a)"
  moreover from this have "k div 8 < n" using assms by simp
  moreover have "8 * (k div 8) + k mod 8 = k" by simp
  ultimately show "bit (from_le_bytes (to_le_bytes n w) :: 'a word) k = bit w k"
    by (simp add: bit_from_le_bytes to_le_bytes_def bit_ucast_iff bit_drop_bit_eq)
qed

lemma from_le_to_le_bytes [simp]:
  "from_le_bytes (to_le_bytes 2 w2) = (w2 :: u16)"
  "from_le_bytes (to_le_bytes 4 w4) = (w4 :: u32)"
  "from_le_bytes (to_le_bytes 8 w8) = (w8 :: u64)"
  by (simp_all add: from_to_le_bytes)

subsection \<open>Equal pieces\<close>

text \<open>\<open>as_chunks::<N>\<close>: the whole pieces, and the shorter tail.\<close>

fun as_chunks :: "nat \<Rightarrow> 'a list \<Rightarrow> 'a list list \<times> 'a list" where
  "as_chunks n xs =
     (if n = 0 \<or> length xs < n then ([], xs)
      else case as_chunks n (drop n xs) of (cs, t) \<Rightarrow> (take n xs # cs, t))"

declare as_chunks.simps [simp del]

lemma as_chunks_short: "length xs < n \<Longrightarrow> as_chunks n xs = ([], xs)"
  by (subst as_chunks.simps) simp

lemma as_chunks_append:
  "length xs = n \<Longrightarrow> 0 < n \<Longrightarrow> as_chunks n (xs @ ys) = (case as_chunks n ys of (cs, t) \<Rightarrow> (xs # cs, t))"
  by (subst as_chunks.simps) simp

lemma as_chunks_step:
  assumes "\<not> (n = 0 \<or> length xs < n)" "as_chunks n xs = (cs, t)"
  obtains ds where "as_chunks n (drop n xs) = (ds, t)" "cs = take n xs # ds"
  using assms as_chunks.simps [of n xs] by (cases "as_chunks n (drop n xs)") auto

lemma as_chunks_concat: "as_chunks n xs = (cs, t) \<Longrightarrow> concat cs @ t = xs"
proof (induction n xs arbitrary: cs t rule: as_chunks.induct)
  case (1 n xs)
  show ?case
  proof (cases "n = 0 \<or> length xs < n")
    case True
    then show ?thesis using "1.prems" as_chunks.simps [of n xs] by simp
  next
    case False
    from as_chunks_step [OF False "1.prems"]
    obtain ds where "as_chunks n (drop n xs) = (ds, t)" "cs = take n xs # ds" .
    then show ?thesis using "1.IH" [OF False] by simp
  qed
qed

lemma as_chunks_lengths:
  "as_chunks n xs = (cs, t) \<Longrightarrow> 0 < n \<Longrightarrow> (\<forall>c\<in>set cs. length c = n) \<and> length t < n"
proof (induction n xs arbitrary: cs t rule: as_chunks.induct)
  case (1 n xs)
  show ?case
  proof (cases "length xs < n")
    case True
    then show ?thesis using "1.prems" as_chunks.simps [of n xs] by simp
  next
    case False
    then have long: "\<not> (n = 0 \<or> length xs < n)" using "1.prems" by simp
    from as_chunks_step [OF long "1.prems"(1)]
    obtain ds where ds: "as_chunks n (drop n xs) = (ds, t)" "cs = take n xs # ds" .
    from "1.IH" [OF long ds(1) "1.prems"(2)] show ?thesis using False ds(2) by simp
  qed
qed

lemma as_chunks_concat_append:
  "\<forall>c\<in>set cs. length c = n \<Longrightarrow> 0 < n \<Longrightarrow>
   as_chunks n (concat cs @ ys) = (case as_chunks n ys of (ds, t) \<Rightarrow> (cs @ ds, t))"
  by (induction cs) (auto simp: as_chunks_append split: prod.splits)

lemma length_as_chunks: "0 < n \<Longrightarrow> length (fst (as_chunks n xs)) = length xs div n"
proof (induction n xs rule: as_chunks.induct)
  case (1 n xs)
  show ?case
  proof (cases "length xs < n")
    case True
    then show ?thesis by (simp add: as_chunks_short)
  next
    case False
    then have long: "\<not> (n = 0 \<or> length xs < n)" using "1.prems" by simp
    have "fst (as_chunks n xs) = take n xs # fst (as_chunks n (drop n xs))"
      using long as_chunks.simps [of n xs] by (simp split: prod.splits)
    then show ?thesis using "1.IH" [OF long] "1.prems" False by (simp add: le_div_geq)
  qed
qed

lemma nth_as_chunks:
  "0 < n \<Longrightarrow> i < length xs div n \<Longrightarrow> fst (as_chunks n xs) ! i = slice (n * i) (n * i + n) xs"
proof (induction n xs arbitrary: i rule: as_chunks.induct)
  case (1 n xs)
  then have long: "\<not> (n = 0 \<or> length xs < n)" by (auto simp: div_less)
  have step: "fst (as_chunks n xs) = take n xs # fst (as_chunks n (drop n xs))"
    using long as_chunks.simps [of n xs] by (simp split: prod.splits)
  show ?case
  proof (cases i)
    case 0
    then show ?thesis using step by (simp add: slice_def)
  next
    case (Suc j)
    have "j < length (drop n xs) div n" using Suc "1.prems" long by (simp add: le_div_geq)
    then show ?thesis
      using "1.IH" [OF long "1.prems"(1)] step Suc by (simp add: slice_def add.commute)
  qed
qed

subsection \<open>Rounding to blocks\<close>

definition div_ceil :: "nat \<Rightarrow> nat \<Rightarrow> nat" where
  "div_ceil a b = a div b + (if a mod b = 0 then 0 else 1)"

lemma div_ceil_bounds:
  assumes "0 < b"
  shows "a \<le> div_ceil a b * b" "div_ceil a b * b < a + b"
proof -
  obtain q r where q: "a div b = q" "a mod b = r" by blast
  then have "b * q + r = a" using mult_div_mod_eq [of b a] by simp
  moreover have "r < b" using assms q by auto
  ultimately show "a \<le> div_ceil a b * b" "div_ceil a b * b < a + b"
    by (auto simp: div_ceil_def q algebra_simps)
qed

lemma div_ceil_pos: "0 < a \<Longrightarrow> 0 < b \<Longrightarrow> 0 < div_ceil a b"
  by (auto simp: div_ceil_def div_greater_zero_iff)

end
