(* ===== verification/Sha256.thy ===== *)
theory Sha256
  imports Bytes
begin

text \<open>
  SHA-256, from \<open>src/hash/src/lib.rs\<close>: the one-shot function, the streaming state with its block
  buffer, and the compression of one block. The streaming interface is proved equal to the
  standard's definition: pad the whole message, cut it into blocks, compress them in turn, with the
  message schedule as the standard's recurrence.
\<close>

definition BLOCK_BYTES :: nat where
  "BLOCK_BYTES = 64"

definition LENGTH_OFFSET :: nat where
  "LENGTH_OFFSET = BLOCK_BYTES - 8"

(* The round constants, row by row as the source spells them:
     0x428a_2f98 0x7137_4491 0xb5c0_fbcf 0xe9b5_dba5
     0x3956_c25b 0x59f1_11f1 0x923f_82a4 0xab1c_5ed5
     0xd807_aa98 0x1283_5b01 0x2431_85be 0x550c_7dc3
     0x72be_5d74 0x80de_b1fe 0x9bdc_06a7 0xc19b_f174
     0xe49b_69c1 0xefbe_4786 0x0fc1_9dc6 0x240c_a1cc
     0x2de9_2c6f 0x4a74_84aa 0x5cb0_a9dc 0x76f9_88da
     0x983e_5152 0xa831_c66d 0xb003_27c8 0xbf59_7fc7
     0xc6e0_0bf3 0xd5a7_9147 0x06ca_6351 0x1429_2967
     0x27b7_0a85 0x2e1b_2138 0x4d2c_6dfc 0x5338_0d13
     0x650a_7354 0x766a_0abb 0x81c2_c92e 0x9272_2c85
     0xa2bf_e8a1 0xa81a_664b 0xc24b_8b70 0xc76c_51a3
     0xd192_e819 0xd699_0624 0xf40e_3585 0x106a_a070
     0x19a4_c116 0x1e37_6c08 0x2748_774c 0x34b0_bcb5
     0x391c_0cb3 0x4ed8_aa4a 0x5b9c_ca4f 0x682e_6ff3
     0x748f_82ee 0x78a5_636f 0x84c8_7814 0x8cc7_0208
     0x90be_fffa 0xa450_6ceb 0xbef9_a3f7 0xc671_78f2 *)
definition sha_K :: "u32 list" where
  "sha_K =
    [1116352408, 1899447441, 3049323471, 3921009573,
     961987163, 1508970993, 2453635748, 2870763221,
     3624381080, 310598401, 607225278, 1426881987,
     1925078388, 2162078206, 2614888103, 3248222580,
     3835390401, 4022224774, 264347078, 604807628,
     770255983, 1249150122, 1555081692, 1996064986,
     2554220882, 2821834349, 2952996808, 3210313671,
     3336571891, 3584528711, 113926993, 338241895,
     666307205, 773529912, 1294757372, 1396182291,
     1695183700, 1986661051, 2177026350, 2456956037,
     2730485921, 2820302411, 3259730800, 3345764771,
     3516065817, 3600352804, 4094571909, 275423344,
     430227734, 506948616, 659060556, 883997877,
     958139571, 1322822218, 1537002063, 1747873779,
     1955562222, 2024104815, 2227730452, 2361852424,
     2428436474, 2756734187, 3204031479, 3329325298]"

definition sha_H0 :: "u32 list" where
  "sha_H0 =
    [0x6a09e667, 0xbb67ae85, 0x3c6ef372, 0xa54ff53a, 0x510e527f, 0x9b05688c,
     0x1f83d9ab, 0x5be0cd19]"

subsection \<open>The constants\<close>

text \<open>
  The standard takes its constants from the first primes: the round constants are the first 32 bits
  of the fractional parts of the cube roots of the first 64, the initial state those of the square
  roots of the first 8. The words of the source are these: with the integer part of the root put
  back, the root lies between the fixed-point number and the next one.
\<close>

definition first_primes :: "int list" where
  "first_primes =
     [2, 3, 5, 7, 11, 13, 17, 19, 23, 29, 31, 37, 41, 43, 47, 53, 59, 61, 67, 71, 73, 79, 83, 89, 97,
      101, 103, 107, 109, 113, 127, 131, 137, 139, 149, 151, 157, 163, 167, 173, 179, 181, 191, 193, 197, 199,
      211, 223, 227, 229, 233, 239, 241, 251, 257, 263, 269, 271, 277, 281, 283, 293, 307, 311]"

definition root_bits :: "nat \<Rightarrow> int \<Rightarrow> u32 \<Rightarrow> bool" where
  "root_bits n p w \<longleftrightarrow>
     list_ex (\<lambda>whole. let r = whole * 4294967296 + uint w in r ^ n \<le> p * 4294967296 ^ n \<and> p * 4294967296 ^ n < (r + 1) ^ n)
       [1, 2, 3, 4, 5, 6]"

lemma sha_constants:
  "list_all2 (root_bits 3) first_primes sha_K \<and> list_all2 (root_bits 2) (take 8 first_primes) sha_H0"
  by code_simp

subsection \<open>Compression\<close>

definition schedule_step :: "nat \<Rightarrow> u32 list \<Rightarrow> u32 list" where
  "schedule_step i w =
     (let s0 = word_rotr 7 (w ! (i - 15)) XOR word_rotr 18 (w ! (i - 15)) XOR drop_bit 3 (w ! (i - 15));
          s1 = word_rotr 17 (w ! (i - 2)) XOR word_rotr 19 (w ! (i - 2)) XOR drop_bit 10 (w ! (i - 2))
      in w[i := w ! (i - 16) + s0 + w ! (i - 7) + s1])"

type_synonym registers = "u32 \<times> u32 \<times> u32 \<times> u32 \<times> u32 \<times> u32 \<times> u32 \<times> u32"

definition round_step :: "u32 list \<Rightarrow> nat \<Rightarrow> registers \<Rightarrow> registers" where
  "round_step w i = (\<lambda>(a, b, c, d, e, f, g, hh).
     let s1 = word_rotr 6 e XOR word_rotr 11 e XOR word_rotr 25 e;
         ch = (e AND f) XOR (NOT e AND g);
         t1 = hh + s1 + ch + sha_K ! i + w ! i;
         s0 = word_rotr 2 a XOR word_rotr 13 a XOR word_rotr 22 a;
         maj = (a AND b) XOR (a AND c) XOR (b AND c);
         t2 = s0 + maj
     in (t1 + t2, a, b, c, d + t1, e, f, g))"

definition compress :: "u8 list \<Rightarrow> u32 list \<Rightarrow> u32 list" where
  "compress block state =
     (let w = put_at 0 (map from_be_bytes (fst (as_chunks 4 block))) (replicate 64 0);
          w = fold schedule_step [16..<64] w
      in case fold (round_step w) [0..<64]
                (state ! 0, state ! 1, state ! 2, state ! 3, state ! 4, state ! 5, state ! 6, state ! 7)
         of (a, b, c, d, e, f, g, hh) \<Rightarrow> map2 (+) state [a, b, c, d, e, f, g, hh])"

subsection \<open>Streaming\<close>

record Sha256 =
  sha_state :: "u32 list"
  sha_block :: "u8 list"
  sha_buffered :: nat
  sha_length_bytes :: u64

definition Sha256_new :: Sha256 where
  "Sha256_new = \<lparr>sha_state = sha_H0, sha_block = replicate BLOCK_BYTES 0, sha_buffered = 0,
     sha_length_bytes = 0\<rparr>"

definition Sha256_absorb :: "u8 list \<Rightarrow> Sha256 \<Rightarrow> Sha256" where
  "Sha256_absorb rest s =
     (case as_chunks BLOCK_BYTES rest of
        (blocks, tail) \<Rightarrow>
          s\<lparr>sha_state := fold compress blocks (sha_state s),
            sha_block := put_at 0 tail (sha_block s), sha_buffered := length tail\<rparr>)"

definition Sha256_update :: "u8 list \<Rightarrow> Sha256 \<Rightarrow> Sha256" where
  "Sha256_update bytes s =
     (let s = s\<lparr>sha_length_bytes := sha_length_bytes s + of_nat (length bytes)\<rparr> in
      if sha_buffered s > 0 then
        let want = BLOCK_BYTES - sha_buffered s;
            n = min want (length bytes);
            s = s\<lparr>sha_block := put_at (sha_buffered s) (take n bytes) (sha_block s),
                  sha_buffered := sha_buffered s + n\<rparr>
        in if sha_buffered s = BLOCK_BYTES
           then Sha256_absorb (drop n bytes)
                  (s\<lparr>sha_state := compress (sha_block s) (sha_state s), sha_buffered := 0\<rparr>)
           else s
      else Sha256_absorb bytes s)"

definition Sha256_finish :: "Sha256 \<Rightarrow> u8 list" where
  "Sha256_finish s =
     (let bits = sha_length_bytes s * 8;
          block = take (sha_buffered s) (sha_block s) @ replicate (BLOCK_BYTES - sha_buffered s) 0;
          block = block[sha_buffered s := 0x80];
          buffered = sha_buffered s + 1;
          (state, block) = (if buffered > LENGTH_OFFSET
                            then (compress block (sha_state s), replicate BLOCK_BYTES 0)
                            else (sha_state s, block));
          block = put_at LENGTH_OFFSET (to_be_bytes 8 bits) block
      in concat (map (to_be_bytes 4) (compress block state)))"

definition sha256 :: "u8 list \<Rightarrow> u8 list" where
  "sha256 bytes = Sha256_finish (Sha256_update bytes Sha256_new)"

subsection \<open>The standard\<close>

text \<open>
  The functions of FIPS 180-4 under their names there: \<open>Ch\<close>, \<open>Maj\<close>, the four sigmas, the recurrence of
  the message schedule, the padding of section 5.1.1.
\<close>

definition Ch :: "u32 \<Rightarrow> u32 \<Rightarrow> u32 \<Rightarrow> u32" where
  "Ch x y z = (x AND y) XOR (NOT x AND z)"

definition Maj :: "u32 \<Rightarrow> u32 \<Rightarrow> u32 \<Rightarrow> u32" where
  "Maj x y z = (x AND y) XOR (x AND z) XOR (y AND z)"

definition Sigma0 :: "u32 \<Rightarrow> u32" where
  "Sigma0 x = word_rotr 2 x XOR word_rotr 13 x XOR word_rotr 22 x"

definition Sigma1 :: "u32 \<Rightarrow> u32" where
  "Sigma1 x = word_rotr 6 x XOR word_rotr 11 x XOR word_rotr 25 x"

definition sigma0 :: "u32 \<Rightarrow> u32" where
  "sigma0 x = word_rotr 7 x XOR word_rotr 18 x XOR drop_bit 3 x"

definition sigma1 :: "u32 \<Rightarrow> u32" where
  "sigma1 x = word_rotr 17 x XOR word_rotr 19 x XOR drop_bit 10 x"

fun message_schedule :: "u8 list \<Rightarrow> nat \<Rightarrow> u32" where
  "message_schedule block t =
     (if t < 16 then from_be_bytes (slice (4 * t) (4 * t + 4) block)
      else sigma1 (message_schedule block (t - 2)) + message_schedule block (t - 7)
        + sigma0 (message_schedule block (t - 15)) + message_schedule block (t - 16))"

declare message_schedule.simps [simp del]

fun standard_rounds :: "u8 list \<Rightarrow> nat \<Rightarrow> registers \<Rightarrow> registers" where
  "standard_rounds block 0 r = r"
| "standard_rounds block (Suc t) r =
     (case standard_rounds block t r of
        (a, b, c, d, e, f, g, h) \<Rightarrow>
          let T1 = h + Sigma1 e + Ch e f g + sha_K ! t + message_schedule block t;
              T2 = Sigma0 a + Maj a b c
          in (T1 + T2, a, b, c, d + T1, e, f, g))"

definition standard_compress :: "u8 list \<Rightarrow> u32 list \<Rightarrow> u32 list" where
  "standard_compress block H =
     (case standard_rounds block 64 (H ! 0, H ! 1, H ! 2, H ! 3, H ! 4, H ! 5, H ! 6, H ! 7) of
        (a, b, c, d, e, f, g, h) \<Rightarrow>
          [a + H ! 0, b + H ! 1, c + H ! 2, d + H ! 3, e + H ! 4, f + H ! 5, g + H ! 6, h + H ! 7])"

definition standard_pad :: "u8 list \<Rightarrow> u8 list" where
  "standard_pad msg =
     msg @ [0x80] @ replicate ((119 - length msg mod 64) mod 64) 0
         @ to_be_bytes 8 (of_nat (8 * length msg) :: u64)"

definition standard_sha256 :: "u8 list \<Rightarrow> u8 list" where
  "standard_sha256 msg =
     concat (map (to_be_bytes 4) (fold standard_compress (fst (as_chunks 64 (standard_pad msg))) sha_H0))"

subsection \<open>Compression meets the standard\<close>

lemma schedule_step_nth:
  assumes "length w = 64" "16 \<le> i" "i < 64"
  shows "schedule_step i w ! i = sigma1 (w ! (i - 2)) + w ! (i - 7) + sigma0 (w ! (i - 15)) + w ! (i - 16)"
    and "j \<noteq> i \<Longrightarrow> schedule_step i w ! j = w ! j"
    and "length (schedule_step i w) = 64"
  using assms by (simp_all add: schedule_step_def Let_def sigma0_def sigma1_def add_ac)

lemma schedule_start:
  assumes "length block = 64" "t < 16"
  shows "put_at 0 (map from_be_bytes (fst (as_chunks 4 block))) (replicate 64 0) ! t
    = message_schedule block t"
  using assms by (simp add: message_schedule.simps nth_append length_as_chunks nth_as_chunks)

lemma schedule_filled:
  assumes "length block = 64" "16 \<le> n" "n \<le> 64"
  defines "w0 \<equiv> put_at 0 (map from_be_bytes (fst (as_chunks 4 block))) (replicate 64 0)"
  shows "length (fold schedule_step [16..<n] w0) = 64
    \<and> (\<forall>t<n. fold schedule_step [16..<n] w0 ! t = message_schedule block t)"
  using assms(2,3)
proof (induction n rule: nat_induct_at_least)
  case base
  show ?case using assms(1) schedule_start by (simp add: w0_def length_as_chunks)
next
  case (Suc n)
  let ?w = "fold schedule_step [16..<n] w0"
  have w: "length ?w = 64" "\<And>t. t < n \<Longrightarrow> ?w ! t = message_schedule block t"
    using Suc by simp_all
  have step: "fold schedule_step [16..<Suc n] w0 = schedule_step n ?w" using Suc.hyps by simp
  have bounds: "16 \<le> n" "n < 64" using Suc by simp_all
  have new: "schedule_step n ?w ! n = message_schedule block n"
    using schedule_step_nth(1) [OF w(1) bounds] bounds w(2)
    by (simp add: message_schedule.simps [of block n])
  show ?case unfolding step
    using schedule_step_nth(2,3) [OF w(1) bounds] w(2) new by (auto simp: less_Suc_eq)
qed

lemma registers_cases:
  obtains a b c d e f g h where "r = ((a, b, c, d, e, f, g, h) :: registers)"
  by (cases r) auto

lemma rounds_standard:
  assumes "n \<le> 64" "\<And>t. t < 64 \<Longrightarrow> w ! t = message_schedule block t"
  shows "fold (round_step w) [0..<n] r = standard_rounds block n r"
  using assms(1)
proof (induction n)
  case (Suc n)
  then have IH: "fold (round_step w) [0..<n] r = standard_rounds block n r" and "n < 64" by simp_all
  obtain a b c d e f g h where r: "standard_rounds block n r = (a, b, c, d, e, f, g, h)"
    by (rule registers_cases)
  have "fold (round_step w) [0..<Suc n] r = round_step w n (a, b, c, d, e, f, g, h)"
    using IH r by simp
  also have "\<dots> = standard_rounds block (Suc n) r"
    using r assms(2) [OF \<open>n < 64\<close>]
    by (simp add: round_step_def Ch_def Maj_def Sigma0_def Sigma1_def)
  finally show ?case .
qed simp

lemma eight_elements: "length xs = 8 \<Longrightarrow> xs = [xs ! 0, xs ! 1, xs ! 2, xs ! 3, xs ! 4, xs ! 5, xs ! 6, xs ! 7]"
  by (auto simp: numeral_eq_Suc length_Suc_conv)

lemma compress_standard:
  assumes "length block = 64" "length H = 8"
  shows "compress block H = standard_compress block H" "length (compress block H) = 8"
proof -
  define w where "w = fold schedule_step [16..<64]
    (put_at 0 (map from_be_bytes (fst (as_chunks 4 block))) (replicate 64 0))"
  have "\<And>t. t < 64 \<Longrightarrow> w ! t = message_schedule block t"
    using schedule_filled [OF assms(1), of 64] by (simp add: w_def)
  then have rounds: "fold (round_step w) [0..<64] r = standard_rounds block 64 r" for r
    by (intro rounds_standard) simp_all
  obtain a b c d e f g h where r: "standard_rounds block 64
      (H ! 0, H ! 1, H ! 2, H ! 3, H ! 4, H ! 5, H ! 6, H ! 7) = (a, b, c, d, e, f, g, h)"
    by (rule registers_cases)
  have "compress block H = map2 (+) H [a, b, c, d, e, f, g, h]"
    unfolding compress_def Let_def w_def [symmetric] rounds r by simp
  moreover have "map2 (+) H [a, b, c, d, e, f, g, h] = [H ! 0 + a, H ! 1 + b, H ! 2 + c, H ! 3 + d,
      H ! 4 + e, H ! 5 + f, H ! 6 + g, H ! 7 + h]"
    by (subst eight_elements [OF assms(2)]) simp
  ultimately show "compress block H = standard_compress block H" "length (compress block H) = 8"
    unfolding standard_compress_def r by (simp_all add: add.commute)
qed

lemma fold_compress_standard:
  "\<forall>b\<in>set bs. length b = 64 \<Longrightarrow> length H = 8 \<Longrightarrow>
   fold compress bs H = fold standard_compress bs H \<and> length (fold standard_compress bs H) = 8"
proof (induction bs arbitrary: H)
  case (Cons b bs)
  then have b: "length b = 64" "length H = 8" by simp_all
  show ?case using Cons.IH [OF _ compress_standard(2) [OF b]] Cons.prems(1) compress_standard(1) [OF b] by simp
qed simp

subsection \<open>Streaming meets the standard\<close>

text \<open>What a state that has absorbed a message holds, however the message was cut.\<close>

definition absorbed :: "u8 list \<Rightarrow> Sha256 \<Rightarrow> bool" where
  "absorbed msg s \<longleftrightarrow>
     (case as_chunks 64 msg of (bs, t) \<Rightarrow>
        sha_state s = fold compress bs sha_H0 \<and> sha_buffered s = length t
        \<and> take (length t) (sha_block s) = t)
     \<and> length (sha_block s) = 64 \<and> sha_length_bytes s = of_nat (length msg)"

lemma absorbed_new: "absorbed [] Sha256_new"
  by (simp add: absorbed_def Sha256_new_def as_chunks_short BLOCK_BYTES_def)

lemma absorb_whole:
  assumes "as_chunks 64 msg = (bs, [])" "sha_state s = fold compress bs sha_H0"
    "length (sha_block s) = 64" "sha_length_bytes s = of_nat (length (msg @ rest))"
  shows "absorbed (msg @ rest) (Sha256_absorb rest s)"
proof -
  obtain ds u where ds: "as_chunks 64 rest = (ds, u)" by fastforce
  have msg: "concat bs = msg" using as_chunks_concat [OF assms(1)] by simp
  have "as_chunks 64 (concat bs @ rest) = (bs @ ds, u)"
    using as_chunks_concat_append [of bs 64 rest] as_chunks_lengths [OF assms(1)] ds by simp
  moreover have "length u < 64" using as_chunks_lengths [OF ds] by simp
  ultimately show ?thesis
    using assms(2,3,4) by (simp add: absorbed_def Sha256_absorb_def BLOCK_BYTES_def ds msg)
qed

lemma update_absorbs:
  assumes "absorbed msg s"
  shows "absorbed (msg @ bytes) (Sha256_update bytes s)"
proof -
  obtain bs t where bs: "as_chunks 64 msg = (bs, t)" by fastforce
  have s: "sha_state s = fold compress bs sha_H0" "sha_buffered s = length t"
      "take (length t) (sha_block s) = t" "length (sha_block s) = 64"
      "sha_length_bytes s = of_nat (length msg)"
    using assms bs by (simp_all add: absorbed_def)
  have t: "length t < 64" and lens: "\<forall>b\<in>set bs. length b = 64"
    using as_chunks_lengths [OF bs] by simp_all
  have msg: "msg = concat bs @ t" using as_chunks_concat [OF bs] by simp
  have sum: "sha_length_bytes s + of_nat (length bytes) = of_nat (length (msg @ bytes))"
    using s(5) by simp
  consider (none) "t = []" | (short) "t \<noteq> []" "length (t @ bytes) < 64"
    | (whole) "t \<noteq> []" "64 \<le> length (t @ bytes)" by linarith
  then show ?thesis
  proof cases
    case none
    then show ?thesis
      using absorb_whole [of msg bs "s\<lparr>sha_length_bytes := sha_length_bytes s + of_nat (length bytes)\<rparr>"]
        bs s sum by (simp add: Sha256_update_def Let_def)
  next
    case short
    then have "as_chunks 64 (msg @ bytes) = (bs, t @ bytes)"
      using as_chunks_concat_append [OF lens, of "t @ bytes"] msg by (simp add: as_chunks_short)
    then show ?thesis
      using short s t sum take_put_at_end [of "length t" "sha_block s" bytes]
      by (simp add: absorbed_def Sha256_update_def Let_def BLOCK_BYTES_def)
  next
    case whole
    define n where "n = 64 - length t"
    let ?b = "t @ take n bytes"
    have n: "n \<le> length bytes" "length ?b = 64" using whole t by (simp_all add: n_def)
    have "as_chunks 64 (msg @ take n bytes) = (bs @ [?b], [])"
      using as_chunks_concat_append [OF lens, of ?b] as_chunks_append [of ?b 64 "[]"] n msg
      by (simp add: as_chunks_short)
    moreover have "put_at (length t) (take n bytes) (sha_block s) = ?b"
      using s n t by (simp add: put_at_def)
    moreover have "min n (length bytes) = n" using n by simp
    ultimately show ?thesis
      using absorb_whole [of "msg @ take n bytes" "bs @ [?b]"
          "s\<lparr>sha_length_bytes := sha_length_bytes s + of_nat (length bytes), sha_block := ?b,
             sha_state := compress ?b (sha_state s), sha_buffered := 0\<rparr>" "drop n bytes"] s n t whole sum
      by (simp add: Sha256_update_def Let_def BLOCK_BYTES_def n_def [symmetric])
  qed
qed

lemma updates_absorb: "absorbed msg s \<Longrightarrow> absorbed (msg @ concat pieces) (fold Sha256_update pieces s)"
proof (induction pieces arbitrary: msg s)
  case (Cons p pieces)
  show ?case using Cons.IH [OF update_absorbs [OF Cons.prems, of p]] by simp
qed simp

lemma standard_pad_chunks:
  assumes "as_chunks 64 msg = (bs, t)"
  defines "len \<equiv> to_be_bytes 8 (of_nat (8 * length msg) :: u64)"
  shows "fst (as_chunks 64 (standard_pad msg)) =
    (if length t < 56 then bs @ [t @ [0x80] @ replicate (55 - length t) 0 @ len]
     else bs @ [t @ [0x80] @ replicate (63 - length t) 0, replicate 56 0 @ len])"
proof -
  have t: "length t < 64" and lens: "\<forall>b\<in>set bs. length b = 64"
    using as_chunks_lengths [OF assms(1)] by simp_all
  have "length (concat bs) = 64 * length bs" using lens by (induction bs) simp_all
  then have len_mod: "length msg mod 64 = length t"
    using as_chunks_concat [OF assms(1)] t by (metis length_append mod_less mod_mult_self4)
  have pad: "standard_pad msg = concat bs @ (t @ [0x80] @ replicate ((119 - length t) mod 64) 0 @ len)"
    using as_chunks_concat [OF assms(1)] by (simp add: standard_pad_def len_mod len_def)
  have one: "as_chunks 64 b = ([b], [])" if "length b = 64" for b :: "u8 list"
    using as_chunks_append [of b 64 "[]"] that by (simp add: as_chunks_short)
  show ?thesis
  proof (cases "length t < 56")
    case True
    then have "(119 - length t) mod 64 = 55 - length t" by (simp add: le_mod_geq)
    then show ?thesis
      using True pad as_chunks_concat_append [OF lens] by (simp add: one len_def)
  next
    case False
    then have "(119 - length t) mod 64 = (63 - length t) + 56" using t by simp
    then have "replicate ((119 - length t) mod 64) (0 :: u8) = replicate (63 - length t) 0 @ replicate 56 0"
      unfolding replicate_add [symmetric] by (rule arg_cong)
    then have "standard_pad msg = concat (bs @ [t @ [0x80] @ replicate (63 - length t) 0]) @ (replicate 56 0 @ len)"
      unfolding pad by simp
    moreover have "\<forall>b\<in>set (bs @ [t @ [0x80] @ replicate (63 - length t) 0]). length b = 64"
      using lens t by simp
    moreover have "as_chunks 64 (replicate 56 0 @ len) = ([replicate 56 0 @ len], [])"
      by (rule one) (simp add: len_def)
    ultimately have "as_chunks 64 (standard_pad msg) =
        ((bs @ [t @ [0x80] @ replicate (63 - length t) 0]) @ [replicate 56 0 @ len], [])"
      by (simp only: as_chunks_concat_append prod.case)
    then show ?thesis using False by simp
  qed
qed

lemma finish_block:
  assumes "length t < 64" "take (length t) block = t"
  shows "(take (length t) block @ replicate (64 - length t) 0)[length t := 0x80]
    = t @ [0x80 :: u8] @ replicate (63 - length t) 0"
proof -
  have "64 - length t = Suc (63 - length t)" using assms(1) by simp
  then show ?thesis by (simp add: assms(2) list_update_append)
qed

lemma finish_standard:
  assumes "absorbed msg s"
  shows "Sha256_finish s = standard_sha256 msg"
proof -
  obtain bs t where bs: "as_chunks 64 msg = (bs, t)" by fastforce
  have s: "sha_state s = fold compress bs sha_H0" "sha_buffered s = length t"
      "take (length t) (sha_block s) = t" "sha_length_bytes s = of_nat (length msg)"
    using assms bs by (simp_all add: absorbed_def)
  have t: "length t < 64" using as_chunks_lengths [OF bs] by simp
  define len where "len = to_be_bytes 8 (of_nat (8 * length msg) :: u64)"
  have len: "to_be_bytes 8 (sha_length_bytes s * 8) = len" "length len = 8"
    using s(4) by (simp_all add: len_def mult.commute)
  have H: "length sha_H0 = 8" by (simp add: sha_H0_def)
  have pad: "\<forall>b\<in>set (fst (as_chunks 64 (standard_pad msg))). length b = 64"
    using as_chunks_lengths [of 64 "standard_pad msg"] by (metis prod.collapse zero_less_numeral)
  note chunks = standard_pad_chunks [OF bs, folded len_def]
  have "Sha256_finish s = concat (map (to_be_bytes 4)
      (fold compress (fst (as_chunks 64 (standard_pad msg))) sha_H0))"
  proof (cases "length t < 56")
    case True
    then have "63 - length t = 55 - length t + 8" "56 - length t = Suc (55 - length t)" by simp_all
    then have "put_at 56 len (t @ [0x80] @ replicate (63 - length t) 0)
        = t @ [0x80] @ replicate (55 - length t) 0 @ len"
      using True len(2) by (simp only: replicate_add) (simp add: put_at_def)
    then show ?thesis
      using True s(1,2) len(1) chunks finish_block [OF t s(3)]
      by (simp add: Sha256_finish_def Let_def BLOCK_BYTES_def LENGTH_OFFSET_def)
  next
    case False
    have "put_at 56 len (replicate 64 0) = replicate 56 0 @ len"
      using len(2) by (simp add: put_at_def)
    then show ?thesis
      using False s(1,2) len(1) chunks finish_block [OF t s(3)]
      by (simp add: Sha256_finish_def Let_def BLOCK_BYTES_def LENGTH_OFFSET_def)
  qed
  then show ?thesis
    using fold_compress_standard [OF pad H] by (simp add: standard_sha256_def)
qed

lemma sha256_standard: "sha256 msg = standard_sha256 msg"
  unfolding sha256_def using finish_standard [OF update_absorbs [OF absorbed_new]] by simp

lemma length_sha256 [simp]: "length (sha256 msg) = 32"
proof -
  obtain cs t where cs: "as_chunks 64 (standard_pad msg) = (cs, t)" by fastforce
  have "length (fold standard_compress cs sha_H0) = 8"
    using fold_compress_standard [of cs sha_H0] as_chunks_lengths [OF cs] by (simp add: sha_H0_def)
  moreover have "length (concat (map (to_be_bytes 4) ws)) = 4 * length ws" for ws :: "u32 list"
    by (induction ws) simp_all
  ultimately show ?thesis
    by (simp add: sha256_standard standard_sha256_def cs)
qed

text \<open>
  C37: however a message is cut into pieces and fed to the streaming state, the digest is the one the
  SHA-256 standard defines for the whole message: padded, cut into blocks, each compressed with the
  recurrent message schedule. The one-shot \<open>sha256\<close> is the case of one piece.
\<close>

theorem sha256_streams:
  "Sha256_finish (fold Sha256_update pieces Sha256_new) = standard_sha256 (concat pieces)
   \<and> sha256 (concat pieces) = standard_sha256 (concat pieces)"
  using finish_standard [OF updates_absorb [OF absorbed_new, of pieces]] sha256_standard by simp

end
