(* ===== verification/Store_Format.thy ===== *)
theory Store_Format
  imports Abi_Cap Bytes
begin

text \<open>
  The records a store keeps on its device, from \<open>src/abi/src/store.rs\<close>: the superblock, a blob's
  header, the heads of objects and extents, the root record, and the nodes of a generation. Each
  has an encoder that fills a fixed array field by field and a decoder that refuses what this build
  would not have written. An array is a list of its length.
\<close>

subsection \<open>Refusals and kinds\<close>

definition code_SHORT_BUFFER :: u16 where "code_SHORT_BUFFER = 9"
definition code_CONTENT_MISMATCH :: u16 where "code_CONTENT_MISMATCH = 1"

definition refusal_MALFORMED :: i32 where
  "refusal_MALFORMED = error_pack error_ARGUMENT argument_MALFORMED_HEADER"

definition refusal_UNKNOWN :: i32 where
  "refusal_UNKNOWN = error_pack error_ARGUMENT argument_UNKNOWN_FLAG"

definition refusal_ADDRESS :: i32 where
  "refusal_ADDRESS = error_pack error_ARGUMENT argument_BAD_ADDRESS"

definition refusal_FULL :: i32 where
  "refusal_FULL = error_pack error_RESOURCE resource_DEVICE_FULL"

definition refusal_SHORT_BUFFER :: i32 where
  "refusal_SHORT_BUFFER = error_pack error_ARGUMENT code_SHORT_BUFFER"

definition refusal_CONTENT :: i32 where
  "refusal_CONTENT = error_pack error_DEVICE code_CONTENT_MISMATCH"

definition kind_CHUNK :: u16 where "kind_CHUNK = 1"
definition kind_OBJECT :: u16 where "kind_OBJECT = 2"
definition kind_EXTENT :: u16 where "kind_EXTENT = 3"
definition kind_GENERATION :: u16 where "kind_GENERATION = 4"

definition kind_known :: "u16 \<Rightarrow> bool" where
  "kind_known value \<longleftrightarrow> value \<in> {kind_CHUNK, kind_OBJECT, kind_EXTENT, kind_GENERATION}"

lemmas kind_consts = kind_CHUNK_def kind_OBJECT_def kind_EXTENT_def kind_GENERATION_def

text \<open>The refusals are told apart by their values.\<close>

lemma refusals_distinct:
  "distinct [refusal_MALFORMED, refusal_UNKNOWN, refusal_ADDRESS, refusal_FULL, refusal_SHORT_BUFFER,
     refusal_CONTENT]"
  by code_simp

subsection \<open>Reading and writing fields\<close>

definition write_fields :: "(nat \<times> u8 list) list \<Rightarrow> u8 list \<Rightarrow> u8 list" where
  "write_fields fs out = fold (\<lambda>(at, bytes). put_at at bytes) fs out"

definition store_short :: "u8 list \<Rightarrow> nat \<Rightarrow> u16" where
  "store_short raw at = from_le_bytes [raw ! at, raw ! (at + 1)]"

definition store_word :: "u8 list \<Rightarrow> nat \<Rightarrow> u32" where
  "store_word raw at = from_le_bytes [raw ! at, raw ! (at + 1), raw ! (at + 2), raw ! (at + 3)]"

definition store_long :: "u8 list \<Rightarrow> nat \<Rightarrow> u64" where
  "store_long raw at = from_le_bytes (slice at (at + 8) raw)"

definition store_digest :: "u8 list \<Rightarrow> nat \<Rightarrow> u8 list" where
  "store_digest raw at = slice at (at + 32) raw"

definition prologue :: "u8 list \<Rightarrow> u32 \<Rightarrow> nat \<Rightarrow> i32 + unit" where
  "prologue raw magic bytes =
     (if length raw < 8 \<or> store_word raw 0 \<noteq> magic \<or> unat (store_word raw 4) \<noteq> bytes
      then Inl refusal_MALFORMED else Inr ())"

subsection \<open>The superblock\<close>

definition SUPERBLOCK_MAGIC :: u32 where "SUPERBLOCK_MAGIC = 0x42535f46"
definition BLOB_MAGIC :: u32 where "BLOB_MAGIC = 0x48425f46"
definition ROOT_MAGIC :: u32 where "ROOT_MAGIC = 0x52525f46"
definition SCHEMA :: u32 where "SCHEMA = 1"

record Superblock =
  sb_schema :: u32
  sb_block_bytes :: u32
  sb_zones :: u32
  sb_root_zone_a :: u32
  sb_root_zone_b :: u32
  sb_chunk_min_bytes :: u32
  sb_chunk_target_bytes :: u32
  sb_chunk_max_bytes :: u32
  sb_mask_bits :: u32
  sb_zone_bytes :: u64
  sb_gear_label :: u64
  sb_mask_label :: u64

definition Superblock_BYTES :: nat where "Superblock_BYTES = 68"

definition Superblock_to_bytes :: "Superblock \<Rightarrow> u8 list" where
  "Superblock_to_bytes s = write_fields
     [(0, to_le_bytes 4 SUPERBLOCK_MAGIC), (4, to_le_bytes 4 (of_nat Superblock_BYTES :: u32)),
      (8, to_le_bytes 4 (sb_schema s)), (12, to_le_bytes 4 (sb_block_bytes s)),
      (16, to_le_bytes 4 (sb_zones s)), (20, to_le_bytes 4 (sb_root_zone_a s)),
      (24, to_le_bytes 4 (sb_root_zone_b s)), (28, to_le_bytes 4 (sb_chunk_min_bytes s)),
      (32, to_le_bytes 4 (sb_chunk_target_bytes s)), (36, to_le_bytes 4 (sb_chunk_max_bytes s)),
      (40, to_le_bytes 4 (sb_mask_bits s)), (44, to_le_bytes 8 (sb_zone_bytes s)),
      (52, to_le_bytes 8 (sb_gear_label s)), (60, to_le_bytes 8 (sb_mask_label s))]
     (replicate Superblock_BYTES 0)"

definition Superblock_from_bytes :: "u8 list \<Rightarrow> i32 + Superblock" where
  "Superblock_from_bytes raw =
     and_then (prologue raw SUPERBLOCK_MAGIC Superblock_BYTES) (\<lambda>_.
       let schema = store_word raw 8 in
       if schema \<noteq> SCHEMA then Inl refusal_UNKNOWN
       else
         let block_bytes = store_word raw 12 in
         if block_bytes = 0 then Inl refusal_MALFORMED
         else Inr \<lparr>sb_schema = schema, sb_block_bytes = block_bytes, sb_zones = store_word raw 16,
           sb_root_zone_a = store_word raw 20, sb_root_zone_b = store_word raw 24,
           sb_chunk_min_bytes = store_word raw 28, sb_chunk_target_bytes = store_word raw 32,
           sb_chunk_max_bytes = store_word raw 36, sb_mask_bits = store_word raw 40,
           sb_zone_bytes = store_long raw 44, sb_gear_label = store_long raw 52,
           sb_mask_label = store_long raw 60\<rparr>)"

subsection \<open>A blob's header\<close>

record Header =
  hd_kind :: u16
  hd_flags :: u16
  hd_content_bytes :: u64
  hd_hash :: "u8 list"

definition Header_BYTES :: nat where "Header_BYTES = 52"

definition Header_to_bytes :: "Header \<Rightarrow> u8 list" where
  "Header_to_bytes h = write_fields
     [(0, to_le_bytes 4 BLOB_MAGIC), (4, to_le_bytes 4 (of_nat Header_BYTES :: u32)),
      (8, to_le_bytes 2 (hd_kind h)), (10, to_le_bytes 2 (hd_flags h)),
      (12, to_le_bytes 8 (hd_content_bytes h)), (20, hd_hash h)]
     (replicate Header_BYTES 0)"

definition Header_from_bytes :: "u8 list \<Rightarrow> i32 + Header" where
  "Header_from_bytes raw =
     and_then (prologue raw BLOB_MAGIC Header_BYTES) (\<lambda>_.
       let kind = store_short raw 8 in
       if \<not> kind_known kind then Inl refusal_UNKNOWN
       else
         let flags = store_short raw 10 in
         if flags \<noteq> 0 then Inl refusal_UNKNOWN
         else Inr \<lparr>hd_kind = kind, hd_flags = flags, hd_content_bytes = store_long raw 12,
           hd_hash = store_digest raw 20\<rparr>)"

subsection \<open>Heads of objects and extents\<close>

definition CHUNKS_MAX :: nat where "CHUNKS_MAX = 2 ^ 20"

record ObjectHead =
  oh_object_bytes :: u64
  oh_chunks :: u32

definition ObjectHead_HEAD_BYTES :: nat where "ObjectHead_HEAD_BYTES = 12"

definition ObjectHead_bytes :: "ObjectHead \<Rightarrow> nat" where
  "ObjectHead_bytes h = ObjectHead_HEAD_BYTES + unat (oh_chunks h) * 32"

definition ObjectHead_to_bytes :: "ObjectHead \<Rightarrow> u8 list" where
  "ObjectHead_to_bytes h = write_fields
     [(0, to_le_bytes 8 (oh_object_bytes h)), (8, to_le_bytes 4 (oh_chunks h))]
     (replicate ObjectHead_HEAD_BYTES 0)"

definition ObjectHead_from_bytes :: "u8 list \<Rightarrow> i32 + ObjectHead" where
  "ObjectHead_from_bytes raw =
     (let object_bytes = store_long raw 0; chunks = store_word raw 8 in
      if unat chunks > CHUNKS_MAX then Inl refusal_UNKNOWN
      else if (object_bytes = 0) \<noteq> (chunks = 0) then Inl refusal_MALFORMED
      else Inr \<lparr>oh_object_bytes = object_bytes, oh_chunks = chunks\<rparr>)"

definition PIECES_MAX :: nat where "PIECES_MAX = 2 ^ 20"

record ExtentHead =
  eh_extent_bytes :: u64
  eh_pieces :: u32

definition ExtentHead_HEAD_BYTES :: nat where "ExtentHead_HEAD_BYTES = 12"

definition ExtentHead_bytes :: "ExtentHead \<Rightarrow> nat" where
  "ExtentHead_bytes h = ExtentHead_HEAD_BYTES + unat (eh_pieces h) * 32"

definition ExtentHead_to_bytes :: "ExtentHead \<Rightarrow> u8 list" where
  "ExtentHead_to_bytes h = write_fields
     [(0, to_le_bytes 8 (eh_extent_bytes h)), (8, to_le_bytes 4 (eh_pieces h))]
     (replicate ExtentHead_HEAD_BYTES 0)"

definition ExtentHead_from_bytes :: "u8 list \<Rightarrow> i32 + ExtentHead" where
  "ExtentHead_from_bytes raw =
     (let extent_bytes = store_long raw 0; pieces = store_word raw 8 in
      if unat pieces > PIECES_MAX then Inl refusal_UNKNOWN
      else if (extent_bytes = 0) \<noteq> (pieces = 0) then Inl refusal_MALFORMED
      else Inr \<lparr>eh_extent_bytes = extent_bytes, eh_pieces = pieces\<rparr>)"

subsection \<open>The root record\<close>

record RootRecord =
  rr_generation :: u64
  rr_root :: "u8 list"
  rr_frame :: "u8 list"
  rr_module :: "u8 list"
  rr_previous :: "u8 list"
  rr_check :: "u8 list"

definition RootRecord_BYTES :: nat where "RootRecord_BYTES = 176"
definition RootRecord_CHECKED_BYTES :: nat where "RootRecord_CHECKED_BYTES = 144"

definition RootRecord_checked :: "RootRecord \<Rightarrow> u8 list" where
  "RootRecord_checked r = write_fields
     [(0, to_le_bytes 4 ROOT_MAGIC), (4, to_le_bytes 4 (of_nat RootRecord_BYTES :: u32)),
      (8, to_le_bytes 8 (rr_generation r)), (16, rr_root r), (48, rr_frame r), (80, rr_module r),
      (112, rr_previous r)]
     (replicate RootRecord_CHECKED_BYTES 0)"

definition RootRecord_to_bytes :: "RootRecord \<Rightarrow> u8 list" where
  "RootRecord_to_bytes r = write_fields
     [(0, RootRecord_checked r), (RootRecord_CHECKED_BYTES, rr_check r)] (replicate RootRecord_BYTES 0)"

definition RootRecord_from_bytes :: "u8 list \<Rightarrow> u8 list \<Rightarrow> i32 + RootRecord" where
  "RootRecord_from_bytes raw computed =
     and_then (prologue raw ROOT_MAGIC RootRecord_BYTES) (\<lambda>_.
       if slice RootRecord_CHECKED_BYTES RootRecord_BYTES raw \<noteq> computed then Inl refusal_MALFORMED
       else
         let generation = store_long raw 8 in
         if generation = 0 then Inl refusal_MALFORMED
         else Inr \<lparr>rr_generation = generation, rr_root = store_digest raw 16,
           rr_frame = store_digest raw 48, rr_module = store_digest raw 80,
           rr_previous = store_digest raw 112, rr_check = store_digest raw 144\<rparr>)"

subsection \<open>The nodes of a generation\<close>

definition NODE_MAGIC :: u32 where "NODE_MAGIC = 0x444e5f46"
definition HEADER_BYTES :: nat where "HEADER_BYTES = 8"
definition NAME_MAX :: nat where "NAME_MAX = 32"

definition node_BYTES :: u16 where "node_BYTES = 1"
definition node_COMPONENT :: u16 where "node_COMPONENT = 2"
definition node_TOPOLOGY :: u16 where "node_TOPOLOGY = 3"
definition node_GENERATION :: u16 where "node_GENERATION = 4"

definition node_known :: "u16 \<Rightarrow> bool" where
  "node_known value \<longleftrightarrow> value \<in> {node_BYTES, node_COMPONENT, node_TOPOLOGY, node_GENERATION}"

definition node_leaf :: "u16 \<Rightarrow> bool" where
  "node_leaf value \<longleftrightarrow> value \<in> {node_BYTES, node_COMPONENT}"

lemmas node_consts = node_BYTES_def node_COMPONENT_def node_TOPOLOGY_def node_GENERATION_def

definition MEMBERS_MAX :: nat where "MEMBERS_MAX = 64"
definition ROUTES_MAX :: nat where "ROUTES_MAX = 256"

definition node_put_header :: "u16 \<Rightarrow> nat \<Rightarrow> u8 list \<Rightarrow> u8 list" where
  "node_put_header kind bytes out = write_fields
     [(0, to_le_bytes 4 NODE_MAGIC), (4, to_le_bytes 2 kind), (6, to_le_bytes 2 (of_nat bytes :: u16))] out"

definition node_header :: "u8 list \<Rightarrow> nat \<Rightarrow> i32 + u16" where
  "node_header raw bytes =
     (let bad = error_pack error_ARGUMENT argument_MALFORMED_HEADER in
      if length raw < HEADER_BYTES then Inl bad
      else if store_word raw 0 \<noteq> NODE_MAGIC then Inl bad
      else if unat (store_short raw 6) \<noteq> bytes then Inl bad
      else
        let kind = store_short raw 4 in
        if \<not> node_known kind then Inl (error_pack error_ARGUMENT argument_UNKNOWN_FLAG)
        else Inr kind)"

record Leaf =
  lf_kind :: u16
  lf_hash :: "u8 list"
  lf_name :: "u8 list"

definition Leaf_BYTES :: nat where "Leaf_BYTES = HEADER_BYTES + 32 + NAME_MAX"

definition Leaf_to_bytes :: "Leaf \<Rightarrow> u8 list" where
  "Leaf_to_bytes l =
     write_fields [(8, lf_hash l), (40, lf_name l)]
       (node_put_header (lf_kind l) Leaf_BYTES (replicate Leaf_BYTES 0))"

definition Leaf_from_bytes :: "u8 list \<Rightarrow> i32 + Leaf" where
  "Leaf_from_bytes raw =
     and_then (node_header raw Leaf_BYTES) (\<lambda>kind.
       if \<not> node_leaf kind then Inl (error_pack error_ARGUMENT argument_UNKNOWN_FLAG)
       else Inr \<lparr>lf_kind = kind, lf_hash = slice 8 40 raw, lf_name = slice 40 72 raw\<rparr>)"

record Route =
  rt_component :: u16
  rt_source :: u16
  rt_capability :: "u8 list"

definition Route_BYTES :: nat where "Route_BYTES = 2 + 2 + NAME_MAX"

definition Route_to_bytes :: "Route \<Rightarrow> u8 list" where
  "Route_to_bytes r = write_fields
     [(0, to_le_bytes 2 (rt_component r)), (2, to_le_bytes 2 (rt_source r)), (4, rt_capability r)]
     (replicate Route_BYTES 0)"

definition Route_from_bytes :: "u8 list \<Rightarrow> Route" where
  "Route_from_bytes raw = \<lparr>rt_component = store_short raw 0, rt_source = store_short raw 2,
     rt_capability = slice 4 36 raw\<rparr>"

record Topology =
  tp_members :: u16
  tp_routes :: u16

definition Topology_HEAD_BYTES :: nat where "Topology_HEAD_BYTES = HEADER_BYTES + 2 + 2"

definition Topology_bytes :: "Topology \<Rightarrow> nat" where
  "Topology_bytes t = Topology_HEAD_BYTES + unat (tp_routes t) * Route_BYTES"

definition Topology_to_bytes :: "Topology \<Rightarrow> u8 list" where
  "Topology_to_bytes t =
     write_fields [(8, to_le_bytes 2 (tp_members t)), (10, to_le_bytes 2 (tp_routes t))]
       (node_put_header node_TOPOLOGY (Topology_bytes t) (replicate Topology_HEAD_BYTES 0))"

definition Topology_from_bytes :: "u8 list \<Rightarrow> i32 + Topology" where
  "Topology_from_bytes raw =
     (let bad = error_pack error_ARGUMENT argument_MALFORMED_HEADER in
      if store_word raw 0 \<noteq> NODE_MAGIC then Inl bad
      else if store_short raw 4 \<noteq> node_TOPOLOGY
      then Inl (error_pack error_ARGUMENT argument_UNKNOWN_FLAG)
      else
        let members = store_short raw 8; routes = store_short raw 10 in
        if unat members > MEMBERS_MAX \<or> unat routes > ROUTES_MAX
        then Inl (error_pack error_ARGUMENT argument_UNKNOWN_FLAG)
        else
          let head = \<lparr>tp_members = members, tp_routes = routes\<rparr> in
          if unat (store_short raw 6) \<noteq> Topology_bytes head then Inl bad else Inr head)"

definition Generation_BYTES :: nat where "Generation_BYTES = HEADER_BYTES"
definition Generation_FOLDED_BYTES :: nat where "Generation_FOLDED_BYTES = HEADER_BYTES + 32 + 32"

definition Generation_to_bytes :: "u8 list" where
  "Generation_to_bytes =
     node_put_header node_GENERATION Generation_FOLDED_BYTES (replicate Generation_BYTES 0)"

definition Generation_from_bytes :: "u8 list \<Rightarrow> i32 + unit" where
  "Generation_from_bytes raw =
     and_then (node_header raw Generation_FOLDED_BYTES) (\<lambda>kind.
       if kind \<noteq> node_GENERATION then Inl (error_pack error_ARGUMENT argument_UNKNOWN_FLAG) else Inr ())"

subsection \<open>Arrays as fields side by side\<close>

lemmas format_sizes = Superblock_BYTES_def Header_BYTES_def ObjectHead_HEAD_BYTES_def
  ExtentHead_HEAD_BYTES_def RootRecord_BYTES_def RootRecord_CHECKED_BYTES_def HEADER_BYTES_def
  NAME_MAX_def Leaf_BYTES_def Route_BYTES_def Topology_HEAD_BYTES_def Generation_BYTES_def
  Generation_FOLDED_BYTES_def

lemma store_short_slice: "at + 2 \<le> length raw \<Longrightarrow> store_short raw at = from_le_bytes (slice at (at + 2) raw)"
  unfolding store_short_def slice_def by (simp add: take_Suc_conv_app_nth numeral_2_eq_2)

lemma store_word_slice:
  assumes "at + 4 \<le> length raw"
  shows "store_word raw at = from_le_bytes (slice at (at + 4) raw)"
proof -
  have "slice at (at + 4) raw = [raw ! at, raw ! (at + 1), raw ! (at + 2), raw ! (at + 3)]"
    using assms by (auto simp: slice_def numeral_eq_Suc take_Suc_conv_app_nth)
  then show ?thesis by (simp add: store_word_def)
qed

lemma to_from_le_bytes:
  assumes "8 * n \<le> LENGTH('a)" "length bs = n"
  shows "to_le_bytes n (from_le_bytes bs :: 'a::len word) = bs"
proof (rule nth_equalityI)
  fix i assume "i < length (to_le_bytes n (from_le_bytes bs :: 'a word))"
  then have i: "i < n" by simp
  show "to_le_bytes n (from_le_bytes bs :: 'a word) ! i = bs ! i"
  proof (rule bit_word_eqI)
    fix k assume "k < LENGTH(8)"
    then have k: "k < 8" by simp
    then have "8 * i + k < 8 * n" using i by linarith
    then show "bit (to_le_bytes n (from_le_bytes bs :: 'a word) ! i) k = bit (bs ! i) k"
      using i k assms by (simp add: to_le_bytes_def bit_ucast_iff bit_drop_bit_eq bit_from_le_bytes)
  qed
qed (simp add: assms)

lemma to_le_bytes_inject [simp]:
  "to_le_bytes 2 a2 = to_le_bytes 2 b2 \<longleftrightarrow> a2 = (b2 :: u16)"
  "to_le_bytes 4 a4 = to_le_bytes 4 b4 \<longleftrightarrow> a4 = (b4 :: u32)"
  by (metis from_le_to_le_bytes)+

lemma slice_slice_join: "a \<le> b \<Longrightarrow> b \<le> c \<Longrightarrow> c \<le> length xs \<Longrightarrow> slice a b xs @ slice b c xs = slice a c xs"
  by (auto simp: slice_def nth_append add.commute intro!: nth_equalityI)

lemma put_at_append: "length xs = a \<Longrightarrow> put_at a ys (xs @ zs) = xs @ ys @ drop (length ys) zs"
  by (simp add: put_at_def)

lemma fields_append:
  "length xs = a \<Longrightarrow>
   write_fields ((a, ys) # fs) (xs @ zs) = write_fields fs ((xs @ ys) @ drop (length ys) zs)"
  by (simp add: write_fields_def put_at_append)

lemma fields_start: "write_fields ((0, ys) # fs) zs = write_fields fs (ys @ drop (length ys) zs)"
  by (simp add: write_fields_def)

lemma fields_done: "write_fields [] zs = zs"
  by (simp add: write_fields_def)

lemmas fields = fields_start fields_append fields_done format_sizes

lemma le_short: "at + 2 \<le> length raw \<Longrightarrow> to_le_bytes 2 (store_short raw at) = slice at (at + 2) raw"
  by (simp add: store_short_slice to_from_le_bytes)

lemma le_word: "at + 4 \<le> length raw \<Longrightarrow> to_le_bytes 4 (store_word raw at) = slice at (at + 4) raw"
  by (simp add: store_word_slice to_from_le_bytes)

lemma le_long: "at + 8 \<le> length raw \<Longrightarrow> to_le_bytes 8 (store_long raw at) = slice at (at + 8) raw"
  by (simp add: store_long_def to_from_le_bytes)

lemmas field_reads = store_short_slice store_word_slice store_long_def store_digest_def
  slice_append_right slice_append_left slice_all

lemma Superblock_to_bytes_eq:
  "Superblock_to_bytes s =
     to_le_bytes 4 SUPERBLOCK_MAGIC @ to_le_bytes 4 (68 :: u32) @ to_le_bytes 4 (sb_schema s)
     @ to_le_bytes 4 (sb_block_bytes s) @ to_le_bytes 4 (sb_zones s) @ to_le_bytes 4 (sb_root_zone_a s)
     @ to_le_bytes 4 (sb_root_zone_b s) @ to_le_bytes 4 (sb_chunk_min_bytes s)
     @ to_le_bytes 4 (sb_chunk_target_bytes s) @ to_le_bytes 4 (sb_chunk_max_bytes s)
     @ to_le_bytes 4 (sb_mask_bits s) @ to_le_bytes 8 (sb_zone_bytes s)
     @ to_le_bytes 8 (sb_gear_label s) @ to_le_bytes 8 (sb_mask_label s)"
  unfolding Superblock_to_bytes_def by (simp add: fields del: append_assoc)

lemma Superblock_length [simp]: "length (Superblock_to_bytes s) = 68"
  by (simp add: Superblock_to_bytes_eq)

definition Superblock_valid :: "Superblock \<Rightarrow> bool" where
  "Superblock_valid s \<longleftrightarrow> sb_schema s = SCHEMA \<and> sb_block_bytes s \<noteq> 0"

lemma Superblock_decode_encode: "Superblock_valid s \<Longrightarrow> Superblock_from_bytes (Superblock_to_bytes s) = Inr s"
  by (simp add: Superblock_from_bytes_def prologue_def Superblock_to_bytes_eq field_reads Superblock_valid_def
      format_sizes)

lemma unat_eq_of_nat: "unat w = n \<longleftrightarrow> n < 2 ^ LENGTH('a) \<and> w = of_nat n" for w :: "'a::len word"
  by (auto simp: unat_of_nat)

lemma Superblock_encode_decode:
  assumes "length raw = 68" "Superblock_from_bytes raw = Inr s"
  shows "Superblock_valid s \<and> raw = Superblock_to_bytes s"
proof -
  have "store_word raw 0 = SUPERBLOCK_MAGIC" "store_word raw 4 = 68" "Superblock_valid s"
    and s: "s = \<lparr>sb_schema = store_word raw 8, sb_block_bytes = store_word raw 12, sb_zones = store_word raw 16,
      sb_root_zone_a = store_word raw 20, sb_root_zone_b = store_word raw 24,
      sb_chunk_min_bytes = store_word raw 28, sb_chunk_target_bytes = store_word raw 32,
      sb_chunk_max_bytes = store_word raw 36, sb_mask_bits = store_word raw 40,
      sb_zone_bytes = store_long raw 44, sb_gear_label = store_long raw 52,
      sb_mask_label = store_long raw 60\<rparr>"
    using assms by (auto simp: Superblock_from_bytes_def prologue_def Superblock_valid_def format_sizes
        Let_def unat_eq_of_nat split: if_splits)
  then show ?thesis
    using assms(1) le_word [of 0 raw] le_word [of 4 raw]
    by (simp add: Superblock_to_bytes_eq le_word le_long slice_slice_join slice_all)
qed

definition Header_valid :: "Header \<Rightarrow> bool" where
  "Header_valid h \<longleftrightarrow> kind_known (hd_kind h) \<and> hd_flags h = 0 \<and> length (hd_hash h) = 32"

lemma Header_to_bytes_eq:
  assumes "length (hd_hash h) = 32"
  shows "Header_to_bytes h = to_le_bytes 4 BLOB_MAGIC @ to_le_bytes 4 (52 :: u32) @ to_le_bytes 2 (hd_kind h)
    @ to_le_bytes 2 (hd_flags h) @ to_le_bytes 8 (hd_content_bytes h) @ hd_hash h"
  unfolding Header_to_bytes_def using assms by (simp add: fields del: append_assoc)

lemma Header_length: "length (hd_hash h) = 32 \<Longrightarrow> length (Header_to_bytes h) = 52"
  by (simp add: Header_to_bytes_eq)

lemma Header_decode_encode: "Header_valid h \<Longrightarrow> Header_from_bytes (Header_to_bytes h) = Inr h"
  by (simp add: Header_valid_def Header_from_bytes_def prologue_def Header_to_bytes_eq field_reads format_sizes)

lemma Header_encode_decode:
  assumes "length raw = 52" "Header_from_bytes raw = Inr h"
  shows "Header_valid h \<and> raw = Header_to_bytes h"
proof -
  have magic: "store_word raw 0 = BLOB_MAGIC" "store_word raw 4 = 52" "Header_valid h"
    and h: "h = \<lparr>hd_kind = store_short raw 8, hd_flags = store_short raw 10,
      hd_content_bytes = store_long raw 12, hd_hash = store_digest raw 20\<rparr>"
    using assms by (auto simp: Header_from_bytes_def prologue_def Header_valid_def format_sizes
        Let_def unat_eq_of_nat store_digest_def split: if_splits)
  have "length (hd_hash h) = 32" using magic(3) by (simp add: Header_valid_def)
  from Header_to_bytes_eq [OF this] show ?thesis
    using magic assms(1) le_word [of 0 raw] le_word [of 4 raw] h
    by (simp add: le_short le_long store_digest_def slice_slice_join slice_all)
qed

lemma head_join: "length raw = 12 \<Longrightarrow> to_le_bytes 8 (store_long raw 0) @ to_le_bytes 4 (store_word raw 8) = raw"
  by (simp add: le_word le_long slice_slice_join slice_all)

definition ObjectHead_valid :: "ObjectHead \<Rightarrow> bool" where
  "ObjectHead_valid h \<longleftrightarrow> unat (oh_chunks h) \<le> CHUNKS_MAX \<and> (oh_object_bytes h = 0 \<longleftrightarrow> oh_chunks h = 0)"

lemma ObjectHead_to_bytes_eq:
  "ObjectHead_to_bytes h = to_le_bytes 8 (oh_object_bytes h) @ to_le_bytes 4 (oh_chunks h)"
  unfolding ObjectHead_to_bytes_def by (simp add: fields del: append_assoc)

lemma ObjectHead_decode_encode: "ObjectHead_valid h \<Longrightarrow> ObjectHead_from_bytes (ObjectHead_to_bytes h) = Inr h"
  by (simp add: ObjectHead_valid_def ObjectHead_from_bytes_def ObjectHead_to_bytes_eq field_reads Let_def)

lemma ObjectHead_encode_decode:
  "length raw = 12 \<Longrightarrow> ObjectHead_from_bytes raw = Inr h \<Longrightarrow>
   ObjectHead_valid h \<and> raw = ObjectHead_to_bytes h"
  using head_join [of raw]
  by (auto simp: ObjectHead_from_bytes_def ObjectHead_to_bytes_eq ObjectHead_valid_def Let_def split: if_splits)

definition ExtentHead_valid :: "ExtentHead \<Rightarrow> bool" where
  "ExtentHead_valid h \<longleftrightarrow> unat (eh_pieces h) \<le> PIECES_MAX \<and> (eh_extent_bytes h = 0 \<longleftrightarrow> eh_pieces h = 0)"

lemma ExtentHead_to_bytes_eq:
  "ExtentHead_to_bytes h = to_le_bytes 8 (eh_extent_bytes h) @ to_le_bytes 4 (eh_pieces h)"
  unfolding ExtentHead_to_bytes_def by (simp add: fields del: append_assoc)

lemma ExtentHead_decode_encode: "ExtentHead_valid h \<Longrightarrow> ExtentHead_from_bytes (ExtentHead_to_bytes h) = Inr h"
  by (simp add: ExtentHead_valid_def ExtentHead_from_bytes_def ExtentHead_to_bytes_eq field_reads Let_def)

lemma ExtentHead_encode_decode:
  "length raw = 12 \<Longrightarrow> ExtentHead_from_bytes raw = Inr h \<Longrightarrow>
   ExtentHead_valid h \<and> raw = ExtentHead_to_bytes h"
  using head_join [of raw]
  by (auto simp: ExtentHead_from_bytes_def ExtentHead_to_bytes_eq ExtentHead_valid_def Let_def split: if_splits)

definition RootRecord_valid :: "RootRecord \<Rightarrow> bool" where
  "RootRecord_valid r \<longleftrightarrow> rr_generation r \<noteq> 0 \<and> length (rr_root r) = 32 \<and> length (rr_frame r) = 32
     \<and> length (rr_module r) = 32 \<and> length (rr_previous r) = 32 \<and> length (rr_check r) = 32"

lemma RootRecord_checked_eq:
  assumes "RootRecord_valid r"
  shows "RootRecord_checked r = to_le_bytes 4 ROOT_MAGIC @ to_le_bytes 4 (176 :: u32)
    @ to_le_bytes 8 (rr_generation r) @ rr_root r @ rr_frame r @ rr_module r @ rr_previous r"
  using assms unfolding RootRecord_checked_def by (simp add: fields RootRecord_valid_def del: append_assoc)

lemma RootRecord_to_bytes_eq:
  assumes "RootRecord_valid r"
  shows "RootRecord_to_bytes r = RootRecord_checked r @ rr_check r" "length (RootRecord_checked r) = 144"
proof -
  show len: "length (RootRecord_checked r) = 144"
    using assms by (simp add: RootRecord_checked_eq RootRecord_valid_def)
  show "RootRecord_to_bytes r = RootRecord_checked r @ rr_check r"
    unfolding RootRecord_to_bytes_def using assms len
    by (simp add: fields RootRecord_valid_def del: append_assoc)
qed

lemma RootRecord_length: "RootRecord_valid r \<Longrightarrow> length (RootRecord_to_bytes r) = 176"
  using RootRecord_to_bytes_eq [of r] by (simp add: RootRecord_valid_def)

lemma RootRecord_decode_encode:
  "RootRecord_valid r \<Longrightarrow> RootRecord_from_bytes (RootRecord_to_bytes r) (rr_check r) = Inr r"
  by (simp add: RootRecord_from_bytes_def prologue_def RootRecord_to_bytes_eq(1) RootRecord_checked_eq
      field_reads format_sizes) (simp add: RootRecord_valid_def field_reads)

lemma RootRecord_encode_decode:
  assumes "length raw = 176" "RootRecord_from_bytes raw check = Inr r"
  shows "RootRecord_valid r \<and> rr_check r = check \<and> raw = RootRecord_to_bytes r"
proof -
  have magic: "store_word raw 0 = ROOT_MAGIC" "store_word raw 4 = 176" "rr_check r = check"
    and r: "r = \<lparr>rr_generation = store_long raw 8, rr_root = store_digest raw 16, rr_frame = store_digest raw 48,
      rr_module = store_digest raw 80, rr_previous = store_digest raw 112, rr_check = store_digest raw 144\<rparr>"
    and nonzero: "store_long raw 8 \<noteq> 0"
    using assms by (auto simp: RootRecord_from_bytes_def prologue_def format_sizes
        Let_def unat_eq_of_nat store_digest_def split: if_splits)
  have valid: "RootRecord_valid r"
    unfolding r RootRecord_valid_def using assms(1) nonzero by (simp add: store_digest_def)
  have "raw = RootRecord_to_bytes r"
    using valid magic(1,2) assms(1) le_word [of 0 raw] le_word [of 4 raw]
    by (simp add: RootRecord_to_bytes_eq(1) RootRecord_checked_eq r le_long store_digest_def slice_slice_join slice_all)
  with valid magic(3) show ?thesis by simp
qed

subsection \<open>The nodes\<close>

definition Leaf_valid :: "Leaf \<Rightarrow> bool" where
  "Leaf_valid l \<longleftrightarrow> node_leaf (lf_kind l) \<and> length (lf_hash l) = 32 \<and> length (lf_name l) = 32"

definition Topology_valid :: "Topology \<Rightarrow> bool" where
  "Topology_valid t \<longleftrightarrow> unat (tp_members t) \<le> MEMBERS_MAX \<and> unat (tp_routes t) \<le> ROUTES_MAX"

lemma node_put_header_eq:
  "8 \<le> n \<Longrightarrow> node_put_header kind bytes (replicate n 0)
     = to_le_bytes 4 NODE_MAGIC @ to_le_bytes 2 kind @ to_le_bytes 2 (of_nat bytes :: u16) @ replicate (n - 8) 0"
  unfolding node_put_header_def by (simp add: fields del: append_assoc)

lemma node_header_eq:
  assumes "8 \<le> length raw"
  shows "node_header raw bytes = Inr kind \<longleftrightarrow> node_known kind \<and> bytes < 2 ^ 16
    \<and> take 8 raw = to_le_bytes 4 NODE_MAGIC @ to_le_bytes 2 kind @ to_le_bytes 2 (of_nat bytes :: u16)"
    (is "_ \<longleftrightarrow> _ \<and> _ \<and> _ = ?head")
proof -
  have raw: "take 8 raw = to_le_bytes 4 (store_word raw 0) @ to_le_bytes 2 (store_short raw 4)
      @ to_le_bytes 2 (store_short raw 6)"
    using assms by (simp add: le_word le_short slice_slice_join flip: slice_0)
  have "take 8 raw = ?head \<longleftrightarrow>
      store_word raw 0 = NODE_MAGIC \<and> store_short raw 4 = kind \<and> store_short raw 6 = of_nat bytes"
    unfolding raw by simp
  then show ?thesis
    using assms by (auto simp: node_header_def Let_def HEADER_BYTES_def unat_eq_of_nat)
qed

lemma node_kinds: "node_leaf k \<Longrightarrow> node_known k" "node_known node_GENERATION"
  by (auto simp: node_leaf_def node_known_def)

lemma Leaf_to_bytes_eq:
  "Leaf_valid l \<Longrightarrow> Leaf_to_bytes l = to_le_bytes 4 NODE_MAGIC @ to_le_bytes 2 (lf_kind l)
     @ to_le_bytes 2 (72 :: u16) @ lf_hash l @ lf_name l"
  unfolding Leaf_to_bytes_def Leaf_valid_def
  by (simp add: node_put_header_eq fields append_assoc [symmetric] del: append_assoc)

lemma Leaf_canonical:
  assumes "length raw = Leaf_BYTES"
  shows "Leaf_from_bytes raw = Inr l \<longleftrightarrow> Leaf_valid l \<and> raw = Leaf_to_bytes l"
proof
  assume l: "Leaf_from_bytes raw = Inr l"
  then have "node_header raw Leaf_BYTES = Inr (lf_kind l)" "lf_hash l = slice 8 40 raw" "lf_name l = slice 40 72 raw"
    and valid: "Leaf_valid l"
    using assms by (auto simp: Leaf_from_bytes_def Leaf_valid_def and_then_Inr_iff format_sizes split: if_splits)
  moreover have "raw = take 8 raw @ slice 8 40 raw @ slice 40 72 raw"
    using assms slice_slice_join [of 0 8 72 raw]
    by (simp add: slice_slice_join slice_0 format_sizes)
  ultimately show "Leaf_valid l \<and> raw = Leaf_to_bytes l"
    using assms by (simp add: node_header_eq Leaf_to_bytes_eq format_sizes)
next
  assume l: "Leaf_valid l \<and> raw = Leaf_to_bytes l"
  then have "node_header raw Leaf_BYTES = Inr (lf_kind l)"
    using node_kinds by (simp add: node_header_eq Leaf_to_bytes_eq format_sizes Leaf_valid_def)
  then show "Leaf_from_bytes raw = Inr l"
    using l by (simp add: Leaf_from_bytes_def Leaf_to_bytes_eq Leaf_valid_def field_reads)
qed

lemma Route_canonical:
  assumes "length raw = Route_BYTES" "length (rt_capability r) = NAME_MAX"
  shows "Route_from_bytes raw = r \<longleftrightarrow> raw = Route_to_bytes r"
proof -
  have bytes: "Route_to_bytes r = to_le_bytes 2 (rt_component r) @ to_le_bytes 2 (rt_source r) @ rt_capability r"
    unfolding Route_to_bytes_def using assms(2) by (simp add: fields del: append_assoc)
  show ?thesis
  proof
    assume "Route_from_bytes raw = r"
    then have r: "r = Route_from_bytes raw" by simp
    show "raw = Route_to_bytes r"
      unfolding bytes unfolding r using assms(1) le_short [of 0 raw] le_short [of 2 raw]
      by (simp add: Route_from_bytes_def slice_slice_join slice_all format_sizes del: add_2_eq_Suc add_2_eq_Suc')
  next
    assume "raw = Route_to_bytes r"
    then show "Route_from_bytes raw = r"
      unfolding bytes using assms(2) by (simp add: Route_from_bytes_def field_reads format_sizes)
  qed
qed

lemma Topology_to_bytes_eq:
  "Topology_to_bytes t = to_le_bytes 4 NODE_MAGIC @ to_le_bytes 2 node_TOPOLOGY
     @ to_le_bytes 2 (of_nat (Topology_bytes t) :: u16) @ to_le_bytes 2 (tp_members t) @ to_le_bytes 2 (tp_routes t)"
  unfolding Topology_to_bytes_def
  by (simp add: node_put_header_eq fields append_assoc [symmetric] del: append_assoc)

lemma Topology_canonical:
  assumes "length raw = Topology_HEAD_BYTES"
  shows "Topology_from_bytes raw = Inr t \<longleftrightarrow> Topology_valid t \<and> raw = Topology_to_bytes t"
proof -
  have raw: "raw = to_le_bytes 4 (store_word raw 0) @ to_le_bytes 2 (store_short raw 4)
      @ to_le_bytes 2 (store_short raw 6) @ to_le_bytes 2 (store_short raw 8) @ to_le_bytes 2 (store_short raw 10)"
    using assms by (simp add: le_word le_short slice_slice_join slice_all format_sizes)
  have small: "Topology_valid t \<Longrightarrow> Topology_bytes t < 2 ^ 16" for t
    by (simp add: Topology_valid_def Topology_bytes_def format_sizes ROUTES_MAX_def)
  have "raw = Topology_to_bytes t \<longleftrightarrow> store_word raw 0 = NODE_MAGIC \<and> store_short raw 4 = node_TOPOLOGY
      \<and> store_short raw 6 = of_nat (Topology_bytes t) \<and> store_short raw 8 = tp_members t
      \<and> store_short raw 10 = tp_routes t"
    unfolding Topology_to_bytes_eq by (subst raw) simp
  then show ?thesis
    using small [of t]
    by (cases t) (auto simp: Topology_from_bytes_def Topology_valid_def Let_def unat_eq_of_nat)
qed

lemma Generation_canonical:
  assumes "length raw = Generation_BYTES"
  shows "Generation_from_bytes raw = Inr () \<longleftrightarrow> raw = Generation_to_bytes"
  using assms node_kinds(2)
  by (auto simp: Generation_from_bytes_def Generation_to_bytes_def and_then_Inr_iff node_header_eq
      node_put_header_eq format_sizes split: if_splits)

text \<open>
  C38: the decoders of the blob format accept exactly the encodings of records this build would
  write, so that no two byte strings decode to one record and a decoded record encodes to the bytes
  it came from. For arrays of the declared sizes, the superblock is accepted exactly when it is the
  encoding of one of the present schema with a block size, the blob header of one with a known kind,
  no flags and a full hash, an object's and an extent's head of one within its bounds and empty in
  both counts or neither, and a root record of one with a generation whose check is the digest
  computed.
\<close>

theorem format_canonical:
  assumes "length sb = Superblock_BYTES" "length bh = Header_BYTES" "length oh = ObjectHead_HEAD_BYTES"
    "length eh = ExtentHead_HEAD_BYTES" "length rr = RootRecord_BYTES"
  shows "(Superblock_from_bytes sb = Inr s \<longleftrightarrow> Superblock_valid s \<and> sb = Superblock_to_bytes s)
    \<and> (Header_from_bytes bh = Inr h \<longleftrightarrow> Header_valid h \<and> bh = Header_to_bytes h)
    \<and> (ObjectHead_from_bytes oh = Inr j \<longleftrightarrow> ObjectHead_valid j \<and> oh = ObjectHead_to_bytes j)
    \<and> (ExtentHead_from_bytes eh = Inr e \<longleftrightarrow> ExtentHead_valid e \<and> eh = ExtentHead_to_bytes e)
    \<and> (RootRecord_from_bytes rr check = Inr r \<longleftrightarrow>
         RootRecord_valid r \<and> rr_check r = check \<and> rr = RootRecord_to_bytes r)"
  using assms Superblock_decode_encode Superblock_encode_decode Header_decode_encode Header_encode_decode
    ObjectHead_decode_encode ObjectHead_encode_decode ExtentHead_decode_encode ExtentHead_encode_decode
    RootRecord_decode_encode RootRecord_encode_decode
  unfolding format_sizes by blast

definition sample_superblock :: Superblock where
  "sample_superblock = \<lparr>sb_schema = 1, sb_block_bytes = 512, sb_zones = 8, sb_root_zone_a = 1,
     sb_root_zone_b = 2, sb_chunk_min_bytes = 0, sb_chunk_target_bytes = 0, sb_chunk_max_bytes = 0,
     sb_mask_bits = 0, sb_zone_bytes = 4096, sb_gear_label = 0, sb_mask_label = 0\<rparr>"

theorem format_canonical_witness:
  "Superblock_from_bytes (Superblock_to_bytes sample_superblock) = Inr sample_superblock"
  using format_canonical [of "Superblock_to_bytes sample_superblock" "replicate 52 0" "replicate 12 0"
      "replicate 12 0" "replicate 176 0" sample_superblock]
  by (simp add: format_sizes Superblock_valid_def sample_superblock_def SCHEMA_def)

end
