(* ===== verification/Zone_Device.thy ===== *)
theory Zone_Device
  imports Store_Format
begin

text \<open>
  The zoned device, from \<open>src/zone/src/device.rs\<close>: a conventional zone that is written in place and
  sequential zones that are only appended to, sealed and reset, held in memory. Block numbers,
  zone numbers and sizes are natural numbers; the invariant bounds them by the widths of the
  source. A read is given the length of the caller's buffer and answers what the buffer then holds.
\<close>

datatype Kind = Conventional | SequentialWriteRequired
datatype Pointer = Pointer_Empty | Pointer_Open | Pointer_Full

record ZoneReport =
  rep_zone :: nat
  rep_kind :: Kind
  rep_start :: nat
  rep_blocks :: nat
  rep_write_pointer :: nat
  rep_state :: Pointer

record Counted =
  cnt_appended_bytes :: u64
  cnt_written_bytes :: u64
  cnt_read_bytes :: u64
  cnt_finishes :: u64
  cnt_resets :: u64
  cnt_flushes :: u64

definition Counted_default :: Counted where
  "Counted_default = \<lparr>cnt_appended_bytes = 0, cnt_written_bytes = 0, cnt_read_bytes = 0,
     cnt_finishes = 0, cnt_resets = 0, cnt_flushes = 0\<rparr>"

definition Counted_device_bytes :: "Counted \<Rightarrow> u64" where
  "Counted_device_bytes c = cnt_appended_bytes c + cnt_written_bytes c"

record ZonedMemory =
  zd_block_bytes :: nat
  zd_zone_blocks :: nat
  zd_zone_count :: nat
  zd_bytes :: "u8 list"
  zd_written :: "nat list"
  zd_sealed :: "bool list"
  zd_counted :: Counted

definition ZonedMemory_new :: "nat \<Rightarrow> nat \<Rightarrow> nat \<Rightarrow> ZonedMemory" where
  "ZonedMemory_new block_bytes zone_blocks zone_count =
     (let blocks = zone_blocks * zone_count; len = block_bytes * blocks in
      \<lparr>zd_block_bytes = block_bytes, zd_zone_blocks = zone_blocks, zd_zone_count = zone_count,
       zd_bytes = replicate len 0, zd_written = replicate zone_count 0,
       zd_sealed = replicate zone_count False, zd_counted = Counted_default\<rparr>)"

definition ZonedMemory_zone_of :: "ZonedMemory \<Rightarrow> nat \<Rightarrow> nat option" where
  "ZonedMemory_zone_of d block =
     (let zone = block div zd_zone_blocks d in
      if zone < 2 ^ 32 \<and> zone < zd_zone_count d then Some zone else None)"

definition ZonedMemory_kind_of :: "nat \<Rightarrow> Kind" where
  "ZonedMemory_kind_of zone = (if zone = 0 then Conventional else SequentialWriteRequired)"

definition ZonedMemory_flip :: "nat \<Rightarrow> ZonedMemory \<Rightarrow> (i32 + unit) \<times> ZonedMemory" where
  "ZonedMemory_flip at d =
     (case get_at (zd_bytes d) at of
        None \<Rightarrow> (Inl refusal_ADDRESS, d)
      | Some byte \<Rightarrow> (Inr (), d\<lparr>zd_bytes := (zd_bytes d)[at := byte XOR 1]\<rparr>))"

definition ZonedMemory_span :: "ZonedMemory \<Rightarrow> nat \<Rightarrow> (nat \<times> nat) option" where
  "ZonedMemory_span d block =
     (let at = block * zd_block_bytes d; end' = at + zd_block_bytes d in
      if block < 2 ^ 64 \<and> at < 2 ^ 64 \<and> end' < 2 ^ 64 \<and> end' \<le> length (zd_bytes d)
      then Some (at, end') else None)"

definition ZonedMemory_start_of :: "ZonedMemory \<Rightarrow> nat \<Rightarrow> nat" where
  "ZonedMemory_start_of d zone = zone * zd_zone_blocks d"

definition ZonedMemory_sequential :: "ZonedMemory \<Rightarrow> nat \<Rightarrow> i32 + nat" where
  "ZonedMemory_sequential d zone =
     (if zone \<ge> zd_zone_count d \<or> ZonedMemory_kind_of zone = Conventional
      then Inl refusal_ADDRESS else Inr zone)"

definition ZonedMemory_land :: "nat \<Rightarrow> u8 list \<Rightarrow> ZonedMemory \<Rightarrow> (i32 + unit) \<times> ZonedMemory" where
  "ZonedMemory_land block from d =
     (if length from > zd_block_bytes d then (Inl refusal_ADDRESS, d)
      else case ZonedMemory_zone_of d block of
        None \<Rightarrow> (Inl refusal_ADDRESS, d)
      | Some zone \<Rightarrow>
          (case ZonedMemory_span d block of
             None \<Rightarrow> (Inl refusal_ADDRESS, d)
           | Some (at, _) \<Rightarrow>
               (let d = d\<lparr>zd_bytes := put_at at from (zd_bytes d)\<rparr> in
                if ZonedMemory_kind_of zone = SequentialWriteRequired then
                  let offset = block - ZonedMemory_start_of d zone in
                  (Inr (), d\<lparr>zd_written := (zd_written d)[zone := max (zd_written d ! zone) (offset + 1)]\<rparr>)
                else (Inr (), d))))"

definition ZonedMemory_blocks :: "ZonedMemory \<Rightarrow> nat" where
  "ZonedMemory_blocks d = zd_zone_blocks d * zd_zone_count d"

definition ZonedMemory_read :: "nat \<Rightarrow> nat \<Rightarrow> ZonedMemory \<Rightarrow> (i32 + u8 list) \<times> ZonedMemory" where
  "ZonedMemory_read block into_len d =
     (if into_len \<noteq> zd_block_bytes d then (Inl refusal_ADDRESS, d)
      else case ZonedMemory_zone_of d block of
        None \<Rightarrow> (Inl refusal_ADDRESS, d)
      | Some zone \<Rightarrow>
          if ZonedMemory_kind_of zone = SequentialWriteRequired
             \<and> block - ZonedMemory_start_of d zone \<ge> zd_written d ! zone
          then (Inl refusal_ADDRESS, d)
          else (case ZonedMemory_span d block of
             None \<Rightarrow> (Inl refusal_ADDRESS, d)
           | Some (at, end') \<Rightarrow>
               (Inr (slice at end' (zd_bytes d)),
                d\<lparr>zd_counted := (zd_counted d)\<lparr>cnt_read_bytes :=
                  cnt_read_bytes (zd_counted d) + of_nat (zd_block_bytes d)\<rparr>\<rparr>)))"

definition ZonedMemory_write :: "nat \<Rightarrow> u8 list \<Rightarrow> ZonedMemory \<Rightarrow> (i32 + unit) \<times> ZonedMemory" where
  "ZonedMemory_write block from d =
     (if length from \<noteq> zd_block_bytes d then (Inl refusal_ADDRESS, d)
      else case ZonedMemory_zone_of d block of
        None \<Rightarrow> (Inl refusal_ADDRESS, d)
      | Some zone \<Rightarrow>
          if ZonedMemory_kind_of zone = SequentialWriteRequired then (Inl refusal_ADDRESS, d)
          else (case ZonedMemory_span d block of
             None \<Rightarrow> (Inl refusal_ADDRESS, d)
           | Some (at, _) \<Rightarrow>
               (Inr (),
                d\<lparr>zd_bytes := put_at at from (zd_bytes d),
                  zd_counted := (zd_counted d)\<lparr>cnt_written_bytes :=
                    cnt_written_bytes (zd_counted d) + of_nat (zd_block_bytes d)\<rparr>\<rparr>)))"

definition ZonedMemory_flush :: "ZonedMemory \<Rightarrow> (i32 + unit) \<times> ZonedMemory" where
  "ZonedMemory_flush d =
     (Inr (), d\<lparr>zd_counted := (zd_counted d)\<lparr>cnt_flushes := cnt_flushes (zd_counted d) + 1\<rparr>\<rparr>)"

definition ZonedMemory_report :: "nat \<Rightarrow> ZonedMemory \<Rightarrow> i32 + ZoneReport" where
  "ZonedMemory_report zone d =
     (if zone \<ge> zd_zone_count d then Inl refusal_ADDRESS
      else
        let start = ZonedMemory_start_of d zone; written = zd_written d ! zone;
            full = (zd_sealed d ! zone \<or> written = zd_zone_blocks d);
            state = (if full then Pointer_Full else if written = 0 then Pointer_Empty else Pointer_Open)
        in Inr \<lparr>rep_zone = zone, rep_kind = ZonedMemory_kind_of zone, rep_start = start,
             rep_blocks = zd_zone_blocks d,
             rep_write_pointer = (if full then start + zd_zone_blocks d else start + written),
             rep_state = state\<rparr>)"

definition ZonedMemory_append :: "nat \<Rightarrow> u8 list \<Rightarrow> ZonedMemory \<Rightarrow> (i32 + nat) \<times> ZonedMemory" where
  "ZonedMemory_append zone from d =
     (if length from \<noteq> zd_block_bytes d then (Inl refusal_ADDRESS, d)
      else case ZonedMemory_sequential d zone of
        Inl e \<Rightarrow> (Inl e, d)
      | Inr index \<Rightarrow>
          if zd_sealed d ! index \<or> zd_written d ! index \<ge> zd_zone_blocks d then (Inl refusal_FULL, d)
          else
            let at = ZonedMemory_start_of d zone + zd_written d ! index in
            (case ZonedMemory_span d at of
               None \<Rightarrow> (Inl refusal_ADDRESS, d)
             | Some (from_byte, _) \<Rightarrow>
                 (Inr at,
                  d\<lparr>zd_bytes := put_at from_byte from (zd_bytes d),
                    zd_written := (zd_written d)[index := zd_written d ! index + 1],
                    zd_counted := (zd_counted d)\<lparr>cnt_appended_bytes :=
                      cnt_appended_bytes (zd_counted d) + of_nat (zd_block_bytes d)\<rparr>\<rparr>)))"

definition ZonedMemory_finish :: "nat \<Rightarrow> ZonedMemory \<Rightarrow> (i32 + unit) \<times> ZonedMemory" where
  "ZonedMemory_finish zone d =
     (case ZonedMemory_sequential d zone of
        Inl e \<Rightarrow> (Inl e, d)
      | Inr index \<Rightarrow>
          (Inr (), d\<lparr>zd_sealed := (zd_sealed d)[index := True],
             zd_counted := (zd_counted d)\<lparr>cnt_finishes := cnt_finishes (zd_counted d) + 1\<rparr>\<rparr>))"

definition ZonedMemory_reset :: "nat \<Rightarrow> ZonedMemory \<Rightarrow> (i32 + unit) \<times> ZonedMemory" where
  "ZonedMemory_reset zone d =
     (case ZonedMemory_sequential d zone of
        Inl e \<Rightarrow> (Inl e, d)
      | Inr index \<Rightarrow>
          (case ZonedMemory_span d (ZonedMemory_start_of d zone) of
             None \<Rightarrow> (Inl refusal_ADDRESS, d)
           | Some (from_byte, _) \<Rightarrow>
               (Inr (),
                d\<lparr>zd_bytes := put_at from_byte (replicate (zd_zone_blocks d * zd_block_bytes d) 0) (zd_bytes d),
                  zd_written := (zd_written d)[index := 0], zd_sealed := (zd_sealed d)[index := False],
                  zd_counted := (zd_counted d)\<lparr>cnt_resets := cnt_resets (zd_counted d) + 1\<rparr>\<rparr>)))"

subsection \<open>The device as an array of blocks\<close>

definition zoned_ok :: "ZonedMemory \<Rightarrow> bool" where
  "zoned_ok d \<longleftrightarrow> 0 < zd_block_bytes d \<and> 0 < zd_zone_blocks d \<and> zd_zone_count d < 2 ^ 32
     \<and> length (zd_bytes d) = zd_block_bytes d * (zd_zone_blocks d * zd_zone_count d)
     \<and> length (zd_bytes d) < 2 ^ 64
     \<and> length (zd_written d) = zd_zone_count d \<and> length (zd_sealed d) = zd_zone_count d
     \<and> (\<forall>z<zd_zone_count d. zd_written d ! z \<le> zd_zone_blocks d)"

definition block_at :: "ZonedMemory \<Rightarrow> nat \<Rightarrow> u8 list" where
  "block_at d b = slice (b * zd_block_bytes d) (b * zd_block_bytes d + zd_block_bytes d) (zd_bytes d)"

text \<open>Whether a block holds something a read may answer.\<close>

definition readable :: "ZonedMemory \<Rightarrow> nat \<Rightarrow> bool" where
  "readable d b \<longleftrightarrow> b < zd_zone_blocks d * zd_zone_count d
     \<and> (b div zd_zone_blocks d \<noteq> 0 \<longrightarrow> b mod zd_zone_blocks d < zd_written d ! (b div zd_zone_blocks d))"

text \<open>Same shape: what no operation changes.\<close>

definition same_shape :: "ZonedMemory \<Rightarrow> ZonedMemory \<Rightarrow> bool" where
  "same_shape d d' \<longleftrightarrow> zd_block_bytes d' = zd_block_bytes d \<and> zd_zone_blocks d' = zd_zone_blocks d
     \<and> zd_zone_count d' = zd_zone_count d"

lemma zoned_ok_new:
  "0 < bb \<Longrightarrow> 0 < zb \<Longrightarrow> zc < 2 ^ 32 \<Longrightarrow> bb * (zb * zc) < 2 ^ 64 \<Longrightarrow> zoned_ok (ZonedMemory_new bb zb zc)"
  by (simp add: zoned_ok_def ZonedMemory_new_def Let_def)

lemma block_fits:
  assumes "zoned_ok d" "b < zd_zone_blocks d * zd_zone_count d"
  shows "b * zd_block_bytes d + zd_block_bytes d \<le> length (zd_bytes d)"
proof -
  have "Suc b * zd_block_bytes d \<le> zd_zone_blocks d * zd_zone_count d * zd_block_bytes d"
    using assms(2) by (intro mult_le_mono1) simp
  then show ?thesis using assms(1) by (simp add: zoned_ok_def algebra_simps)
qed

lemma span_eq:
  assumes "zoned_ok d" "b < zd_zone_blocks d * zd_zone_count d"
  shows "ZonedMemory_span d b = Some (b * zd_block_bytes d, b * zd_block_bytes d + zd_block_bytes d)"
proof -
  have fits: "b * zd_block_bytes d + zd_block_bytes d \<le> length (zd_bytes d)" by (rule block_fits [OF assms])
  have pos: "length (zd_bytes d) < 2 ^ 64" "0 < zd_block_bytes d" using assms(1) by (simp_all add: zoned_ok_def)
  then have "b \<le> b * zd_block_bytes d" by simp
  then have "b < 2 ^ 64" "b * zd_block_bytes d < 2 ^ 64" "b * zd_block_bytes d + zd_block_bytes d < 2 ^ 64"
    using fits pos by linarith+
  then show ?thesis using fits unfolding ZonedMemory_span_def Let_def by simp
qed

lemma zone_of_eq:
  assumes "zoned_ok d"
  shows "ZonedMemory_zone_of d b =
    (if b < zd_zone_blocks d * zd_zone_count d then Some (b div zd_zone_blocks d) else None)"
proof -
  have "b div zd_zone_blocks d < zd_zone_count d \<longleftrightarrow> b < zd_zone_blocks d * zd_zone_count d"
    using assms by (simp add: zoned_ok_def div_less_iff_less_mult mult.commute)
  then show ?thesis using assms by (auto simp: ZonedMemory_zone_of_def zoned_ok_def)
qed

lemma zone_block_fits:
  assumes "z < n" "k < b"
  shows "z * b + k < b * (n :: nat)" "(z * b + k) div b = z" "(z * b + k) mod b = k"
proof -
  have "z * b + k < Suc z * b" using assms(2) by simp
  also have "\<dots> \<le> n * b" using assms(1) by (intro mult_le_mono1) simp
  finally show "z * b + k < b * n" by (simp add: mult.commute)
  show "(z * b + k) div b = z" "(z * b + k) mod b = k" using assms(2) by simp_all
qed

subsection \<open>Each operation on the blocks\<close>

lemma read_eq:
  assumes "zoned_ok d"
  shows "ZonedMemory_read b n d =
    (if n = zd_block_bytes d \<and> readable d b
     then (Inr (block_at d b), d\<lparr>zd_counted := (zd_counted d)\<lparr>cnt_read_bytes :=
             cnt_read_bytes (zd_counted d) + of_nat (zd_block_bytes d)\<rparr>\<rparr>)
     else (Inl refusal_ADDRESS, d))"
proof -
  have "b - b div zd_zone_blocks d * zd_zone_blocks d = b mod zd_zone_blocks d"
    by (simp add: minus_div_mult_eq_mod)
  then show ?thesis
    using span_eq [OF assms, of b]
    by (auto simp: ZonedMemory_read_def zone_of_eq [OF assms] ZonedMemory_kind_of_def
        ZonedMemory_start_of_def readable_def block_at_def)
qed

lemma blocks_apart:
  assumes "0 < (n::nat)" "b \<noteq> c"
  shows "b * n + n \<le> c * n \<or> c * n + n \<le> b * n"
proof (cases "b < c")
  case True
  then have "Suc b * n \<le> c * n" by (intro mult_le_mono1) simp
  then show ?thesis by simp
next
  case False
  then have "Suc c * n \<le> b * n" using assms(2) by (intro mult_le_mono1) simp
  then show ?thesis by simp
qed

lemma block_at_put:
  assumes "zoned_ok d" "b < zd_zone_blocks d * zd_zone_count d" "length from = zd_block_bytes d"
  shows "slice (c * zd_block_bytes d) (c * zd_block_bytes d + zd_block_bytes d)
      (put_at (b * zd_block_bytes d) from (zd_bytes d)) = (if c = b then from else block_at d c)"
proof -
  have fits: "b * zd_block_bytes d + length from \<le> length (zd_bytes d)"
    using block_fits [OF assms(1,2)] assms(3) by simp
  show ?thesis
  proof (cases "c = b")
    case True
    then show ?thesis using fits assms(3) by simp
  next
    case False
    then show ?thesis
      using blocks_apart [of "zd_block_bytes d" c b] assms(1,3) slice_put_at_other [OF fits]
      by (auto simp: block_at_def zoned_ok_def)
  qed
qed

text \<open>\<open>append\<close>: refused, or the block at the write pointer becomes the bytes given.\<close>

definition appendable :: "ZonedMemory \<Rightarrow> nat \<Rightarrow> bool" where
  "appendable d z \<longleftrightarrow> z \<noteq> 0 \<and> z < zd_zone_count d \<and> \<not> zd_sealed d ! z \<and> zd_written d ! z < zd_zone_blocks d"

lemma append_refused:
  assumes "zoned_ok d"
  shows "length from = zd_block_bytes d \<and> appendable d z \<or>
    ZonedMemory_append z from d =
      (Inl (if length from \<noteq> zd_block_bytes d \<or> z = 0 \<or> z \<ge> zd_zone_count d then refusal_ADDRESS
            else refusal_FULL), d)"
  by (auto simp: ZonedMemory_append_def ZonedMemory_sequential_def ZonedMemory_kind_of_def appendable_def)

lemma append_accepted:
  assumes ok: "zoned_ok d" and "length from = zd_block_bytes d" "appendable d z"
  obtains d' where "ZonedMemory_append z from d = (Inr (z * zd_zone_blocks d + zd_written d ! z), d')"
    "zoned_ok d'" "same_shape d d'" "zd_sealed d' = zd_sealed d"
    "zd_written d' = (zd_written d)[z := Suc (zd_written d ! z)]"
    "\<forall>b. block_at d' b = (if b = z * zd_zone_blocks d + zd_written d ! z then from else block_at d b)"
proof -
  let ?at = "z * zd_zone_blocks d + zd_written d ! z"
  let ?d' = "d\<lparr>zd_bytes := put_at (?at * zd_block_bytes d) from (zd_bytes d),
      zd_written := (zd_written d)[z := zd_written d ! z + 1],
      zd_counted := (zd_counted d)\<lparr>cnt_appended_bytes :=
        cnt_appended_bytes (zd_counted d) + of_nat (zd_block_bytes d)\<rparr>\<rparr>"
  have z: "z \<noteq> 0" "z < zd_zone_count d" "\<not> zd_sealed d ! z" "zd_written d ! z < zd_zone_blocks d"
    using assms(3) by (simp_all add: appendable_def)
  have at: "?at < zd_zone_blocks d * zd_zone_count d" using zone_block_fits(1) [OF z(2,4)] .
  have res: "ZonedMemory_append z from d = (Inr ?at, ?d')"
    using assms(2) z span_eq [OF ok at]
    by (simp add: ZonedMemory_append_def ZonedMemory_sequential_def ZonedMemory_kind_of_def
        ZonedMemory_start_of_def Let_def)
  have "zoned_ok ?d'"
    using ok z block_fits [OF ok at] assms(2) by (auto simp: zoned_ok_def nth_list_update)
  moreover have "block_at ?d' b = (if b = ?at then from else block_at d b)" for b
    using block_at_put [OF ok at assms(2), of b] by (simp add: block_at_def)
  ultimately show ?thesis using that [OF res] by (simp add: same_shape_def)
qed

lemma put_at_zone:
  assumes ok: "zoned_ok d" and z: "z < zd_zone_count d"
  defines "zeros \<equiv> replicate (zd_zone_blocks d * zd_block_bytes d) (0 :: u8)"
  shows "z * zd_zone_blocks d * zd_block_bytes d + length zeros \<le> length (zd_bytes d)"
    "b div zd_zone_blocks d \<noteq> z \<Longrightarrow>
     slice (b * zd_block_bytes d) (b * zd_block_bytes d + zd_block_bytes d)
       (put_at (z * zd_zone_blocks d * zd_block_bytes d) zeros (zd_bytes d)) = block_at d b"
proof -
  let ?n = "zd_zone_blocks d" and ?k = "zd_block_bytes d"
  have "Suc z * ?n * ?k \<le> zd_zone_count d * ?n * ?k" using z by (intro mult_le_mono1) simp
  then show fits: "z * ?n * ?k + length zeros \<le> length (zd_bytes d)"
    using ok by (simp add: zoned_ok_def zeros_def algebra_simps)
  assume "b div ?n \<noteq> z"
  moreover have "0 < ?n" using ok by (simp add: zoned_ok_def)
  ultimately have "b < z * ?n \<or> Suc z * ?n \<le> b"
    by (metis div_less_iff_less_mult less_eq_div_iff_mult_less_eq less_Suc_eq_le linorder_neqE_nat not_less)
  then have "Suc b * ?k \<le> z * ?n * ?k \<or> Suc z * ?n * ?k \<le> b * ?k"
    by (metis Suc_leI mult_le_mono1)
  then have "b * ?k + ?k \<le> z * ?n * ?k \<or> z * ?n * ?k + length zeros \<le> b * ?k"
    by (simp add: zeros_def algebra_simps)
  then show "slice (b * ?k) (b * ?k + ?k) (put_at (z * ?n * ?k) zeros (zd_bytes d)) = block_at d b"
    unfolding block_at_def using slice_put_at_other [OF fits] by blast
qed

text \<open>\<open>reset\<close> empties a sequential zone and touches no other block; \<open>finish\<close> seals one.\<close>

lemma reset_accepted:
  assumes ok: "zoned_ok d" and z: "z \<noteq> 0" "z < zd_zone_count d"
  obtains d' where "ZonedMemory_reset z d = (Inr (), d')" "zoned_ok d'" "same_shape d d'"
    "zd_written d' = (zd_written d)[z := 0]" "zd_sealed d' = (zd_sealed d)[z := False]"
    "\<forall>b. b div zd_zone_blocks d \<noteq> z \<longrightarrow> block_at d' b = block_at d b"
proof -
  let ?d' = "d\<lparr>zd_bytes := put_at (z * zd_zone_blocks d * zd_block_bytes d)
        (replicate (zd_zone_blocks d * zd_block_bytes d) 0) (zd_bytes d),
      zd_written := (zd_written d)[z := 0], zd_sealed := (zd_sealed d)[z := False],
      zd_counted := (zd_counted d)\<lparr>cnt_resets := cnt_resets (zd_counted d) + 1\<rparr>\<rparr>"
  have "z * zd_zone_blocks d < zd_zone_blocks d * zd_zone_count d"
    using zone_block_fits(1) [OF z(2), of 0 "zd_zone_blocks d"] ok by (simp add: zoned_ok_def)
  from span_eq [OF ok this] have res: "ZonedMemory_reset z d = (Inr (), ?d')"
    using z by (simp add: ZonedMemory_reset_def ZonedMemory_sequential_def ZonedMemory_kind_of_def
        ZonedMemory_start_of_def)
  have "zoned_ok ?d'"
    using ok z put_at_zone(1) [OF ok z(2)] by (auto simp: zoned_ok_def nth_list_update)
  moreover have "block_at ?d' b = block_at d b" if "b div zd_zone_blocks d \<noteq> z" for b
    using put_at_zone(2) [OF ok z(2) that] by (simp add: block_at_def)
  ultimately show ?thesis using that [OF res] by (simp add: same_shape_def)
qed

lemma sequential_refused:
  assumes "z = 0 \<or> z \<ge> zd_zone_count d"
  shows "ZonedMemory_reset z d = (Inl refusal_ADDRESS, d)" "ZonedMemory_finish z d = (Inl refusal_ADDRESS, d)"
  using assms
  by (auto simp: ZonedMemory_reset_def ZonedMemory_finish_def ZonedMemory_sequential_def ZonedMemory_kind_of_def)

lemma finish_accepted:
  assumes ok: "zoned_ok d" and z: "z \<noteq> 0" "z < zd_zone_count d"
  obtains d' where "ZonedMemory_finish z d = (Inr (), d')" "zoned_ok d'" "same_shape d d'"
    "zd_written d' = zd_written d" "zd_sealed d' = (zd_sealed d)[z := True]"
    "\<forall>b. block_at d' b = block_at d b"
  using assms
  by (auto simp: ZonedMemory_finish_def ZonedMemory_sequential_def ZonedMemory_kind_of_def zoned_ok_def
      same_shape_def block_at_def)

lemma flush_eq:
  assumes "zoned_ok d"
  obtains d' where "ZonedMemory_flush d = (Inr (), d')" "zoned_ok d'" "same_shape d d'"
    "zd_written d' = zd_written d" "zd_sealed d' = zd_sealed d" "\<forall>b. block_at d' b = block_at d b"
  using assms by (auto simp: ZonedMemory_flush_def zoned_ok_def same_shape_def block_at_def)

lemma write_eq:
  assumes ok: "zoned_ok d"
  shows "\<exists>d'. ZonedMemory_write b from d =
      (if length from = zd_block_bytes d \<and> b < zd_zone_blocks d \<and> 0 < zd_zone_count d
       then Inr () else Inl refusal_ADDRESS, d')
    \<and> zoned_ok d' \<and> same_shape d d' \<and> zd_written d' = zd_written d \<and> zd_sealed d' = zd_sealed d
    \<and> (\<forall>c. block_at d' c = (if length from = zd_block_bytes d \<and> b < zd_zone_blocks d \<and> 0 < zd_zone_count d
                            \<and> c = b then from else block_at d c))"
proof (cases "length from = zd_block_bytes d \<and> b < zd_zone_blocks d \<and> 0 < zd_zone_count d")
  case True
  then have b: "b < zd_zone_blocks d * zd_zone_count d" by (metis One_nat_def Suc_leI less_le_trans mult.right_neutral mult_le_mono2)
  have "b * zd_block_bytes d + length from \<le> length (zd_bytes d)" using block_fits [OF ok b] True by simp
  then show ?thesis
    using True b span_eq [OF ok b] block_at_put [OF ok b] ok zone_of_eq [OF ok, of b]
    by (auto simp: ZonedMemory_write_def ZonedMemory_kind_of_def same_shape_def zoned_ok_def block_at_def)
next
  case False
  then have "ZonedMemory_write b from d = (Inl refusal_ADDRESS, d)"
    using ok zone_of_eq [OF ok, of b]
    by (auto simp: ZonedMemory_write_def ZonedMemory_kind_of_def div_eq_0_iff zoned_ok_def split: option.splits)
  then show ?thesis using False ok by (auto simp: same_shape_def)
qed

end
