(* ===== verification/Ordered_Map.thy ===== *)
theory Ordered_Map
  imports Prelude
begin

text \<open>
  The ordered collections of the standard library that the storage sources use. A \<open>BTreeMap\<close> is its
  list of entries in ascending key order and a \<open>BTreeSet\<close> its list of elements; iteration is the
  list itself, so code that takes the first entry of some kind takes the one with the least key.
\<close>

type_synonym ('k, 'v) BTreeMap = "('k \<times> 'v) list"
type_synonym 'k BTreeSet = "'k list"

fun bt_insert :: "'k::linorder \<Rightarrow> 'v \<Rightarrow> ('k, 'v) BTreeMap \<Rightarrow> ('k, 'v) BTreeMap" where
  "bt_insert k v [] = [(k, v)]"
| "bt_insert k v ((k', v') # m) =
     (if k < k' then (k, v) # (k', v') # m
      else if k = k' then (k, v) # m else (k', v') # bt_insert k v m)"

definition bt_remove :: "'k \<Rightarrow> ('k, 'v) BTreeMap \<Rightarrow> ('k, 'v) BTreeMap" where
  "bt_remove k m = filter (\<lambda>(k', _). k' \<noteq> k) m"

text \<open>\<open>range(a..b)\<close>, and the map of values in place.\<close>

definition bt_range :: "'k::linorder \<Rightarrow> 'k \<Rightarrow> ('k, 'v) BTreeMap \<Rightarrow> ('k, 'v) BTreeMap" where
  "bt_range a b m = filter (\<lambda>(k, _). a \<le> k \<and> k < b) m"

definition bt_map :: "('v \<Rightarrow> 'w) \<Rightarrow> ('k, 'v) BTreeMap \<Rightarrow> ('k, 'w) BTreeMap" where
  "bt_map f m = map (\<lambda>(k, v). (k, f v)) m"

text \<open>\<open>BTreeSet::insert\<close> and \<open>remove\<close>; their answers say whether the set changed.\<close>

fun bs_insert :: "'k::linorder \<Rightarrow> 'k BTreeSet \<Rightarrow> 'k BTreeSet" where
  "bs_insert k [] = [k]"
| "bs_insert k (k' # s) = (if k < k' then k # k' # s else if k = k' then k' # s else k' # bs_insert k s)"

definition bs_remove :: "'k \<Rightarrow> 'k BTreeSet \<Rightarrow> 'k BTreeSet" where
  "bs_remove k s = filter (\<lambda>k'. k' \<noteq> k) s"

abbreviation bt_ok :: "('k::linorder, 'v) BTreeMap \<Rightarrow> bool" where
  "bt_ok m \<equiv> sorted_wrt (<) (map fst m)"

subsection \<open>Lookup\<close>

lemma map_of_bt_insert [simp]: "map_of (bt_insert k v m) = (map_of m)(k \<mapsto> v)"
  by (induction m) (auto simp: fun_eq_iff)

lemma map_of_bt_remove [simp]: "map_of (bt_remove k m) = (map_of m)(k := None)"
  by (induction m) (auto simp: bt_remove_def fun_eq_iff)

lemma map_of_filter_fst: "map_of (filter (\<lambda>(k, _). P k) m) k = (if P k then map_of m k else None)"
  by (induction m) auto

lemma map_of_bt_range: "map_of (bt_range a b m) k = (if a \<le> k \<and> k < b then map_of m k else None)"
  unfolding bt_range_def by (rule map_of_filter_fst)

lemma map_of_bt_map [simp]: "map_of (bt_map f m) k = map_option f (map_of m k)"
  by (induction m) (auto simp: bt_map_def)

lemma set_bt_insert: "fst ` set (bt_insert k v m) = insert k (fst ` set m)"
  by (induction k v m rule: bt_insert.induct) (simp_all add: insert_commute)

lemma set_bs_insert [simp]: "set (bs_insert k s) = insert k (set s)"
  by (induction s) auto

lemma set_bs_remove [simp]: "set (bs_remove k s) = set s - {k}"
  by (auto simp: bs_remove_def)

subsection \<open>Order\<close>

lemma bt_ok_insert [simp]: "bt_ok m \<Longrightarrow> bt_ok (bt_insert k v m)"
proof (induction m)
  case (Cons e m)
  obtain k' v' where e: "e = (k', v')" by fastforce
  have "\<forall>x\<in>fst ` set m. k' < x" "bt_ok m" using Cons.prems by (simp_all add: e)
  then show ?case
    using Cons.IH set_bt_insert [of k v m] by (auto simp: e dest: bspec)
qed simp

lemma bt_ok_filter: "bt_ok m \<Longrightarrow> bt_ok (filter P m)"
  by (induction m) auto

lemma bt_ok_remove [simp]: "bt_ok m \<Longrightarrow> bt_ok (bt_remove k m)"
  unfolding bt_remove_def by (rule bt_ok_filter)

lemma bt_ok_range [simp]: "bt_ok m \<Longrightarrow> bt_ok (bt_range a b m)"
  unfolding bt_range_def by (rule bt_ok_filter)

lemma map_fst_bt_map [simp]: "map fst (bt_map f m) = map fst m"
  by (induction m) (auto simp: bt_map_def)

lemma bt_ok_distinct: "bt_ok m \<Longrightarrow> distinct (map fst m)"
  by (induction m) auto

lemma bt_mem_iff: "bt_ok m \<Longrightarrow> (k, v) \<in> set m \<longleftrightarrow> map_of m k = Some v"
  using bt_ok_distinct by (metis map_of_eq_Some_iff)

lemma bs_ok_insert: "sorted_wrt (<) s \<Longrightarrow> sorted_wrt (<) (bs_insert k s)"
  by (induction s) auto

lemma bs_ok_remove: "sorted_wrt (<) s \<Longrightarrow> sorted_wrt (<) (bs_remove k s)"
  unfolding bs_remove_def by (rule sorted_wrt_filter)

lemma strict_sorted_distinct: "sorted_wrt (<) s \<Longrightarrow> distinct (s :: 'k::linorder list)"
  by (induction s) auto

end
