(* ===== verification/Zone_Map.thy ===== *)
theory Zone_Map
  imports Zone_Device Ordered_Map
begin

text \<open>
  The mapping, from \<open>src/zone/src/map.rs\<close>: a flat space of logical blocks over the zones of a device,
  with one level of indirection so that the collector can move a block without moving its name.
  The device is the zoned memory of \<open>Zone_Device\<close>, which is the one the sources give the map.
\<close>

datatype State = State_Free | State_Open | State_Sealed | State_Condemned

record Zone =
  zn_zone :: nat
  zn_state :: State
  zn_live_bytes :: nat
  zn_reads_outstanding :: u32

record ZoneMap =
  zm_device :: ZonedMemory
  zm_zone_blocks :: nat
  zm_data_from :: nat
  zm_physical :: "(nat, nat) BTreeMap"
  zm_logical :: "(nat, nat) BTreeMap"
  zm_zones :: "(nat, Zone) BTreeMap"
  zm_open :: "nat option"
  zm_copies :: "(nat, nat) BTreeMap"

definition Zone_fresh :: "nat \<Rightarrow> State \<Rightarrow> Zone" where
  "Zone_fresh zone state =
     \<lparr>zn_zone = zone, zn_state = state, zn_live_bytes = 0, zn_reads_outstanding = 0\<rparr>"

definition ZoneMap_new :: "ZonedMemory \<Rightarrow> nat \<Rightarrow> i32 + ZoneMap" where
  "ZoneMap_new device data_from =
     (if data_from = 0 \<or> data_from \<ge> zd_zone_count device then Inl refusal_MALFORMED
      else if zd_zone_blocks device = 0 then Inl refusal_MALFORMED
      else Inr \<lparr>zm_device = device, zm_zone_blocks = zd_zone_blocks device, zm_data_from = data_from,
        zm_physical = bt_insert 0 0 [], zm_logical = bt_insert 0 0 [],
        zm_zones = fold (\<lambda>zone. bt_insert zone (Zone_fresh zone State_Free)) [data_from..<zd_zone_count device] [],
        zm_open = None, zm_copies = []\<rparr>)"

definition remount_block :: "nat \<Rightarrow> nat \<times> ZoneMap \<Rightarrow> nat \<times> ZoneMap" where
  "remount_block at = (\<lambda>(logical, m).
     (logical + 1, m\<lparr>zm_physical := bt_insert logical at (zm_physical m),
                     zm_logical := bt_insert at logical (zm_logical m)\<rparr>))"

fun remount_zones :: "nat list \<Rightarrow> nat \<times> ZoneMap \<Rightarrow> i32 + ZoneMap" where
  "remount_zones [] st = Inr (snd st)"
| "remount_zones (zone # zones) st =
     and_then (ZonedMemory_report zone (zm_device (snd st))) (\<lambda>report.
       case fold remount_block [rep_start report..<rep_write_pointer report] st of
         (logical, m) \<Rightarrow>
           remount_zones zones
             (logical,
              if rep_write_pointer report > rep_start report
              then m\<lparr>zm_zones := bt_insert zone (Zone_fresh zone State_Sealed) (zm_zones m)\<rparr> else m))"

definition ZoneMap_remount :: "ZonedMemory \<Rightarrow> nat \<Rightarrow> i32 + ZoneMap" where
  "ZoneMap_remount device data_from =
     and_then (ZoneMap_new device data_from) (\<lambda>m.
       remount_zones [data_from..<zd_zone_count (zm_device m)] (1, m))"

definition ZoneMap_zones_free :: "ZoneMap \<Rightarrow> nat" where
  "ZoneMap_zones_free m = length (filter (\<lambda>(_, zone). zn_state zone = State_Free) (zm_zones m))"

definition ZoneMap_physical :: "ZoneMap \<Rightarrow> nat \<Rightarrow> nat option" where
  "ZoneMap_physical m logical = map_of (zm_physical m) logical"

definition ZoneMap_zone_of :: "ZoneMap \<Rightarrow> nat \<Rightarrow> nat option" where
  "ZoneMap_zone_of m logical =
     (case ZoneMap_physical m logical of
        None \<Rightarrow> None
      | Some block \<Rightarrow>
          let zone = block div zm_zone_blocks m in if zone < 2 ^ 32 then Some zone else None)"

definition ZoneMap_holds :: "ZoneMap \<Rightarrow> nat \<Rightarrow> nat list" where
  "ZoneMap_holds m zone =
     (let start = zone * zm_zone_blocks m in map snd (bt_range start (start + zm_zone_blocks m) (zm_logical m)))"

text \<open>\<open>get_mut\<close> on the zones, with the refusal the methods share.\<close>

definition zone_get_mut :: "nat \<Rightarrow> (Zone \<Rightarrow> i32 + Zone) \<Rightarrow> ZoneMap \<Rightarrow> (i32 + unit) \<times> ZoneMap" where
  "zone_get_mut zone f m =
     (case map_of (zm_zones m) zone of
        None \<Rightarrow> (Inl refusal_ADDRESS, m)
      | Some held \<Rightarrow>
          (case f held of
             Inl e \<Rightarrow> (Inl e, m)
           | Inr held \<Rightarrow> (Inr (), m\<lparr>zm_zones := bt_insert zone held (zm_zones m)\<rparr>)))"

definition ZoneMap_hold_read :: "nat \<Rightarrow> ZoneMap \<Rightarrow> (i32 + unit) \<times> ZoneMap" where
  "ZoneMap_hold_read zone =
     zone_get_mut zone (\<lambda>held. Inr (held\<lparr>zn_reads_outstanding := zn_reads_outstanding held + 1\<rparr>))"

definition ZoneMap_release_read :: "nat \<Rightarrow> ZoneMap \<Rightarrow> (i32 + unit) \<times> ZoneMap" where
  "ZoneMap_release_read zone =
     zone_get_mut zone (\<lambda>held. and_then (ok_or (checked_sub (zn_reads_outstanding held) 1) refusal_ADDRESS)
       (\<lambda>left. Inr (held\<lparr>zn_reads_outstanding := left\<rparr>)))"

definition ZoneMap_set_live_bytes :: "nat \<Rightarrow> nat \<Rightarrow> ZoneMap \<Rightarrow> (i32 + unit) \<times> ZoneMap" where
  "ZoneMap_set_live_bytes zone bytes = zone_get_mut zone (\<lambda>held. Inr (held\<lparr>zn_live_bytes := bytes\<rparr>))"

definition ZoneMap_condemn :: "nat \<Rightarrow> ZoneMap \<Rightarrow> (i32 + unit) \<times> ZoneMap" where
  "ZoneMap_condemn zone =
     zone_get_mut zone (\<lambda>held. if zn_state held \<noteq> State_Sealed then Inl refusal_MALFORMED
       else Inr (held\<lparr>zn_state := State_Condemned\<rparr>))"

text \<open>A call on the device under the map.\<close>

definition on_device ::
  "(ZonedMemory \<Rightarrow> (i32 + 'a) \<times> ZonedMemory) \<Rightarrow> ZoneMap \<Rightarrow> (i32 + 'a) \<times> ZoneMap" where
  "on_device f m = (case f (zm_device m) of (r, d) \<Rightarrow> (r, m\<lparr>zm_device := d\<rparr>))"

definition set_state :: "nat \<Rightarrow> State \<Rightarrow> ZoneMap \<Rightarrow> ZoneMap" where
  "set_state zone state m =
     (case map_of (zm_zones m) zone of
        None \<Rightarrow> m
      | Some held \<Rightarrow> m\<lparr>zm_zones := bt_insert zone (held\<lparr>zn_state := state\<rparr>) (zm_zones m)\<rparr>)"

definition seal_open :: "ZoneMap \<Rightarrow> (i32 + unit) \<times> ZoneMap" where
  "seal_open m =
     (case zm_open m of
        None \<Rightarrow> (Inr (), m)
      | Some open \<Rightarrow>
          try_then (on_device (ZonedMemory_finish open) (m\<lparr>zm_open := None\<rparr>))
            (\<lambda>_ m. (Inr (), set_state open State_Sealed m)))"

definition ZoneMap_open_zone :: "ZoneMap \<Rightarrow> (i32 + nat) \<times> ZoneMap" where
  "ZoneMap_open_zone m =
     try_then (seal_open m) (\<lambda>_ m.
       case List.find (\<lambda>(_, zone). zn_state zone = State_Free) (zm_zones m) of
         None \<Rightarrow> (Inl refusal_FULL, m)
       | Some (_, zone) \<Rightarrow>
           (Inr (zn_zone zone), (set_state (zn_zone zone) State_Open m)\<lparr>zm_open := Some (zn_zone zone)\<rparr>))"

definition ZoneMap_append_reserved :: "nat \<Rightarrow> u8 list \<Rightarrow> ZoneMap \<Rightarrow> (i32 + nat) \<times> ZoneMap" where
  "ZoneMap_append_reserved zone from m =
     (if zone = 0 \<or> zone \<ge> zm_data_from m then (Inl refusal_ADDRESS, m)
      else on_device (ZonedMemory_append zone from) m)"

definition append_open :: "u8 list \<Rightarrow> ZoneMap \<Rightarrow> (i32 + nat) \<times> ZoneMap" where
  "append_open from m =
     (case zm_open m of
        None \<Rightarrow> (Inl refusal_FULL, m)
      | Some open \<Rightarrow>
          (case on_device (ZonedMemory_append open from) m of
             (Inl full, m) \<Rightarrow>
               if full = refusal_FULL
               then try_then (ZoneMap_open_zone m) (\<lambda>next m. on_device (ZonedMemory_append next from) m)
               else (Inl full, m)
           | (Inr at, m) \<Rightarrow> (Inr at, m)))"

definition ZoneMap_append_somewhere :: "u8 list \<Rightarrow> ZoneMap \<Rightarrow> (i32 + nat) \<times> ZoneMap" where
  "ZoneMap_append_somewhere from m =
     (if zm_open m = None then try_then (ZoneMap_open_zone m) (\<lambda>_ m. append_open from m)
      else append_open from m)"

definition ZoneMap_copy_forward :: "nat \<Rightarrow> ZoneMap \<Rightarrow> (i32 + nat) \<times> ZoneMap" where
  "ZoneMap_copy_forward logical m =
     (case map_of (zm_physical m) logical of
        None \<Rightarrow> (Inl refusal_ADDRESS, m)
      | Some from \<Rightarrow>
          try_then (on_device (ZonedMemory_read from (zd_block_bytes (zm_device m))) m) (\<lambda>block m.
            try_then (ZoneMap_append_somewhere block m) (\<lambda>to m.
              (Inr to, m\<lparr>zm_copies := bt_insert logical to (zm_copies m)\<rparr>))))"

definition commit_copy :: "nat \<times> nat \<Rightarrow> ZoneMap \<Rightarrow> ZoneMap" where
  "commit_copy = (\<lambda>(logical, to) m.
     let m' = m\<lparr>zm_physical := bt_insert logical to (zm_physical m),
       zm_logical := (case map_of (zm_physical m) logical of
          Some from \<Rightarrow> bt_remove from (zm_logical m) | None \<Rightarrow> zm_logical m)\<rparr>
     in m'\<lparr>zm_logical := bt_insert to logical (zm_logical m')\<rparr>)"

definition ZoneMap_commit_copies :: "ZoneMap \<Rightarrow> (i32 + nat) \<times> ZoneMap" where
  "ZoneMap_commit_copies m =
     (if zm_copies m = [] then (Inr 0, m)
      else try_then (on_device ZonedMemory_flush m) (\<lambda>_ m.
        let done = zm_copies m in
        (Inr (length done), fold commit_copy done (m\<lparr>zm_copies := []\<rparr>))))"

definition forget_block :: "nat \<times> nat \<Rightarrow> ZoneMap \<Rightarrow> ZoneMap" where
  "forget_block = (\<lambda>(block, logical) m.
     m\<lparr>zm_logical := bt_remove block (zm_logical m), zm_physical := bt_remove logical (zm_physical m)\<rparr>)"

definition ZoneMap_recycle :: "nat \<Rightarrow> ZoneMap \<Rightarrow> (i32 + unit) \<times> ZoneMap" where
  "ZoneMap_recycle zone m =
     (case map_of (zm_zones m) zone of
        None \<Rightarrow> (Inl refusal_ADDRESS, m)
      | Some held \<Rightarrow>
          if zn_state held \<noteq> State_Condemned \<or> zm_copies m \<noteq> [] then (Inl refusal_MALFORMED, m)
          else
            let start = zone * zm_zone_blocks m;
                stale = bt_range start (start + zm_zone_blocks m) (zm_logical m)
            in try_then (on_device (ZonedMemory_reset zone) m) (\<lambda>_ m.
              let m = fold forget_block stale m in
              (Inr (), m\<lparr>zm_zones := bt_insert zone (Zone_fresh zone State_Free) (zm_zones m)\<rparr>)))"

text \<open>The map as a block device.\<close>

definition ZoneMap_blocks :: "ZoneMap \<Rightarrow> nat" where
  "ZoneMap_blocks m = 1 + (zd_zone_count (zm_device m) - zm_data_from m) * zm_zone_blocks m"

definition ZoneMap_read :: "nat \<Rightarrow> nat \<Rightarrow> ZoneMap \<Rightarrow> (i32 + u8 list) \<times> ZoneMap" where
  "ZoneMap_read block into_len m =
     (case map_of (zm_physical m) block of
        None \<Rightarrow> (Inl refusal_ADDRESS, m)
      | Some at \<Rightarrow> on_device (ZonedMemory_read at into_len) m)"

definition ZoneMap_write :: "nat \<Rightarrow> u8 list \<Rightarrow> ZoneMap \<Rightarrow> (i32 + unit) \<times> ZoneMap" where
  "ZoneMap_write block from m =
     (case map_of (zm_physical m) block of
        Some at \<Rightarrow>
          (let zone = at div zm_zone_blocks m in
           if zone \<ge> 2 ^ 32 \<or> ZonedMemory_kind_of zone \<noteq> Conventional then (Inl refusal_ADDRESS, m)
           else on_device (ZonedMemory_write at from) m)
      | None \<Rightarrow>
          try_then (ZoneMap_append_somewhere from m) (\<lambda>at m.
            (Inr (), m\<lparr>zm_physical := bt_insert block at (zm_physical m),
                       zm_logical := bt_insert at block (zm_logical m)\<rparr>)))"

definition ZoneMap_flush :: "ZoneMap \<Rightarrow> (i32 + unit) \<times> ZoneMap" where
  "ZoneMap_flush = on_device ZonedMemory_flush"

definition placed :: "ZoneMap \<Rightarrow> nat BTreeSet" where
  "placed m = map fst (zm_physical m)"

end
