(* ===== verification/Zone_Map_Inv.thy ===== *)
theory Zone_Map_Inv
  imports Zone_Map
begin

text \<open>
  What holds of a zone map after every operation, and the store of logical blocks it implements:
  \<open>contents m l\<close> is what a read of logical block \<open>l\<close> answers. Each operation is shown to keep the
  invariant \<open>map_ok\<close> and to change the contents as its contract says.
\<close>

text \<open>A physical block of a data zone that is at or below what the zone was filled or sealed to.\<close>

definition claimed :: "ZoneMap \<Rightarrow> nat \<Rightarrow> bool" where
  "claimed m p \<longleftrightarrow> (let d = zm_device m; z = p div zd_zone_blocks d in
     zm_data_from m \<le> z \<and> z < zd_zone_count d \<and> (p mod zd_zone_blocks d < zd_written d ! z \<or> zd_sealed d ! z))"

definition shape_ok :: "ZoneMap \<Rightarrow> bool" where
  "shape_ok m \<longleftrightarrow> zoned_ok (zm_device m) \<and> zm_zone_blocks m = zd_zone_blocks (zm_device m)
     \<and> 0 < zm_data_from m \<and> zm_data_from m < zd_zone_count (zm_device m)
     \<and> bt_ok (zm_physical m) \<and> bt_ok (zm_logical m) \<and> bt_ok (zm_zones m) \<and> bt_ok (zm_copies m)"

definition zone_ok :: "ZoneMap \<Rightarrow> nat \<Rightarrow> Zone \<Rightarrow> bool" where
  "zone_ok m z e \<longleftrightarrow> zn_zone e = z
     \<and> (zn_state e = State_Free \<longrightarrow> zd_written (zm_device m) ! z = 0)
     \<and> (zn_state e = State_Free \<or> zn_state e = State_Open \<longrightarrow> \<not> zd_sealed (zm_device m) ! z)
     \<and> (zn_state e = State_Open \<longleftrightarrow> zm_open m = Some z)"

definition zones_ok :: "ZoneMap \<Rightarrow> bool" where
  "zones_ok m \<longleftrightarrow> dom (map_of (zm_zones m)) = {zm_data_from m..<zd_zone_count (zm_device m)}
     \<and> (\<forall>z e. map_of (zm_zones m) z = Some e \<longrightarrow> zone_ok m z e)
     \<and> (\<forall>z. zm_open m = Some z \<longrightarrow> zm_data_from m \<le> z \<and> z < zd_zone_count (zm_device m))"

definition placed_ok :: "ZoneMap \<Rightarrow> bool" where
  "placed_ok m \<longleftrightarrow>
     (\<forall>l p. map_of (zm_physical m) l = Some p \<longleftrightarrow> map_of (zm_logical m) p = Some l)
     \<and> (\<forall>l p. map_of (zm_physical m) l = Some p \<longrightarrow> p = 0 \<and> l = 0 \<or> claimed m p)"

definition copy_ok :: "ZoneMap \<Rightarrow> nat \<Rightarrow> nat \<Rightarrow> bool" where
  "copy_ok m l to \<longleftrightarrow> claimed m to \<and> readable (zm_device m) to \<and> map_of (zm_logical m) to = None
     \<and> (\<exists>from. map_of (zm_physical m) l = Some from \<and> from \<noteq> 0 \<and> readable (zm_device m) from
             \<and> block_at (zm_device m) to = block_at (zm_device m) from)"

definition copies_ok :: "ZoneMap \<Rightarrow> bool" where
  "copies_ok m \<longleftrightarrow> (\<forall>l to. map_of (zm_copies m) l = Some to \<longrightarrow> copy_ok m l to)
     \<and> (\<forall>l l' to. map_of (zm_copies m) l = Some to \<longrightarrow> map_of (zm_copies m) l' = Some to \<longrightarrow> l = l')"

definition map_ok :: "ZoneMap \<Rightarrow> bool" where
  "map_ok m \<longleftrightarrow> shape_ok m \<and> zones_ok m \<and> placed_ok m \<and> copies_ok m"

definition contents :: "ZoneMap \<Rightarrow> nat \<Rightarrow> u8 list option" where
  "contents m l =
     (case map_of (zm_physical m) l of
        None \<Rightarrow> None
      | Some p \<Rightarrow> if readable (zm_device m) p then Some (block_at (zm_device m) p) else None)"

text \<open>What the operations that move no name keep.\<close>

definition map_keeps :: "ZoneMap \<Rightarrow> ZoneMap \<Rightarrow> bool" where
  "map_keeps m m' \<longleftrightarrow> map_ok m' \<and> contents m' = contents m
     \<and> zm_physical m' = zm_physical m \<and> zm_logical m' = zm_logical m \<and> zm_copies m' = zm_copies m
     \<and> zm_data_from m' = zm_data_from m \<and> same_shape (zm_device m) (zm_device m')
     \<and> (\<forall>p. claimed m p \<longrightarrow> claimed m' p)"

lemma map_keeps_refl: "map_ok m \<Longrightarrow> map_keeps m m"
  by (simp add: map_keeps_def same_shape_def)

lemma map_keeps_trans: "map_keeps m m' \<Longrightarrow> map_keeps m' m'' \<Longrightarrow> map_keeps m m''"
  by (simp add: map_keeps_def same_shape_def)

subsection \<open>A new map\<close>

lemma Zone_fresh_simps [simp]:
  "zn_zone (Zone_fresh z s) = z" "zn_state (Zone_fresh z s) = s" "zn_reads_outstanding (Zone_fresh z s) = 0"
  "zn_live_bytes (Zone_fresh z s) = 0"
  by (simp_all add: Zone_fresh_def)

lemma map_of_fresh_zones:
  "map_of (fold (\<lambda>zone. bt_insert zone (Zone_fresh zone s)) zs acc) z
     = (if z \<in> set zs then Some (Zone_fresh z s) else map_of acc z)"
  by (induction zs arbitrary: acc) auto

lemma bt_ok_fresh_zones: "bt_ok acc \<Longrightarrow> bt_ok (fold (\<lambda>zone. bt_insert zone (Zone_fresh zone s)) zs acc)"
  by (induction zs arbitrary: acc) auto

lemma new_ok:
  assumes "zoned_ok d" "ZoneMap_new d df = Inr m"
    "\<And>z. df \<le> z \<Longrightarrow> z < zd_zone_count d \<Longrightarrow> zd_written d ! z = 0 \<and> \<not> zd_sealed d ! z"
  shows "map_ok m \<and> contents m = [0 \<mapsto> block_at d 0]"
proof -
  have df: "0 < df" "df < zd_zone_count d"
    and m: "m = \<lparr>zm_device = d, zm_zone_blocks = zd_zone_blocks d, zm_data_from = df,
        zm_physical = bt_insert 0 0 [], zm_logical = bt_insert 0 0 [],
        zm_zones = fold (\<lambda>zone. bt_insert zone (Zone_fresh zone State_Free)) [df..<zd_zone_count d] [],
        zm_open = None, zm_copies = []\<rparr>"
    using assms(2) by (auto simp: ZoneMap_new_def split: if_splits)
  have "shape_ok m" using assms(1) df by (simp add: shape_ok_def m bt_ok_fresh_zones)
  moreover have "zones_ok m"
    using assms(3) by (auto simp: zones_ok_def zone_ok_def m map_of_fresh_zones split: if_splits)
  moreover have "placed_ok m" by (auto simp: placed_ok_def m)
  moreover have "copies_ok m" by (simp add: copies_ok_def m)
  moreover have "readable d 0" using assms(1) df by (simp add: readable_def zoned_ok_def)
  then have "contents m = [0 \<mapsto> block_at d 0]" by (auto simp: contents_def m)
  ultimately show ?thesis by (simp add: map_ok_def)
qed

subsection \<open>Calls on the device that change no block in use\<close>

lemma claimed_cong:
  "same_shape (zm_device m) (zm_device m') \<Longrightarrow> zd_written (zm_device m') = zd_written (zm_device m) \<Longrightarrow>
   zd_sealed (zm_device m') = zd_sealed (zm_device m) \<Longrightarrow> zm_data_from m' = zm_data_from m \<Longrightarrow>
   claimed m' p = claimed m p"
  by (simp add: claimed_def same_shape_def Let_def)

lemma readable_cong:
  "same_shape d d' \<Longrightarrow> zd_written d' = zd_written d \<Longrightarrow> readable d' p = readable d p"
  by (simp add: readable_def same_shape_def)

text \<open>Filling and sealing zones disturbs nothing as long as the blocks in use stay as they are.\<close>

lemma grow_keeps:
  assumes ok: "map_ok m"
    and same: "zm_physical m' = zm_physical m" "zm_logical m' = zm_logical m" "zm_copies m' = zm_copies m"
      "zm_data_from m' = zm_data_from m" "zm_zone_blocks m' = zm_zone_blocks m"
    and dev: "zoned_ok (zm_device m')" "same_shape (zm_device m) (zm_device m')"
    and zones: "bt_ok (zm_zones m')" "zones_ok m'"
    and claims: "\<And>p. claimed m p \<Longrightarrow> claimed m' p"
    and blocks: "\<And>p. p = 0 \<or> claimed m p \<Longrightarrow>
      readable (zm_device m') p = readable (zm_device m) p \<and> block_at (zm_device m') p = block_at (zm_device m) p"
  shows "map_keeps m m'"
proof -
  have used: "p = 0 \<or> claimed m p" if "map_of (zm_physical m) l = Some p" for l p
    using ok that by (auto simp: map_ok_def placed_ok_def)
  have "shape_ok m'" using ok same dev zones by (simp add: map_ok_def shape_ok_def same_shape_def)
  moreover have "placed_ok m'"
    using ok claims unfolding map_ok_def placed_ok_def same by blast
  moreover have "copy_ok m' l to" if "map_of (zm_copies m) l = Some to" for l to
  proof -
    have "copy_ok m l to" using ok that by (simp add: map_ok_def copies_ok_def)
    then show ?thesis unfolding copy_ok_def same using claims blocks used by metis
  qed
  then have "copies_ok m'" using ok same by (simp add: map_ok_def copies_ok_def)
  moreover have "contents m' l = contents m l" for l
    using used [of l] blocks by (auto simp: contents_def same split: option.splits)
  ultimately show ?thesis using same dev zones claims by (simp add: map_keeps_def map_ok_def fun_eq_iff)
qed

lemma device_unchanged:
  assumes ok: "map_ok m" and d': "zoned_ok d'" "same_shape (zm_device m) d'"
    "zd_written d' = zd_written (zm_device m)" "zd_sealed d' = zd_sealed (zm_device m)"
    "\<And>p. block_at d' p = block_at (zm_device m) p"
  shows "map_keeps m (m\<lparr>zm_device := d'\<rparr>)"
proof (rule grow_keeps [OF ok])
  show "zones_ok (m\<lparr>zm_device := d'\<rparr>)"
    using ok d' by (simp add: map_ok_def zones_ok_def zone_ok_def same_shape_def)
  show "bt_ok (zm_zones (m\<lparr>zm_device := d'\<rparr>))" using ok by (simp add: map_ok_def shape_ok_def)
  show "claimed m p \<Longrightarrow> claimed (m\<lparr>zm_device := d'\<rparr>) p" for p
    using claimed_cong [of m "m\<lparr>zm_device := d'\<rparr>" p] d' by simp
qed (use d' readable_cong in auto)

lemma read_keeps:
  assumes ok: "map_ok m"
  shows "\<exists>m'. ZoneMap_read b n m =
      (if n = zd_block_bytes (zm_device m)
       then case contents m b of Some x \<Rightarrow> Inr x | None \<Rightarrow> Inl refusal_ADDRESS
       else Inl refusal_ADDRESS, m') \<and> map_keeps m m' \<and> zm_zones m' = zm_zones m \<and> zm_open m' = zm_open m"
proof (cases "map_of (zm_physical m) b")
  case None
  then show ?thesis using map_keeps_refl [OF ok] by (simp add: ZoneMap_read_def contents_def)
next
  case (Some p)
  have d: "zoned_ok (zm_device m)" using ok by (simp add: map_ok_def shape_ok_def)
  let ?d = "zm_device m"
  let ?d' = "?d\<lparr>zd_counted := (zd_counted ?d)\<lparr>cnt_read_bytes := cnt_read_bytes (zd_counted ?d) + of_nat (zd_block_bytes ?d)\<rparr>\<rparr>"
  have "map_keeps m (m\<lparr>zm_device := ?d'\<rparr>)"
    using d by (intro device_unchanged [OF ok]) (simp_all add: zoned_ok_def same_shape_def block_at_def)
  moreover have "m\<lparr>zm_device := ?d\<rparr> = m" by simp
  ultimately show ?thesis
    using Some read_eq [OF d, of p n] map_keeps_refl [OF ok]
    by (cases "n = zd_block_bytes ?d \<and> readable ?d p")
      (auto simp: ZoneMap_read_def on_device_def contents_def)
qed

lemma flush_keeps:
  assumes "map_ok m"
  obtains m' where "on_device ZonedMemory_flush m = (Inr (), m')" "map_keeps m m'" "zm_zones m' = zm_zones m"
    "zm_open m' = zm_open m"
proof -
  have "zoned_ok (zm_device m)" using assms by (simp add: map_ok_def shape_ok_def)
  from flush_eq [OF this] obtain d' where "ZonedMemory_flush (zm_device m) = (Inr (), d')" "zoned_ok d'"
    "same_shape (zm_device m) d'" "zd_written d' = zd_written (zm_device m)"
    "zd_sealed d' = zd_sealed (zm_device m)" "\<forall>b. block_at d' b = block_at (zm_device m) b" .
  then show thesis using that [of "m\<lparr>zm_device := d'\<rparr>"] device_unchanged [OF assms] by (simp add: on_device_def)
qed

subsection \<open>The records of the zones\<close>

lemma zone_update_keeps:
  assumes ok: "map_ok m" and e: "map_of (zm_zones m) z = Some e" "zn_zone e' = zn_zone e"
    "zn_state e' = zn_state e \<or> zn_state e = State_Sealed \<and> zn_state e' = State_Condemned"
  shows "map_keeps m (m\<lparr>zm_zones := bt_insert z e' (zm_zones m)\<rparr>)"
proof (rule grow_keeps [OF ok])
  let ?m = "m\<lparr>zm_zones := bt_insert z e' (zm_zones m)\<rparr>"
  have z: "zones_ok m" using ok by (simp add: map_ok_def)
  have "zone_ok m z e" using z e(1) by (simp add: zones_ok_def)
  then have "zone_ok ?m z e'" using e by (auto simp: zone_ok_def)
  moreover have "z \<in> dom (map_of (zm_zones m))" using e(1) by blast
  ultimately show "zones_ok ?m"
    using z by (auto simp: zones_ok_def zone_ok_def split: if_splits)
  show "bt_ok (zm_zones ?m)" using ok by (simp add: map_ok_def shape_ok_def)
qed (use ok in \<open>auto simp: map_ok_def shape_ok_def same_shape_def claimed_def\<close>)

lemma zone_get_mut_keeps:
  assumes ok: "map_ok m"
    and f: "\<And>e e'. f e = Inr e' \<Longrightarrow> zn_zone e' = zn_zone e
      \<and> (zn_state e' = zn_state e \<or> zn_state e = State_Sealed \<and> zn_state e' = State_Condemned)"
  shows "map_keeps m (snd (zone_get_mut z f m))"
  using map_keeps_refl [OF ok] zone_update_keeps [OF ok] f
  by (auto simp: zone_get_mut_def split: option.splits sum.splits)

lemma zone_records_keep:
  assumes "map_ok m"
  shows "map_keeps m (snd (ZoneMap_hold_read z m))" "map_keeps m (snd (ZoneMap_release_read z m))"
    "map_keeps m (snd (ZoneMap_set_live_bytes z n m))" "map_keeps m (snd (ZoneMap_condemn z m))"
  unfolding ZoneMap_hold_read_def ZoneMap_release_read_def ZoneMap_set_live_bytes_def ZoneMap_condemn_def
  by (rule zone_get_mut_keeps [OF assms]; auto simp: and_then_Inr_iff split: if_splits)+

subsection \<open>Opening a zone and appending\<close>

text \<open>Zones that are full or waiting to be recycled keep their records.\<close>

definition zones_kept :: "ZoneMap \<Rightarrow> ZoneMap \<Rightarrow> bool" where
  "zones_kept m m' \<longleftrightarrow> (\<forall>z e. map_of (zm_zones m) z = Some e \<longrightarrow>
     zn_state e = State_Sealed \<or> zn_state e = State_Condemned \<longrightarrow> map_of (zm_zones m') z = Some e)"

lemma zones_kept_refl: "zones_kept m m"
  by (simp add: zones_kept_def)

lemma zones_kept_trans: "zones_kept m m' \<Longrightarrow> zones_kept m' m'' \<Longrightarrow> zones_kept m m''"
  by (simp add: zones_kept_def)

definition free_zone :: "ZoneMap \<Rightarrow> nat \<Rightarrow> bool" where
  "free_zone m z \<longleftrightarrow> (\<exists>e. map_of (zm_zones m) z = Some e \<and> zn_state e = State_Free)"

lemma seal_open_ok:
  assumes ok: "map_ok m"
  obtains m' where "seal_open m = (Inr (), m')" "map_keeps m m'" "zm_open m' = None" "zones_kept m m'"
    "\<forall>z. free_zone m' z = free_zone m z"
proof (cases "zm_open m")
  case None
  then show ?thesis using that [of m] map_keeps_refl [OF ok] zones_kept_refl by (simp add: seal_open_def)
next
  case (Some z)
  let ?d = "zm_device m"
  have zones: "zones_ok m" and shape: "shape_ok m" using ok by (simp_all add: map_ok_def)
  have z: "zm_data_from m \<le> z" "z < zd_zone_count ?d" using zones Some by (simp_all add: zones_ok_def)
  then have "z \<in> dom (map_of (zm_zones m))" using zones by (simp add: zones_ok_def)
  then obtain e where e: "map_of (zm_zones m) z = Some e" by blast
  have eo: "zn_state e = State_Open" using zones e Some by (auto simp: zones_ok_def zone_ok_def)
  have "z \<noteq> 0" "zoned_ok ?d" using shape z by (auto simp: shape_ok_def)
  from finish_accepted [OF this(2,1) z(2)] obtain d' where
    d': "ZonedMemory_finish z ?d = (Inr (), d')" "zoned_ok d'" "same_shape ?d d'" "zd_written d' = zd_written ?d"
      "zd_sealed d' = (zd_sealed ?d)[z := True]" "\<forall>b. block_at d' b = block_at ?d b" .
  let ?m = "m\<lparr>zm_open := None, zm_device := d', zm_zones := bt_insert z (e\<lparr>zn_state := State_Sealed\<rparr>) (zm_zones m)\<rparr>"
  have res: "seal_open m = (Inr (), ?m)"
    using Some e d'(1) by (simp add: seal_open_def on_device_def set_state_def)
  have len: "length (zd_sealed ?d) = zd_zone_count ?d" using \<open>zoned_ok ?d\<close> by (simp add: zoned_ok_def)
  have "map_keeps m ?m"
  proof (rule grow_keeps [OF ok])
    have other: "zone_ok ?m y f" if "map_of (zm_zones m) y = Some f" "y \<noteq> z" for y f
      using zones that Some d'(4,5) by (auto simp: zones_ok_def zone_ok_def)
    have sealed: "zone_ok ?m z (e\<lparr>zn_state := State_Sealed\<rparr>)"
      using zones e by (simp add: zones_ok_def zone_ok_def)
    show "zones_ok ?m"
      using zones other sealed d'(3) \<open>z \<in> dom _\<close> by (auto simp: zones_ok_def same_shape_def)
    show "bt_ok (zm_zones ?m)" using shape by (simp add: shape_ok_def)
    show "claimed m p \<Longrightarrow> claimed ?m p" for p
      using d'(3,4,5) len z(2) by (auto simp: claimed_def same_shape_def Let_def nth_list_update)
  qed (use d' readable_cong in auto)
  moreover have "zones_kept m ?m" using e eo by (auto simp: zones_kept_def)
  moreover have "\<forall>y. free_zone ?m y = free_zone m y" using e eo by (auto simp: free_zone_def)
  ultimately show ?thesis using that [OF res] by simp
qed

lemma find_free:
  assumes "map_ok m"
  shows "case List.find (\<lambda>(_, zone). zn_state zone = State_Free) (zm_zones m) of
      None \<Rightarrow> \<forall>z. \<not> free_zone m z
    | Some (z, e) \<Rightarrow> map_of (zm_zones m) z = Some e \<and> zn_state e = State_Free \<and> zn_zone e = z"
proof -
  have zones: "bt_ok (zm_zones m)" "zones_ok m" using assms by (simp_all add: map_ok_def shape_ok_def)
  show ?thesis
  proof (cases "List.find (\<lambda>(_, zone). zn_state zone = State_Free) (zm_zones m)")
    case None
    then have "\<not> zn_state e = State_Free" if "(z, e) \<in> set (zm_zones m)" for z e
      using that by (auto simp: find_None_iff)
    then show ?thesis using None by (auto simp: free_zone_def bt_mem_iff [OF zones(1)])
  next
    case (Some ze)
    obtain z e where ze: "ze = (z, e)" by fastforce
    have "(z, e) \<in> set (zm_zones m)" "zn_state e = State_Free"
      using Some ze by (auto simp: find_Some_iff in_set_conv_nth)
    then show ?thesis
      using zones Some ze by (auto simp: bt_mem_iff zones_ok_def zone_ok_def)
  qed
qed

lemma open_zone_ok:
  assumes ok: "map_ok m"
  obtains (opened) z m' where "ZoneMap_open_zone m = (Inr z, m')" "map_keeps m m'" "zones_kept m m'"
      "zm_open m' = Some z" "appendable (zm_device m') z"
  | (full) m' where "ZoneMap_open_zone m = (Inl refusal_FULL, m')" "map_keeps m m'" "zones_kept m m'"
      "zm_open m' = None" "\<forall>z. \<not> free_zone m z"
proof -
  from seal_open_ok [OF ok] obtain n where n: "seal_open m = (Inr (), n)" "map_keeps m n" "zm_open n = None"
    "zones_kept m n" "\<forall>z. free_zone n z = free_zone m z" .
  have nok: "map_ok n" using n(2) by (simp add: map_keeps_def)
  note found = find_free [OF nok]
  show thesis
  proof (cases "List.find (\<lambda>(_, zone). zn_state zone = State_Free) (zm_zones n)")
    case None
    then show ?thesis using full [of n] n found by (simp add: ZoneMap_open_zone_def)
  next
    case (Some ze)
    obtain z e where ze: "ze = (z, e)" by fastforce
    have e: "map_of (zm_zones n) z = Some e" "zn_state e = State_Free" "zn_zone e = z"
      using found Some ze by simp_all
    let ?m = "n\<lparr>zm_zones := bt_insert z (e\<lparr>zn_state := State_Open\<rparr>) (zm_zones n), zm_open := Some z\<rparr>"
    have zones: "zones_ok n" and shape: "shape_ok n" using nok by (simp_all add: map_ok_def)
    have dom: "z \<in> dom (map_of (zm_zones n))" using e(1) by blast
    then have z: "zm_data_from n \<le> z" "z < zd_zone_count (zm_device n)" using zones by (simp_all add: zones_ok_def)
    have eok: "zone_ok n z e" using zones e(1) by (simp add: zones_ok_def)
    have "map_keeps n ?m"
    proof (rule grow_keeps [OF nok])
      have other: "zone_ok ?m y f" if "map_of (zm_zones n) y = Some f" "y \<noteq> z" for y f
        using zones that n(3) by (auto simp: zones_ok_def zone_ok_def)
      have "zone_ok ?m z (e\<lparr>zn_state := State_Open\<rparr>)" using eok e(2) by (simp add: zone_ok_def)
      with other dom z show "zones_ok ?m" using zones by (auto simp: zones_ok_def)
      show "bt_ok (zm_zones ?m)" using shape by (simp add: shape_ok_def)
    qed (use shape in \<open>auto simp: shape_ok_def same_shape_def claimed_def\<close>)
    moreover have "zones_kept n ?m" using e by (auto simp: zones_kept_def)
    moreover have "appendable (zm_device ?m) z"
      using eok e(2) z shape by (auto simp: appendable_def zone_ok_def shape_ok_def zoned_ok_def)
    ultimately show ?thesis
      using opened [of z ?m] n e Some ze map_keeps_trans zones_kept_trans
      by (fastforce simp: ZoneMap_open_zone_def set_state_def)
  qed
qed

text \<open>An append to a data zone lands on a block nothing used, and leaves every block in use alone.\<close>

definition landed :: "u8 list \<Rightarrow> ZoneMap \<Rightarrow> nat \<Rightarrow> ZoneMap \<Rightarrow> bool" where
  "landed bs m at m' \<longleftrightarrow> at \<noteq> 0 \<and> \<not> claimed m at \<and> claimed m' at \<and> readable (zm_device m') at
     \<and> block_at (zm_device m') at = bs"

lemma device_append_ok:
  assumes ok: "map_ok m" and z: "zm_data_from m \<le> z" "zm_open m = Some z" "appendable (zm_device m) z"
    and len: "length bs = zd_block_bytes (zm_device m)"
  obtains at m' where "on_device (ZonedMemory_append z bs) m = (Inr at, m')" "map_keeps m m'"
    "landed bs m at m'" "zones_kept m m'"
proof -
  let ?d = "zm_device m"
  let ?at = "z * zd_zone_blocks ?d + zd_written ?d ! z"
  have zones: "zones_ok m" and shape: "shape_ok m" using ok by (simp_all add: map_ok_def)
  have dok: "zoned_ok ?d" using shape by (simp add: shape_ok_def)
  from append_accepted [OF dok len z(3)] obtain d' where d': "ZonedMemory_append z bs ?d = (Inr ?at, d')"
    "zoned_ok d'" "same_shape ?d d'" "zd_sealed d' = zd_sealed ?d"
    "zd_written d' = (zd_written ?d)[z := Suc (zd_written ?d ! z)]"
    "\<forall>b. block_at d' b = (if b = ?at then bs else block_at ?d b)" .
  let ?m = "m\<lparr>zm_device := d'\<rparr>"
  have w: "z \<noteq> 0" "z < zd_zone_count ?d" "\<not> zd_sealed ?d ! z" "zd_written ?d ! z < zd_zone_blocks ?d"
    "length (zd_written ?d) = zd_zone_count ?d"
    using z(3) dok by (simp_all add: appendable_def zoned_ok_def)
  note at = zone_block_fits [OF w(2,4)]
  have fresh: "\<not> claimed m ?at" using at w(3) by (simp add: claimed_def Let_def)
  have at0: "?at \<noteq> 0" using w by (simp add: zoned_ok_def)
  have read: "readable d' p = (readable ?d p \<or> p = ?at)" for p
  proof (cases "p div zd_zone_blocks ?d = z")
    case True
    then have "p = ?at \<longleftrightarrow> p mod zd_zone_blocks ?d = zd_written ?d ! z"
      using at by (metis div_mult_mod_eq)
    then show ?thesis using True w d'(3,5) at by (auto simp: readable_def same_shape_def)
  next
    case False
    then have "p \<noteq> ?at" using at(2) by metis
    then show ?thesis using False w(5) d'(3,5) by (simp add: readable_def same_shape_def)
  qed
  have "map_keeps m ?m"
  proof (rule grow_keeps [OF ok])
    have "zone_ok ?m y f" if "map_of (zm_zones m) y = Some f" for y f
    proof -
      have f: "zone_ok m y f" using zones that by (simp add: zones_ok_def)
      then have "y = z \<Longrightarrow> zn_state f = State_Open" using z(2) by (simp add: zone_ok_def)
      with f show ?thesis using d'(4,5) by (cases "y = z") (auto simp: zone_ok_def)
    qed
    then show "zones_ok ?m" using zones d'(3) by (simp add: zones_ok_def same_shape_def)
    show "bt_ok (zm_zones ?m)" using shape by (simp add: shape_ok_def)
    show "claimed m p \<Longrightarrow> claimed ?m p" for p
      using d'(3,4,5) w by (auto simp: claimed_def same_shape_def Let_def nth_list_update)
    show "readable (zm_device ?m) p = readable ?d p \<and> block_at (zm_device ?m) p = block_at ?d p"
      if "p = 0 \<or> claimed m p" for p
      using that fresh at0 read d'(6) by auto
  qed (use d' in auto)
  moreover have "claimed ?m ?at" using z(1) w at d'(3,5) by (simp add: claimed_def same_shape_def Let_def)
  then have "landed bs m ?at ?m" using fresh at0 read d'(6) by (simp add: landed_def)
  ultimately show thesis using that [of ?at ?m] d'(1) zones_kept_def by (simp add: on_device_def)
qed

lemma device_append_refused:
  assumes ok: "map_ok m" and "\<not> (length bs = zd_block_bytes (zm_device m) \<and> appendable (zm_device m) z)"
    "zm_data_from m \<le> z" "z < zd_zone_count (zm_device m)"
  shows "on_device (ZonedMemory_append z bs) m =
    (Inl (if length bs \<noteq> zd_block_bytes (zm_device m) then refusal_ADDRESS else refusal_FULL), m)"
proof -
  have "zoned_ok (zm_device m)" "z \<noteq> 0" using ok assms(3) by (auto simp: map_ok_def shape_ok_def)
  then show ?thesis using append_refused [of "zm_device m" bs z] assms by (auto simp: on_device_def)
qed

lemma map_keeps_device:
  assumes "map_keeps m m'"
  shows "map_ok m'" "zd_block_bytes (zm_device m') = zd_block_bytes (zm_device m)"
    "zd_zone_count (zm_device m') = zd_zone_count (zm_device m)"
    "zd_zone_blocks (zm_device m') = zd_zone_blocks (zm_device m)"
    "zm_data_from m' = zm_data_from m" "contents m' = contents m"
  using assms by (simp_all add: map_keeps_def same_shape_def)

lemma landed_after: "map_keeps m n \<Longrightarrow> landed bs n at m' \<Longrightarrow> landed bs m at m'"
  by (auto simp: landed_def map_keeps_def)

lemma opened_in_data: "map_ok m \<Longrightarrow> zm_open m = Some z \<Longrightarrow> zm_data_from m \<le> z \<and> z < zd_zone_count (zm_device m)"
  by (simp add: map_ok_def zones_ok_def)

text \<open>After a zone is opened an append of a whole block succeeds.\<close>

lemma append_opened:
  assumes "map_ok m" "zm_open m = Some z" "appendable (zm_device m) z"
  obtains (landing) at m' where "on_device (ZonedMemory_append z bs) m = (Inr at, m')" "map_keeps m m'"
      "landed bs m at m'" "zones_kept m m'"
  | (short) "on_device (ZonedMemory_append z bs) m = (Inl refusal_ADDRESS, m)"
      "length bs \<noteq> zd_block_bytes (zm_device m)"
proof (cases "length bs = zd_block_bytes (zm_device m)")
  case True
  then show thesis
    using device_append_ok [OF assms(1) _ assms(2,3) True] opened_in_data [OF assms(1,2)] landing by metis
next
  case False
  then show thesis
    using device_append_refused [OF assms(1), of bs z] opened_in_data [OF assms(1,2)] short by simp
qed

definition append_outcome :: "u8 list \<Rightarrow> ZoneMap \<Rightarrow> (i32 + nat) \<times> ZoneMap \<Rightarrow> bool" where
  "append_outcome bs m res \<longleftrightarrow> map_keeps m (snd res) \<and> zones_kept m (snd res)
     \<and> (case fst res of
           Inr at \<Rightarrow> landed bs m at (snd res)
         | Inl e \<Rightarrow> e = refusal_FULL \<and> (\<forall>z. \<not> free_zone m z)
             \<or> e = refusal_ADDRESS \<and> length bs \<noteq> zd_block_bytes (zm_device m))"

lemma append_outcome_opened:
  assumes n: "map_keeps m n" "zones_kept m n" "zm_open n = Some z" "appendable (zm_device n) z"
  shows "append_outcome bs m (on_device (ZonedMemory_append z bs) n)"
proof -
  have nok: "map_ok n" using n(1) by (simp add: map_keeps_def)
  show ?thesis
  proof (cases rule: append_opened [OF nok n(3,4), where bs = bs])
    case (1 at m')
    then show ?thesis
      using map_keeps_trans [OF n(1)] zones_kept_trans [OF n(2)] landed_after [OF n(1)]
      by (simp add: append_outcome_def)
  next
    case 2
    then show ?thesis using n map_keeps_device(2) [OF n(1)] by (simp add: append_outcome_def)
  qed
qed

lemma refusal_FULL_not_ADDRESS [simp]: "refusal_ADDRESS \<noteq> refusal_FULL" "refusal_FULL \<noteq> refusal_ADDRESS"
  using refusals_distinct by auto

lemma append_open_direct:
  assumes "map_ok m" "zm_open m = Some z" "appendable (zm_device m) z"
  shows "append_open bs m = on_device (ZonedMemory_append z bs) m"
  by (cases rule: append_opened [OF assms, where bs = bs]) (simp_all add: append_open_def assms(2))

lemma append_open_outcome:
  assumes ok: "map_ok m" and z: "zm_open m = Some z"
  shows "append_outcome bs m (append_open bs m)"
proof (cases "appendable (zm_device m) z \<or> length bs \<noteq> zd_block_bytes (zm_device m)")
  case True
  show ?thesis
  proof (cases "appendable (zm_device m) z")
    case app: True
    have "append_outcome bs m (on_device (ZonedMemory_append z bs) m)"
      by (rule append_outcome_opened [OF map_keeps_refl [OF ok] zones_kept_refl z app])
    then show ?thesis by (simp only: append_open_direct [OF ok z app])
  next
    case False
    then show ?thesis
      using True device_append_refused [OF ok, of bs z] opened_in_data [OF ok z] z map_keeps_refl [OF ok]
        zones_kept_refl by (simp add: append_open_def append_outcome_def)
  qed
next
  case False
  then have eq: "append_open bs m = try_then (ZoneMap_open_zone m) (\<lambda>next m. on_device (ZonedMemory_append next bs) m)"
    using device_append_refused [OF ok, of bs z] opened_in_data [OF ok z] z by (simp add: append_open_def)
  show ?thesis
    by (cases rule: open_zone_ok [OF ok])
      (simp_all add: eq append_outcome_opened, simp add: append_outcome_def)
qed

lemma append_somewhere_outcome:
  assumes ok: "map_ok m"
  shows "append_outcome bs m (ZoneMap_append_somewhere bs m)"
proof (cases "zm_open m")
  case (Some z)
  then show ?thesis using append_open_outcome [OF ok] by (simp add: ZoneMap_append_somewhere_def)
next
  case None
  then have eq: "ZoneMap_append_somewhere bs m = try_then (ZoneMap_open_zone m) (\<lambda>_ m. append_open bs m)"
    by (simp add: ZoneMap_append_somewhere_def)
  show ?thesis
  proof (cases rule: open_zone_ok [OF ok])
    case (1 z n)
    have nok: "map_ok n" using 1(2) by (simp add: map_keeps_def)
    show ?thesis
      using append_outcome_opened [OF 1(2,3,4,5)] 1(1) by (simp add: eq append_open_direct [OF nok 1(4,5)])
  next
    case (2 n)
    then show ?thesis by (simp add: eq append_outcome_def)
  qed
qed

end
