(* ===== verification/Zone_Map_Ops.thy ===== *)
theory Zone_Map_Ops
  imports Zone_Map_Inv
begin

text \<open>
  The operations of the zone map that move names: writing, copying forward, committing copies and
  recycling a zone, and appends to the zones reserved for root records.
\<close>

definition stored :: "ZonedMemory \<Rightarrow> nat \<Rightarrow> u8 list option" where
  "stored d p = (if readable d p then Some (block_at d p) else None)"

lemma contents_bind: "contents m l = Option.bind (map_of (zm_physical m) l) (stored (zm_device m))"
  by (simp add: contents_def stored_def split: option.splits)

lemma used_claimed:
  "map_ok m \<Longrightarrow> map_of (zm_physical m) l = Some p \<Longrightarrow> p = 0 \<and> l = 0 \<or> claimed m p"
  by (simp add: map_ok_def placed_ok_def)

lemma inverse: "map_ok m \<Longrightarrow> map_of (zm_logical m) p = Some l \<longleftrightarrow> map_of (zm_physical m) l = Some p"
  by (simp add: map_ok_def placed_ok_def)

lemma landed_unused:
  assumes "map_ok m" "landed bs m at m'"
  shows "map_of (zm_logical m) at = None" "map_of (zm_copies m) l \<noteq> Some at"
proof -
  show "map_of (zm_logical m) at = None"
    using used_claimed [OF assms(1)] inverse [OF assms(1)] assms(2)
    by (cases "map_of (zm_logical m) at") (auto simp: landed_def)
  show "map_of (zm_copies m) l \<noteq> Some at"
    using assms by (auto simp: map_ok_def copies_ok_def copy_ok_def landed_def)
qed

lemma claimed_sequential: "map_ok m \<Longrightarrow> claimed m p \<Longrightarrow> p \<noteq> 0 \<and> p div zm_zone_blocks m \<noteq> 0"
  by (cases "p = 0") (auto simp: map_ok_def shape_ok_def claimed_def Let_def)

subsection \<open>Writing\<close>

lemma place_ok:
  assumes ok: "map_ok m" and free: "map_of (zm_physical m) l = None"
    and at: "claimed m at" "readable (zm_device m) at" "map_of (zm_logical m) at = None"
      "\<And>l. map_of (zm_copies m) l \<noteq> Some at"
  defines "m' \<equiv> m\<lparr>zm_physical := bt_insert l at (zm_physical m), zm_logical := bt_insert at l (zm_logical m)\<rparr>"
  shows "map_ok m' \<and> contents m' = (contents m)(l \<mapsto> block_at (zm_device m) at)"
proof -
  have c: "claimed m' p = claimed m p" for p by (simp add: claimed_def m'_def)
  have "shape_ok m'" "zones_ok m'" using ok by (simp_all add: map_ok_def shape_ok_def zones_ok_def zone_ok_def m'_def)
  moreover have "map_of (zm_logical m) p \<noteq> Some l" for p using inverse [OF ok] free by simp
  then have "placed_ok m'"
    using ok at(1,3) unfolding map_ok_def placed_ok_def c by (auto simp: m'_def split: if_splits)
  moreover have "copies_ok m'"
    using ok free at(4) unfolding map_ok_def copies_ok_def copy_ok_def c by (fastforce simp: m'_def split: if_splits)
  moreover have "contents m' = (contents m)(l \<mapsto> block_at (zm_device m) at)"
    using at(2) by (auto simp: contents_bind stored_def [of _ at] m'_def fun_eq_iff)
  ultimately show ?thesis by (simp add: map_ok_def)
qed

lemma write_in_place:
  assumes ok: "map_ok m" and p: "map_of (zm_physical m) 0 = Some 0"
  shows "\<exists>m'. on_device (ZonedMemory_write 0 bs) m =
      (if length bs = zd_block_bytes (zm_device m) then Inr () else Inl refusal_ADDRESS, m')
    \<and> map_ok m' \<and> same_shape (zm_device m) (zm_device m')
    \<and> contents m' = (if length bs = zd_block_bytes (zm_device m) then (contents m)(0 \<mapsto> bs) else contents m)"
proof -
  let ?d = "zm_device m"
  have d: "zoned_ok ?d" "0 < zd_zone_blocks ?d" "0 < zd_zone_count ?d"
    using ok by (auto simp: map_ok_def shape_ok_def zoned_ok_def)
  from write_eq [OF d(1), of 0 bs] d obtain d' where
    d': "ZonedMemory_write 0 bs ?d = (if length bs = zd_block_bytes ?d then Inr () else Inl refusal_ADDRESS, d')"
      "zoned_ok d'" "same_shape ?d d'" "zd_written d' = zd_written ?d" "zd_sealed d' = zd_sealed ?d"
      "\<And>c. block_at d' c = (if length bs = zd_block_bytes ?d \<and> c = 0 then bs else block_at ?d c)"
    by auto
  let ?m = "m\<lparr>zm_device := d'\<rparr>"
  have c: "claimed ?m p = claimed m p" for p using d' by (intro claimed_cong) simp_all
  have r: "readable d' p = readable ?d p" for p using d' by (intro readable_cong)
  have "shape_ok ?m" "zones_ok ?m"
    using ok d' by (simp_all add: map_ok_def shape_ok_def zones_ok_def zone_ok_def same_shape_def)
  moreover have "placed_ok ?m" using ok by (simp add: map_ok_def placed_ok_def c)
  moreover have "copy_ok ?m l to" if "copy_ok m l to" for l to
  proof -
    have "to \<noteq> 0" using that claimed_sequential [OF ok] by (auto simp: copy_ok_def)
    then show ?thesis using that by (auto simp: copy_ok_def c r d'(6))
  qed
  then have "copies_ok ?m" using ok by (simp add: map_ok_def copies_ok_def)
  moreover have "contents ?m l = (if length bs = zd_block_bytes ?d then (contents m)(0 \<mapsto> bs) else contents m) l" for l
  proof -
    have "readable ?d 0" using d by (simp add: readable_def)
    moreover have "map_of (zm_physical m) l = Some q \<Longrightarrow> l \<noteq> 0 \<Longrightarrow> q \<noteq> 0" for q
      using used_claimed [OF ok] claimed_sequential [OF ok] by blast
    ultimately show ?thesis using p by (cases "l = 0") (auto simp: contents_def r d'(6) split: option.splits)
  qed
  ultimately show ?thesis using d'(1,3) by (auto simp: on_device_def map_ok_def fun_eq_iff)
qed

lemma write_ok:
  assumes ok: "map_ok m"
  obtains (written) m' where "ZoneMap_write l bs m = (Inr (), m')" "map_ok m'" "same_shape (zm_device m) (zm_device m')"
      "zm_data_from m' = zm_data_from m" "contents m' = (contents m)(l \<mapsto> bs)"
      "length bs = zd_block_bytes (zm_device m)" "l = 0 \<or> map_of (zm_physical m) l = None"
  | (refused) e m' where "ZoneMap_write l bs m = (Inl e, m')" "map_ok m'" "same_shape (zm_device m) (zm_device m')"
      "zm_data_from m' = zm_data_from m" "contents m' = contents m"
      "e = refusal_FULL \<and> (\<forall>z. \<not> free_zone m z)
       \<or> e = refusal_ADDRESS \<and> (length bs \<noteq> zd_block_bytes (zm_device m) \<or> map_of (zm_physical m) l \<noteq> None)"
proof (cases "map_of (zm_physical m) l")
  case (Some p)
  show thesis
  proof (cases "p = 0 \<and> l = 0")
    case True
    have eq: "ZoneMap_write l bs m = on_device (ZonedMemory_write 0 bs) m"
      using Some True by (simp add: ZoneMap_write_def ZonedMemory_kind_of_def)
    obtain m' where m': "on_device (ZonedMemory_write 0 bs) m =
        (if length bs = zd_block_bytes (zm_device m) then Inr () else Inl refusal_ADDRESS, m')" "map_ok m'"
      "same_shape (zm_device m) (zm_device m')"
      "contents m' = (if length bs = zd_block_bytes (zm_device m) then (contents m)(0 \<mapsto> bs) else contents m)"
      using write_in_place [OF ok, of bs] Some True by blast
    have df: "zm_data_from m' = zm_data_from m"
      using m'(1) by (auto simp: on_device_def split: prod.splits)
    show ?thesis
      using written [of m'] refused [of refusal_ADDRESS m'] m' df True Some unfolding eq by (cases "length bs = zd_block_bytes (zm_device m)") simp_all
  next
    case False
    then have "claimed m p" using used_claimed [OF ok Some] by blast
    from claimed_sequential [OF ok this] have "ZoneMap_write l bs m = (Inl refusal_ADDRESS, m)"
      using Some by (simp add: ZoneMap_write_def Let_def ZonedMemory_kind_of_def)
    then show ?thesis using refused [of refusal_ADDRESS m] ok Some by (simp add: same_shape_def)
  qed
next
  case None
  obtain r n where n: "ZoneMap_append_somewhere bs m = (r, n)" by fastforce
  have out: "append_outcome bs m (r, n)" using append_somewhere_outcome [OF ok, of bs] n by simp
  then have keeps: "map_keeps m n" by (simp add: append_outcome_def)
  note kd = map_keeps_device [OF keeps]
  have same: "zm_physical n = zm_physical m" "zm_logical n = zm_logical m" "zm_copies n = zm_copies m"
    "same_shape (zm_device m) (zm_device n)"
    using keeps by (simp_all add: map_keeps_def)
  show thesis
  proof (cases r)
    case (Inl e)
    then show ?thesis
      using refused [of e n] None n out kd same by (simp add: ZoneMap_write_def append_outcome_def)
  next
    case (Inr at)
    have land: "landed bs m at n" using out Inr by (simp add: append_outcome_def)
    let ?m = "n\<lparr>zm_physical := bt_insert l at (zm_physical n), zm_logical := bt_insert at l (zm_logical n)\<rparr>"
    have "map_ok ?m \<and> contents ?m = (contents n)(l \<mapsto> block_at (zm_device n) at)"
      using land landed_unused [OF ok land] None same by (intro place_ok [OF kd(1)]) (simp_all add: landed_def)
    moreover have "length bs = zd_block_bytes (zm_device m)"
    proof -
      have "at * zd_block_bytes (zm_device n) + zd_block_bytes (zm_device n) \<le> length (zd_bytes (zm_device n))"
        using land kd(1) by (intro block_fits) (simp_all add: landed_def readable_def map_ok_def shape_ok_def)
      then show ?thesis using land kd(2) by (auto simp: landed_def block_at_def)
    qed
    ultimately show ?thesis
      using written [of ?m] None n Inr land kd same by (simp add: ZoneMap_write_def landed_def)
  qed
qed

subsection \<open>Copying forward\<close>

lemma add_copy_ok:
  assumes ok: "map_ok m" and to: "copy_ok m l to" "\<And>l. map_of (zm_copies m) l \<noteq> Some to"
  shows "map_ok (m\<lparr>zm_copies := bt_insert l to (zm_copies m)\<rparr>)"
proof -
  let ?m = "m\<lparr>zm_copies := bt_insert l to (zm_copies m)\<rparr>"
  have c: "claimed ?m p = claimed m p" for p by (simp add: claimed_def)
  have "copy_ok ?m k q = copy_ok m k q" for k q by (simp add: copy_ok_def c)
  then show ?thesis
    using ok to
    by (auto simp: map_ok_def shape_ok_def zones_ok_def zone_ok_def placed_ok_def copies_ok_def c split: if_splits)
qed

text \<open>
  Copying a block forward changes no content. When it succeeds the copy is recorded; it fails only
  for a block that holds nothing, or when every zone is taken.
\<close>

lemma copy_forward_ok:
  assumes ok: "map_ok m" and l: "l \<noteq> 0"
  obtains (copied) to m' where "ZoneMap_copy_forward l m = (Inr to, m')" "map_ok m'" "contents m' = contents m"
      "zm_physical m' = zm_physical m" "zm_copies m' = bt_insert l to (zm_copies m)" "zones_kept m m'"
      "zm_data_from m' = zm_data_from m" "same_shape (zm_device m) (zm_device m')" "\<not> claimed m to"
  | (refused) e m' where "ZoneMap_copy_forward l m = (Inl e, m')" "map_ok m'" "contents m' = contents m"
      "zm_physical m' = zm_physical m" "zm_copies m' = zm_copies m" "zones_kept m m'"
      "e = refusal_ADDRESS \<and> contents m l = None \<or> e = refusal_FULL \<and> (\<forall>z. \<not> free_zone m z)"
proof -
  have eq: "ZoneMap_copy_forward l m = try_then (ZoneMap_read l (zd_block_bytes (zm_device m)) m) (\<lambda>block m.
      try_then (ZoneMap_append_somewhere block m) (\<lambda>to m. (Inr to, m\<lparr>zm_copies := bt_insert l to (zm_copies m)\<rparr>)))"
    by (simp add: ZoneMap_copy_forward_def ZoneMap_read_def split: option.splits)
  obtain k where k: "ZoneMap_read l (zd_block_bytes (zm_device m)) m =
      (case contents m l of Some x \<Rightarrow> Inr x | None \<Rightarrow> Inl refusal_ADDRESS, k)"
    "map_keeps m k" "zm_zones k = zm_zones m"
    using read_keeps [OF ok, of l "zd_block_bytes (zm_device m)"] by auto
  note kd = map_keeps_device [OF k(2)]
  have zk: "zones_kept m k" using k(3) by (simp add: zones_kept_def)
  have ks: "zm_physical k = zm_physical m" "zm_logical k = zm_logical m" "zm_copies k = zm_copies m"
    using k(2) by (simp_all add: map_keeps_def)
  show thesis
  proof (cases "contents m l")
    case None
    then show ?thesis using refused [of refusal_ADDRESS k] k zk kd ks by (simp add: eq)
  next
    case (Some x)
    obtain r n where n: "ZoneMap_append_somewhere x k = (r, n)" by fastforce
    have out: "append_outcome x k (r, n)" using append_somewhere_outcome [OF kd(1), of x] n by simp
    have keeps: "map_keeps m n" and zn: "zones_kept m n"
      using out map_keeps_trans [OF k(2)] zones_kept_trans [OF zk] by (simp_all add: append_outcome_def)
    note nd = map_keeps_device [OF keeps]
    have ns: "zm_physical n = zm_physical m" "zm_logical n = zm_logical m" "zm_copies n = zm_copies m"
      "same_shape (zm_device m) (zm_device n)"
      using keeps by (simp_all add: map_keeps_def)
    obtain p where p: "map_of (zm_physical m) l = Some p" "readable (zm_device m) p" "x = block_at (zm_device m) p"
      using Some by (auto simp: contents_def split: option.splits if_splits)
    have len: "length x = zd_block_bytes (zm_device k)"
      using p kd(2) block_fits [of "zm_device m" p] ok
      by (auto simp: block_at_def readable_def map_ok_def shape_ok_def)
    show ?thesis
    proof (cases r)
      case (Inl e)
      have "\<forall>z. free_zone k z = free_zone m z" using k(3) by (simp add: free_zone_def)
      then show ?thesis
        using refused [of e n] Inl out len k n Some nd ns zn by (auto simp: eq append_outcome_def)
    next
      case (Inr to)
      have land: "landed x m to n" using out Inr landed_after [OF k(2)] by (simp add: append_outcome_def)
      have "p \<noteq> 0" using used_claimed [OF ok p(1)] l claimed_sequential [OF ok] by blast
      moreover have "contents n l = Some x" using Some nd(6) by simp
      then have "readable (zm_device n) p \<and> block_at (zm_device n) p = x"
        using p(1) ns(1) by (auto simp: contents_def split: if_splits)
      ultimately have "copy_ok n l to"
        using land landed_unused(1) [OF ok land] p(1) ns by (simp add: copy_ok_def landed_def)
      from add_copy_ok [OF nd(1) this] have "map_ok (n\<lparr>zm_copies := bt_insert l to (zm_copies n)\<rparr>)"
        using landed_unused(2) [OF ok land] ns by simp
      moreover have "contents (n\<lparr>zm_copies := bt_insert l to (zm_copies n)\<rparr>) = contents m"
        using nd(6) by (simp add: contents_bind fun_eq_iff)
      ultimately show ?thesis
        using copied [of to "n\<lparr>zm_copies := bt_insert l to (zm_copies n)\<rparr>"] k n Some Inr nd ns zn land
        by (simp add: eq zones_kept_def landed_def)
    qed
  qed
qed

subsection \<open>Committing copies\<close>

lemma commit_copy_ok:
  assumes ok: "map_ok (m\<lparr>zm_copies := (l, to) # cs\<rparr>)"
  shows "map_ok ((commit_copy (l, to) m)\<lparr>zm_copies := cs\<rparr>)" "contents (commit_copy (l, to) m) = contents m"
proof -
  let ?c = "m\<lparr>zm_copies := (l, to) # cs\<rparr>" and ?m = "(commit_copy (l, to) m)\<lparr>zm_copies := cs\<rparr>"
  have c: "claimed ?c p = claimed m p" "claimed ?m p = claimed m p" for p
    by (simp_all add: claimed_def commit_copy_def)
  have copy: "copy_ok ?c l to" using ok by (simp add: map_ok_def copies_ok_def)
  then obtain "from" where f: "map_of (zm_physical m) l = Some from" "from \<noteq> 0" "readable (zm_device m) from"
      "block_at (zm_device m) to = block_at (zm_device m) from"
    and to: "claimed m to" "readable (zm_device m) to" "map_of (zm_logical m) to = None"
    by (auto simp: copy_ok_def c)
  have P: "map_of (zm_physical ?m) = (map_of (zm_physical m))(l \<mapsto> to)"
    and L: "map_of (zm_logical ?m) = (map_of (zm_logical m))(from := None, to \<mapsto> l)"
    using f by (simp_all add: commit_copy_def)
  have inv: "map_of (zm_physical m) k = Some p \<longleftrightarrow> map_of (zm_logical m) p = Some k" for k p
    using ok by (simp add: map_ok_def placed_ok_def)
  have "from \<noteq> to" using f(1) to(3) inv by auto
  have other: "map_of (zm_logical m) p = Some l \<Longrightarrow> p = from" for p using inv [of l p] f(1) by simp
  have rest: "map_of cs l = None"
    using ok by (auto simp: map_ok_def shape_ok_def map_of_eq_None_iff)
  have "shape_ok ?m" "zones_ok ?m"
    using ok by (auto simp: map_ok_def shape_ok_def zones_ok_def zone_ok_def commit_copy_def split: option.splits)
  moreover have "placed_ok ?m"
  proof -
    have "map_of (zm_physical ?m) k = Some p \<longleftrightarrow> map_of (zm_logical ?m) p = Some k" for k p
    proof (cases "k = l")
      case True
      have "p \<noteq> from \<Longrightarrow> map_of (zm_logical m) p \<noteq> Some l" using other by blast
      then show ?thesis unfolding P L True using \<open>from \<noteq> to\<close> by simp
    next
      case False
      have "map_of (zm_physical m) k \<noteq> Some to" "map_of (zm_physical m) k \<noteq> Some from"
        using inv [of k to] inv [of k "from"] inv [of l "from"] to(3) f(1) False by simp_all
      then show ?thesis unfolding P L using False inv [of k p] by auto
    qed
    moreover have "p = 0 \<and> k = 0 \<or> claimed m p" if "map_of (zm_physical ?m) k = Some p" for k p
      using that ok to(1) unfolding P by (auto simp: map_ok_def placed_ok_def c split: if_splits)
    ultimately show ?thesis by (simp add: placed_ok_def c)
  qed
  moreover have "copies_ok ?m"
  proof -
    have cok: "copies_ok ?c" using ok by (simp add: map_ok_def)
    have C: "zm_copies ?c = (l, to) # cs" by simp
    have inj: "a = b" if "map_of ((l, to) # cs) a = Some q" "map_of ((l, to) # cs) b = Some q" for a b q
      using cok that unfolding copies_ok_def C by blast
    have upd: "map_of ((l, to) # cs) k = Some q" if "map_of cs k = Some q" for k q
      using that rest by (cases "k = l") simp_all
    have "copy_ok ?m k q" if k: "map_of cs k = Some q" for k q
    proof -
      have "k \<noteq> l" using k rest by auto
      then have "q \<noteq> to" using inj [OF upd [OF k], of l] by auto
      moreover have "copy_ok ?c k q" using cok upd [OF k] unfolding copies_ok_def C by blast
      ultimately show ?thesis using \<open>k \<noteq> l\<close> unfolding copy_ok_def c P L by (auto simp: commit_copy_def)
    qed
    moreover have "k = k'" if "map_of cs k = Some q" "map_of cs k' = Some q" for k k' q
      by (rule inj [OF upd upd]) (use that in simp_all)
    ultimately show ?thesis by (simp add: copies_ok_def)
  qed
  ultimately show "map_ok ?m" by (simp add: map_ok_def)
  show "contents (commit_copy (l, to) m) = contents m"
  proof
    fix k
    have "contents (commit_copy (l, to) m) k = contents ?m k" by (simp add: contents_bind)
    also have "\<dots> = contents m k"
      unfolding contents_bind P using f to by (simp add: commit_copy_def stored_def [of _ to] stored_def [of _ "from"])
    finally show "contents (commit_copy (l, to) m) k = contents m k" .
  qed
qed

lemma commit_copies_fold:
  "map_ok (m\<lparr>zm_copies := cs\<rparr>) \<Longrightarrow>
   map_ok ((fold commit_copy cs m)\<lparr>zm_copies := []\<rparr>) \<and> contents (fold commit_copy cs m) = contents m
   \<and> (\<forall>l. map_of (zm_physical (fold commit_copy cs m)) l =
         (case map_of cs l of Some to \<Rightarrow> Some to | None \<Rightarrow> map_of (zm_physical m) l))
   \<and> zm_zones (fold commit_copy cs m) = zm_zones m \<and> zm_device (fold commit_copy cs m) = zm_device m
   \<and> zm_data_from (fold commit_copy cs m) = zm_data_from m"
proof (induction cs arbitrary: m)
  case (Cons c cs)
  obtain l to where c: "c = (l, to)" by fastforce
  let ?n = "commit_copy (l, to) m"
  have ok: "map_ok (m\<lparr>zm_copies := (l, to) # cs\<rparr>)" using Cons.prems c by simp
  have "map_of cs l = None"
    using ok by (auto simp: map_ok_def shape_ok_def map_of_eq_None_iff)
  moreover have "zm_zones ?n = zm_zones m" "zm_device ?n = zm_device m" "zm_data_from ?n = zm_data_from m"
    "map_of (zm_physical ?n) = (map_of (zm_physical m))(l \<mapsto> to)"
    by (simp_all add: commit_copy_def)
  ultimately show ?case
    using Cons.IH [OF commit_copy_ok(1) [OF ok]] commit_copy_ok(2) [OF ok] c
    by (auto split: option.splits)
qed (auto simp: map_ok_def)

lemma commit_copies_ok:
  assumes ok: "map_ok m"
  obtains m' where "ZoneMap_commit_copies m = (Inr (length (zm_copies m)), m')" "map_ok m'" "contents m' = contents m"
    "zm_copies m' = []" "zm_zones m' = zm_zones m" "same_shape (zm_device m) (zm_device m')"
    "zm_data_from m' = zm_data_from m"
    "\<forall>l. map_of (zm_physical m') l =
       (case map_of (zm_copies m) l of Some to \<Rightarrow> Some to | None \<Rightarrow> map_of (zm_physical m) l)"
proof (cases "zm_copies m = []")
  case True
  then show thesis using that [of m] ok by (simp add: ZoneMap_commit_copies_def same_shape_def)
next
  case False
  from flush_keeps [OF ok] obtain n where n: "on_device ZonedMemory_flush m = (Inr (), n)" "map_keeps m n"
    "zm_zones n = zm_zones m" "zm_open n = zm_open m" .
  note nd = map_keeps_device [OF n(2)]
  have ns: "zm_physical n = zm_physical m" "zm_copies n = zm_copies m" "same_shape (zm_device m) (zm_device n)"
    using n(2) by (simp_all add: map_keeps_def)
  let ?n = "n\<lparr>zm_copies := []\<rparr>" and ?cs = "zm_copies m"
  let ?m = "fold commit_copy ?cs ?n"
  have "map_ok (?n\<lparr>zm_copies := ?cs\<rparr>)" using nd(1) ns(2) by (cases n) simp
  note f = commit_copies_fold [OF this]
  have nil: "zm_copies (fold commit_copy cs k) = zm_copies k" for cs k
    by (induction cs arbitrary: k) (auto simp: commit_copy_def)
  have eta: "k\<lparr>zm_copies := []\<rparr> = k" if "zm_copies k = []" for k :: ZoneMap using that by (cases k) simp
  have "map_ok ?m" using f eta [of ?m] nil [of ?cs ?n] by simp
  moreover have "contents ?n = contents n" by (simp add: contents_bind fun_eq_iff)
  then have "contents ?m = contents m" using f nd(6) by simp
  moreover have "ZoneMap_commit_copies m = (Inr (length ?cs), ?m)"
    using False n(1) ns(2) by (simp add: ZoneMap_commit_copies_def Let_def)
  ultimately show thesis using that [of ?m] f nil n(3) ns nd by (simp cong: option.case_cong)
qed

subsection \<open>Recycling a zone\<close>

lemma forget_fold:
  "map_of (zm_logical (fold forget_block st m)) p = (if p \<in> fst ` set st then None else map_of (zm_logical m) p)"
  "map_of (zm_physical (fold forget_block st m)) l = (if l \<in> snd ` set st then None else map_of (zm_physical m) l)"
  "bt_ok (zm_logical m) \<Longrightarrow> bt_ok (zm_logical (fold forget_block st m))"
  "bt_ok (zm_physical m) \<Longrightarrow> bt_ok (zm_physical (fold forget_block st m))"
  "zm_device (fold forget_block st m) = zm_device m" "zm_zones (fold forget_block st m) = zm_zones m"
  "zm_open (fold forget_block st m) = zm_open m" "zm_copies (fold forget_block st m) = zm_copies m"
  "zm_data_from (fold forget_block st m) = zm_data_from m" "zm_zone_blocks (fold forget_block st m) = zm_zone_blocks m"
  by (induction st arbitrary: m) (auto simp: forget_block_def)

lemma div_eq_range:
  assumes "0 < (n::nat)"
  shows "z * n \<le> p \<and> p < z * n + n \<longleftrightarrow> p div n = z"
proof (rule iffI [rotated])
  assume "p div n = z"
  then show "z * n \<le> p \<and> p < z * n + n"
    using assms div_times_less_eq_dividend [of p n] dividend_less_div_times [of n p] by auto
next
  assume "z * n \<le> p \<and> p < z * n + n"
  then show "p div n = z" by (intro div_nat_eqI) (auto simp: mult.commute)
qed

text \<open>The logical blocks a zone holds.\<close>

definition in_zone :: "ZoneMap \<Rightarrow> nat \<Rightarrow> nat \<Rightarrow> bool" where
  "in_zone m z l \<longleftrightarrow> (\<exists>p. map_of (zm_physical m) l = Some p \<and> p div zm_zone_blocks m = z)"

lemma holds_iff:
  assumes "map_ok m"
  shows "l \<in> set (ZoneMap_holds m z) \<longleftrightarrow> in_zone m z l"
proof -
  have n: "0 < zm_zone_blocks m" and bt: "bt_ok (zm_logical m)"
    using assms by (auto simp: map_ok_def shape_ok_def zoned_ok_def)
  have "l \<in> set (ZoneMap_holds m z) \<longleftrightarrow>
      (\<exists>p. map_of (bt_range (z * zm_zone_blocks m) (z * zm_zone_blocks m + zm_zone_blocks m) (zm_logical m)) p = Some l)"
    using bt by (force simp: ZoneMap_holds_def Let_def simp flip: bt_mem_iff)
  then show ?thesis
    using n by (auto simp: map_of_bt_range in_zone_def div_eq_range inverse [OF assms])
qed

lemma recycle_ok:
  assumes ok: "map_ok m" and e: "map_of (zm_zones m) z = Some e" "zn_state e = State_Condemned"
    and nocopies: "zm_copies m = []"
  obtains m' where "ZoneMap_recycle z m = (Inr (), m')" "map_ok m'" "free_zone m' z"
    "same_shape (zm_device m) (zm_device m')" "zm_data_from m' = zm_data_from m"
    "\<forall>l. contents m' l = (if in_zone m z l then None else contents m l)"
    "\<forall>l. map_of (zm_physical m') l = (if in_zone m z l then None else map_of (zm_physical m) l)"
    "\<forall>y. y \<noteq> z \<longrightarrow> map_of (zm_zones m') y = map_of (zm_zones m) y"
proof -
  let ?d = "zm_device m" and ?n = "zm_zone_blocks m"
  let ?st = "bt_range (z * ?n) (z * ?n + ?n) (zm_logical m)"
  have zones: "zones_ok m" and shape: "shape_ok m" using ok by (simp_all add: map_ok_def)
  have n: "0 < ?n" "?n = zd_zone_blocks ?d" and bt: "bt_ok (zm_logical m)" "bt_ok (zm_physical m)"
    using shape by (auto simp: shape_ok_def zoned_ok_def)
  have "z \<in> dom (map_of (zm_zones m))" using e by blast
  then have z: "zm_data_from m \<le> z" "z < zd_zone_count ?d" using zones by (simp_all add: zones_ok_def)
  have "z \<noteq> 0" "zoned_ok ?d" using shape z by (auto simp: shape_ok_def)
  from reset_accepted [OF this(2,1) z(2)] obtain d' where d': "ZonedMemory_reset z ?d = (Inr (), d')" "zoned_ok d'"
    "same_shape ?d d'" "zd_written d' = (zd_written ?d)[z := 0]" "zd_sealed d' = (zd_sealed ?d)[z := False]"
    "\<forall>b. b div zd_zone_blocks ?d \<noteq> z \<longrightarrow> block_at d' b = block_at ?d b" .
  let ?f = "fold forget_block ?st (m\<lparr>zm_device := d'\<rparr>)"
  let ?m = "?f\<lparr>zm_zones := bt_insert z (Zone_fresh z State_Free) (zm_zones ?f)\<rparr>"
  have res: "ZoneMap_recycle z m = (Inr (), ?m)"
    using e nocopies d'(1) by (simp add: ZoneMap_recycle_def on_device_def Let_def)
  have stale: "p \<in> fst ` set ?st \<longleftrightarrow> p div ?n = z \<and> map_of (zm_logical m) p \<noteq> None" for p
    using n(1) bt by (auto simp: bt_range_def div_eq_range bt_mem_iff image_iff)
  have stalel: "l \<in> snd ` set ?st \<longleftrightarrow> in_zone m z l" for l
    using holds_iff [OF ok, of l z] by (simp add: ZoneMap_holds_def Let_def)
  have P: "map_of (zm_physical ?m) l = (if in_zone m z l then None else map_of (zm_physical m) l)" for l
    using stalel by (simp add: forget_fold)
  have L: "map_of (zm_logical ?m) p = (if p div ?n = z then None else map_of (zm_logical m) p)" for p
    using stale by (auto simp: forget_fold)
  have c: "claimed ?m p" if "claimed m p" "p div ?n \<noteq> z" for p
    using that d'(3,4,5) n(2) by (simp add: claimed_def Let_def same_shape_def forget_fold)
  have r: "readable d' p = readable ?d p" if "p div ?n \<noteq> z" for p
    using that d'(3,4) n(2) by (simp add: readable_def same_shape_def)
  have "shape_ok ?m"
    using shape d' bt by (simp add: shape_ok_def same_shape_def forget_fold)
  moreover have "zones_ok ?m"
  proof -
    have "zone_ok ?m y f" if "map_of (zm_zones m) y = Some f" "y \<noteq> z" for y f
      using zones that d'(4,5) by (auto simp: zones_ok_def zone_ok_def forget_fold)
    moreover have "zone_ok m z e" using zones e(1) by (simp add: zones_ok_def)
    then have "zm_open m \<noteq> Some z" using e(2) by (simp add: zone_ok_def)
    then have "zone_ok ?m z (Zone_fresh z State_Free)"
      using d'(4,5) z \<open>zoned_ok ?d\<close> by (simp add: zone_ok_def forget_fold zoned_ok_def)
    ultimately show ?thesis
      using zones d'(3) \<open>z \<in> dom _\<close> by (auto simp: zones_ok_def forget_fold same_shape_def)
  qed
  moreover have "placed_ok ?m"
  proof -
    have "map_of (zm_physical ?m) l = Some p \<longleftrightarrow> map_of (zm_logical ?m) p = Some l" for l p
      unfolding P L using inverse [OF ok, of p l] by (auto simp: in_zone_def)
    moreover have "p = 0 \<and> l = 0 \<or> claimed ?m p" if "map_of (zm_physical ?m) l = Some p" for l p
      using that used_claimed [OF ok, of l p] c [of p] unfolding P by (auto simp: in_zone_def split: if_splits)
    ultimately show ?thesis by (simp add: placed_ok_def)
  qed
  moreover have "copies_ok ?m" using nocopies by (simp add: copies_ok_def forget_fold)
  ultimately have mok: "map_ok ?m" by (simp add: map_ok_def)
  have cont: "contents ?m l = (if in_zone m z l then None else contents m l)" for l
  proof (cases "in_zone m z l")
    case True
    then show ?thesis using P [of l] by (simp add: contents_bind)
  next
    case False
    then have "stored d' p = stored ?d p" if "map_of (zm_physical m) l = Some p" for p
      using that r [of p] d'(6) n(2) by (auto simp: stored_def in_zone_def)
    then show ?thesis using False P [of l] by (cases "map_of (zm_physical m) l") (simp_all add: contents_bind forget_fold)
  qed
  show thesis
    by (rule that [OF res mok]) (use cont P d'(3) in \<open>auto simp: free_zone_def forget_fold\<close>)
qed

subsection \<open>The zones below the data\<close>

text \<open>What happens in the zones of the root records disturbs no block of the map.\<close>

lemma below_data_keeps:
  assumes ok: "map_ok m" and z: "0 < z" "z < zm_data_from m"
    and d': "zoned_ok d'" "same_shape (zm_device m) d'"
      "\<And>y. y \<noteq> z \<Longrightarrow> zd_written d' ! y = zd_written (zm_device m) ! y \<and> zd_sealed d' ! y = zd_sealed (zm_device m) ! y"
      "\<And>b. b div zd_zone_blocks (zm_device m) \<noteq> z \<Longrightarrow> block_at d' b = block_at (zm_device m) b"
  shows "map_keeps m (m\<lparr>zm_device := d'\<rparr>)"
proof (rule grow_keeps [OF ok])
  have zones: "zones_ok m" and shape: "shape_ok m" using ok by (simp_all add: map_ok_def)
  have "z \<notin> dom (map_of (zm_zones m))" using zones z(2) by (simp add: zones_ok_def)
  then have dom: "map_of (zm_zones m) y = Some f \<Longrightarrow> y \<noteq> z" for y f by blast
  then show "zones_ok (m\<lparr>zm_device := d'\<rparr>)"
    using zones d'(2,3) by (auto simp: zones_ok_def zone_ok_def same_shape_def)
  show "bt_ok (zm_zones (m\<lparr>zm_device := d'\<rparr>))" using shape by (simp add: shape_ok_def)
  show "claimed (m\<lparr>zm_device := d'\<rparr>) p" if "claimed m p" for p
    using that d'(2,3) z(2) by (auto simp: claimed_def same_shape_def Let_def)
  show "readable (zm_device (m\<lparr>zm_device := d'\<rparr>)) p = readable (zm_device m) p
      \<and> block_at (zm_device (m\<lparr>zm_device := d'\<rparr>)) p = block_at (zm_device m) p"
    if "p = 0 \<or> claimed m p" for p
  proof -
    have "p div zd_zone_blocks (zm_device m) \<noteq> z" using that z by (auto simp: claimed_def Let_def)
    then show ?thesis using d'(2,3,4) by (simp add: readable_def same_shape_def)
  qed
qed (use d' in auto)

lemma append_reserved_ok:
  assumes ok: "map_ok m"
  shows "\<exists>r m'. ZoneMap_append_reserved z bs m = (r, m') \<and> map_keeps m m' \<and> zm_zones m' = zm_zones m
    \<and> zm_open m' = zm_open m"
proof (cases "z = 0 \<or> z \<ge> zm_data_from m \<or> \<not> (length bs = zd_block_bytes (zm_device m) \<and> appendable (zm_device m) z)")
  case True
  have "zoned_ok (zm_device m)" using ok by (simp add: map_ok_def shape_ok_def)
  then show ?thesis
    using True append_refused [of "zm_device m" bs z] map_keeps_refl [OF ok]
    by (auto simp: ZoneMap_append_reserved_def on_device_def)
next
  case False
  have d: "zoned_ok (zm_device m)" using ok by (simp add: map_ok_def shape_ok_def)
  have c: "length bs = zd_block_bytes (zm_device m)" "appendable (zm_device m) z" using False by simp_all
  from append_accepted [OF d c] obtain d' where d': "ZonedMemory_append z bs (zm_device m) =
      (Inr (z * zd_zone_blocks (zm_device m) + zd_written (zm_device m) ! z), d')" "zoned_ok d'"
    "same_shape (zm_device m) d'" "zd_sealed d' = zd_sealed (zm_device m)"
    "zd_written d' = (zd_written (zm_device m))[z := Suc (zd_written (zm_device m) ! z)]"
    "\<forall>b. block_at d' b = (if b = z * zd_zone_blocks (zm_device m) + zd_written (zm_device m) ! z then bs
       else block_at (zm_device m) b)" .
  have "(z * zd_zone_blocks (zm_device m) + zd_written (zm_device m) ! z) div zd_zone_blocks (zm_device m) = z"
    using False zone_block_fits(2) by (simp add: appendable_def)
  then have "map_keeps m (m\<lparr>zm_device := d'\<rparr>)"
    using False d' by (intro below_data_keeps [OF ok, of z]) auto
  then show ?thesis using False d'(1) by (simp add: ZoneMap_append_reserved_def on_device_def)
qed

lemma reset_reserved_ok:
  assumes ok: "map_ok m" and z: "0 < z" "z < zm_data_from m"
  shows "\<exists>m'. on_device (ZonedMemory_reset z) m = (Inr (), m') \<and> map_keeps m m' \<and> zm_zones m' = zm_zones m
    \<and> zm_open m' = zm_open m"
proof -
  have d: "zoned_ok (zm_device m)" "z < zd_zone_count (zm_device m)" "z \<noteq> 0"
    using ok z by (auto simp: map_ok_def shape_ok_def)
  from reset_accepted [OF d(1,3,2)] obtain d' where d': "ZonedMemory_reset z (zm_device m) = (Inr (), d')" "zoned_ok d'"
    "same_shape (zm_device m) d'" "zd_written d' = (zd_written (zm_device m))[z := 0]"
    "zd_sealed d' = (zd_sealed (zm_device m))[z := False]"
    "\<forall>b. b div zd_zone_blocks (zm_device m) \<noteq> z \<longrightarrow> block_at d' b = block_at (zm_device m) b" .
  then have "map_keeps m (m\<lparr>zm_device := d'\<rparr>)" by (intro below_data_keeps [OF ok z]) auto
  then show ?thesis using d'(1) by (simp add: on_device_def)
qed

end
