(* ===== verification/Zone_Map_Theorems.thy ===== *)
theory Zone_Map_Theorems
  imports Zone_Map_Ops
begin

text \<open>
  The zone map under any sequence of its operations: it stays well formed, it implements a store of
  logical blocks, and a zone that was reset holds nothing.
\<close>

text \<open>
  From \<open>src/zone/src/invariants.rs\<close>, the second of the collector's invariants, a function of the map
  alone.
\<close>

definition a_reset_zone_holds_no_live_blob :: "ZoneMap \<Rightarrow> bool" where
  "a_reset_zone_holds_no_live_blob m \<longleftrightarrow>
     list_all (\<lambda>(_, zone). zn_state zone = State_Free \<longrightarrow> ZoneMap_holds m (zn_zone zone) = []) (zm_zones m)"

text \<open>
  A step is any operation with any arguments, refused or not. Block 0 is the superblock's: the
  collector moves only blocks of data zones.
\<close>

inductive map_step :: "ZoneMap \<Rightarrow> ZoneMap \<Rightarrow> bool" where
  step_read: "map_step m (snd (ZoneMap_read l n m))"
| step_write: "map_step m (snd (ZoneMap_write l bs m))"
| step_flush: "map_step m (snd (ZoneMap_flush m))"
| step_hold: "map_step m (snd (ZoneMap_hold_read z m))"
| step_release: "map_step m (snd (ZoneMap_release_read z m))"
| step_live: "map_step m (snd (ZoneMap_set_live_bytes z n m))"
| step_condemn: "map_step m (snd (ZoneMap_condemn z m))"
| step_open: "map_step m (snd (ZoneMap_open_zone m))"
| step_copy: "l \<noteq> 0 \<Longrightarrow> map_step m (snd (ZoneMap_copy_forward l m))"
| step_commit: "map_step m (snd (ZoneMap_commit_copies m))"
| step_recycle: "map_step m (snd (ZoneMap_recycle z m))"
| step_append_reserved: "map_step m (snd (ZoneMap_append_reserved z bs m))"

inductive_cases map_stepE: "map_step m m'"

lemma recycle_refused:
  "\<not> (\<exists>e. map_of (zm_zones m) z = Some e \<and> zn_state e = State_Condemned \<and> zm_copies m = []) \<Longrightarrow>
   snd (ZoneMap_recycle z m) = m \<and> fst (ZoneMap_recycle z m) =
     Inl (if map_of (zm_zones m) z = None then refusal_ADDRESS else refusal_MALFORMED)"
  by (auto simp: ZoneMap_recycle_def split: option.splits)

lemma map_step_ok: "map_step m m' \<Longrightarrow> map_ok m \<Longrightarrow> map_ok m'"
proof (induction rule: map_step.induct)
  case (step_read m l n)
  then show ?case using read_keeps [of m l n] by (auto simp: map_keeps_def)
next
  case (step_write m l bs)
  then show ?case by (cases rule: write_ok [OF step_write, of l bs]) simp_all
next
  case (step_flush m)
  then show ?case by (rule flush_keeps) (simp add: ZoneMap_flush_def map_keeps_def)
next
  case (step_open m)
  then show ?case by (cases rule: open_zone_ok [OF step_open]) (simp_all add: map_keeps_def)
next
  case (step_copy l m)
  show ?case by (cases rule: copy_forward_ok [OF step_copy(2,1)]) simp_all
next
  case (step_commit m)
  then show ?case by (rule commit_copies_ok) simp
next
  case (step_recycle m z)
  show ?case
  proof (cases "\<exists>e. map_of (zm_zones m) z = Some e \<and> zn_state e = State_Condemned \<and> zm_copies m = []")
    case True
    then obtain e where "map_of (zm_zones m) z = Some e" "zn_state e = State_Condemned" "zm_copies m = []" by blast
    then show ?thesis by (rule recycle_ok [OF step_recycle]) simp
  next
    case False
    then show ?thesis using recycle_refused step_recycle by metis
  qed
next
  case (step_append_reserved m z bs)
  then show ?case using append_reserved_ok [of m z bs] by (auto simp: map_keeps_def)
qed (use zone_records_keep in \<open>auto simp: map_keeps_def\<close>)

lemma map_steps_ok: "map_step\<^sup>*\<^sup>* m m' \<Longrightarrow> map_ok m \<Longrightarrow> map_ok m'"
  by (induction rule: rtranclp_induct) (auto intro: map_step_ok)

lemma free_holds_nothing:
  assumes ok: "map_ok m" and e: "map_of (zm_zones m) z = Some e" "zn_state e = State_Free"
  shows "ZoneMap_holds m z = []"
proof -
  have "zone_ok m z e" using ok e(1) by (simp add: map_ok_def zones_ok_def)
  then have "zd_written (zm_device m) ! z = 0" "\<not> zd_sealed (zm_device m) ! z" using e(2) by (simp_all add: zone_ok_def)
  moreover have "z \<in> dom (map_of (zm_zones m))" using e(1) by blast
  then have "z \<noteq> 0" using ok by (auto simp: map_ok_def zones_ok_def shape_ok_def)
  ultimately have "\<not> in_zone m z l" for l
    using used_claimed [OF ok, of l] ok
    by (fastforce simp: in_zone_def claimed_def Let_def map_ok_def shape_ok_def)
  then have "l \<notin> set (ZoneMap_holds m z)" for l using holds_iff [OF ok] by blast
  then show ?thesis by (metis list.set_intros(1) neq_Nil_conv)
qed

lemma reset_zones_empty: "map_ok m \<Longrightarrow> a_reset_zone_holds_no_live_blob m"
proof -
  assume ok: "map_ok m"
  have bt: "bt_ok (zm_zones m)" using ok by (simp add: map_ok_def shape_ok_def)
  have "zn_zone e = z" if "map_of (zm_zones m) z = Some e" for z e
    using ok that by (simp add: map_ok_def zones_ok_def zone_ok_def)
  then show ?thesis
    using free_holds_nothing [OF ok]
    by (auto simp: a_reset_zone_holds_no_live_blob_def list_all_iff bt_mem_iff [OF bt])
qed

text \<open>
  C39: however the operations of a zone map are mixed, starting from a new map over an empty
  device, the map stays well formed: the two directions of the mapping are inverse, every mapped
  block is the superblock's or lies in a data zone within what the zone has taken, the zones'
  records cover exactly the data zones, at most one zone is open and it is the one the map
  remembers, and a zone that reads free is empty on the device and holds no block of the map.
\<close>

theorem zone_map_well_formed:
  assumes "zoned_ok d" "ZoneMap_new d df = Inr m0"
    "\<And>z. df \<le> z \<Longrightarrow> z < zd_zone_count d \<Longrightarrow> zd_written d ! z = 0 \<and> \<not> zd_sealed d ! z"
    "map_step\<^sup>*\<^sup>* m0 m"
  shows "zoned_ok (zm_device m)
    \<and> (\<forall>l p. ZoneMap_physical m l = Some p \<longleftrightarrow> map_of (zm_logical m) p = Some l)
    \<and> (\<forall>l p. ZoneMap_physical m l = Some p \<longrightarrow> p = 0 \<and> l = 0 \<or> claimed m p)
    \<and> dom (map_of (zm_zones m)) = {zm_data_from m..<zd_zone_count (zm_device m)}
    \<and> (\<forall>z e. map_of (zm_zones m) z = Some e \<longrightarrow> zn_zone e = z
         \<and> (zn_state e = State_Open \<longleftrightarrow> zm_open m = Some z)
         \<and> (zn_state e = State_Free \<longrightarrow> zd_written (zm_device m) ! z = 0))
    \<and> a_reset_zone_holds_no_live_blob m"
proof -
  have "map_ok m" using map_steps_ok [OF assms(4)] new_ok [OF assms(1-3)] by blast
  then show ?thesis
    using reset_zones_empty [of m]
    by (auto simp: map_ok_def shape_ok_def zones_ok_def zone_ok_def placed_ok_def ZoneMap_physical_def)
qed

definition sample_map :: ZoneMap where
  "sample_map = (case ZoneMap_new (ZonedMemory_new 4 2 4) 2 of Inr m \<Rightarrow> m | Inl _ \<Rightarrow> undefined)"

lemma sample_new: "ZoneMap_new (ZonedMemory_new 4 2 4) 2 = Inr sample_map"
  by (simp add: sample_map_def ZoneMap_new_def ZonedMemory_new_def)

lemma sample_device: "zoned_ok (ZonedMemory_new 4 2 4)"
  by (rule zoned_ok_new) simp_all

lemma sample_fresh:
  "z < zd_zone_count (ZonedMemory_new 4 2 4) \<Longrightarrow>
   zd_written (ZonedMemory_new 4 2 4) ! z = 0 \<and> \<not> zd_sealed (ZonedMemory_new 4 2 4) ! z"
  by (simp add: ZonedMemory_new_def)

lemma sample_ok: "map_ok sample_map" "contents sample_map = [0 \<mapsto> block_at (ZonedMemory_new 4 2 4) 0]"
  using new_ok [OF sample_device sample_new] sample_fresh by simp_all

lemma sample_block_bytes: "zd_block_bytes (zm_device sample_map) = 4"
  by (simp add: sample_map_def ZoneMap_new_def ZonedMemory_new_def)

theorem zone_map_well_formed_witness:
  "a_reset_zone_holds_no_live_blob (snd (ZoneMap_write 1 [1, 2, 3, 4] sample_map))"
  using zone_map_well_formed [OF sample_device sample_new _
      r_into_rtranclp [of map_step sample_map, OF step_write [of sample_map 1 "[1, 2, 3, 4]"]]] sample_fresh by simp

text \<open>
  C40: a zone map reached from a new one by any operations, copying the superblock's block 0 forward
  apart, is a store of logical blocks. A read of the device's block size answers the contents of
  the block and an address refusal for one that holds nothing; a write of a whole block to a name
  not yet placed, or to the superblock's, sets exactly that block or is refused for want of a free
  zone, and one to a placed block is refused with nothing changed; copying a block other than the
  superblock's forward, and committing the copies, change no contents; recycling a condemned zone
  removes exactly the blocks the map still holds in it.
\<close>

theorem zone_map_refines:
  assumes start: "zoned_ok d" "ZoneMap_new d df = Inr m0"
      "\<And>z. df \<le> z \<Longrightarrow> z < zd_zone_count d \<Longrightarrow> zd_written d ! z = 0 \<and> \<not> zd_sealed d ! z"
    and reach: "map_step\<^sup>*\<^sup>* m0 m" and bs: "length bs = zd_block_bytes (zm_device m)"
  shows "fst (ZoneMap_read l (length bs) m) =
      (case contents m l of Some x \<Rightarrow> Inr x | None \<Rightarrow> Inl refusal_ADDRESS)
    \<and> contents (snd (ZoneMap_read l (length bs) m)) = contents m
    \<and> (case ZoneMap_write l bs m of
         (Inr _, m') \<Rightarrow> contents m' = (contents m)(l \<mapsto> bs) \<and> (l = 0 \<or> ZoneMap_physical m l = None)
       | (Inl e, m') \<Rightarrow> contents m' = contents m
           \<and> (e = refusal_FULL \<and> (\<forall>z. \<not> free_zone m z) \<or> e = refusal_ADDRESS \<and> ZoneMap_physical m l \<noteq> None))
    \<and> (l \<noteq> 0 \<longrightarrow> contents (snd (ZoneMap_copy_forward l m)) = contents m)
    \<and> (\<exists>m'. ZoneMap_commit_copies m = (Inr (length (zm_copies m)), m') \<and> contents m' = contents m)
    \<and> (case ZoneMap_recycle z m of
         (Inr _, m') \<Rightarrow> contents m' = (\<lambda>k. if k \<in> set (ZoneMap_holds m z) then None else contents m k)
       | (Inl e, m') \<Rightarrow> m' = m)"
proof (intro conjI)
  have ok: "map_ok m" using map_steps_ok [OF reach] new_ok [OF start] by blast
  show "fst (ZoneMap_read l (length bs) m) = (case contents m l of Some x \<Rightarrow> Inr x | None \<Rightarrow> Inl refusal_ADDRESS)"
    "contents (snd (ZoneMap_read l (length bs) m)) = contents m"
    using read_keeps [OF ok, of l "length bs"] bs by (auto simp: map_keeps_def)
  show "case ZoneMap_write l bs m of
         (Inr _, m') \<Rightarrow> contents m' = (contents m)(l \<mapsto> bs) \<and> (l = 0 \<or> ZoneMap_physical m l = None)
       | (Inl e, m') \<Rightarrow> contents m' = contents m
           \<and> (e = refusal_FULL \<and> (\<forall>z. \<not> free_zone m z) \<or> e = refusal_ADDRESS \<and> ZoneMap_physical m l \<noteq> None)"
    by (cases rule: write_ok [OF ok, of l bs]) (simp_all add: ZoneMap_physical_def bs)
  show "l \<noteq> 0 \<longrightarrow> contents (snd (ZoneMap_copy_forward l m)) = contents m"
  proof
    assume "l \<noteq> 0"
    then show "contents (snd (ZoneMap_copy_forward l m)) = contents m"
      by (cases rule: copy_forward_ok [OF ok \<open>l \<noteq> 0\<close>]) simp_all
  qed
  show "\<exists>m'. ZoneMap_commit_copies m = (Inr (length (zm_copies m)), m') \<and> contents m' = contents m"
    by (rule commit_copies_ok [OF ok]) blast
  show "case ZoneMap_recycle z m of
         (Inr _, m') \<Rightarrow> contents m' = (\<lambda>k. if k \<in> set (ZoneMap_holds m z) then None else contents m k)
       | (Inl e, m') \<Rightarrow> m' = m"
  proof (cases "\<exists>e. map_of (zm_zones m) z = Some e \<and> zn_state e = State_Condemned \<and> zm_copies m = []")
    case True
    then obtain e where "map_of (zm_zones m) z = Some e" "zn_state e = State_Condemned" "zm_copies m = []" by blast
    then show ?thesis
      by (rule recycle_ok [OF ok]) (simp add: holds_iff [OF ok] fun_eq_iff)
  next
    case False
    from recycle_refused [OF this] show ?thesis by (cases "ZoneMap_recycle z m") (auto split: sum.splits)
  qed
qed

theorem zone_map_refines_witness:
  "fst (ZoneMap_read 1 4 sample_map) = Inl refusal_ADDRESS"
  using zone_map_refines [OF sample_device sample_new _ rtranclp.rtrancl_refl, of "replicate 4 7" 1]
    sample_fresh sample_block_bytes by (simp add: sample_ok(2))

text \<open>
  Why the superblock's block is left out: \<open>copy_forward\<close> takes it like any other, and it is the one
  block that may be rewritten between its copy and the commit, which then brings the old bytes back.
\<close>

definition small_map :: ZoneMap where
  "small_map = \<lparr>zm_device = ZonedMemory_new 1 1 2, zm_zone_blocks = 1, zm_data_from = 1, zm_physical = [(0, 0)],
     zm_logical = [(0, 0)], zm_zones = [(1, Zone_fresh 1 State_Free)], zm_open = None, zm_copies = []\<rparr>"

lemma small_map_new: "ZoneMap_new (ZonedMemory_new 1 1 2) 1 = Inr small_map"
  by (simp add: small_map_def ZoneMap_new_def ZonedMemory_new_def numeral_2_eq_2)

text \<open>A device of two blocks of one byte, the second in a sequential zone.\<close>

definition two_blocks :: "ZonedMemory \<Rightarrow> u8 \<Rightarrow> u8 \<Rightarrow> nat \<Rightarrow> bool" where
  "two_blocks d x y w \<longleftrightarrow> zd_block_bytes d = 1 \<and> zd_zone_blocks d = 1 \<and> zd_zone_count d = 2
     \<and> zd_bytes d = [x, y] \<and> zd_written d = [0, w] \<and> zd_sealed d = [False, False]"

lemma two_blocks_new: "two_blocks (ZonedMemory_new 1 1 2) 0 0 0"
  by (simp add: two_blocks_def ZonedMemory_new_def numeral_2_eq_2)

lemma two_blocks_ops:
  assumes "two_blocks d x y w"
  shows "\<exists>d'. ZonedMemory_write 0 [b] d = (Inr (), d') \<and> two_blocks d' b y w"
    "w = 0 \<Longrightarrow> \<exists>d'. ZonedMemory_append 1 [b] d = (Inr 1, d') \<and> two_blocks d' x b 1"
    "\<exists>d'. ZonedMemory_read 0 1 d = (Inr [x], d') \<and> two_blocks d' x y w"
    "w = 1 \<Longrightarrow> fst (ZonedMemory_read 1 1 d) = Inr [y]"
    "\<exists>d'. ZonedMemory_flush d = (Inr (), d') \<and> two_blocks d' x y w"
  using assms
  by (simp_all add: two_blocks_def ZonedMemory_write_def ZonedMemory_append_def ZonedMemory_read_def ZonedMemory_flush_def
      ZonedMemory_zone_of_def ZonedMemory_span_def ZonedMemory_sequential_def ZonedMemory_kind_of_def
      ZonedMemory_start_of_def Let_def put_at_def slice_def)

lemma superblock_copy_loses_write:
  "\<exists>m1 m2 m3. ZoneMap_write 0 [1] small_map = (Inr (), m1) \<and> ZoneMap_copy_forward 0 m1 = (Inr 1, m2)
    \<and> ZoneMap_write 0 [2] m2 = (Inr (), m3) \<and> fst (ZoneMap_read 0 1 m3) = Inr [2]
    \<and> fst (ZoneMap_read 0 1 (snd (ZoneMap_commit_copies m3))) = Inr [1]"
proof -
  obtain d1 where d1: "ZonedMemory_write 0 [1] (ZonedMemory_new 1 1 2) = (Inr (), d1)" "two_blocks d1 1 0 0"
    using two_blocks_ops(1) [OF two_blocks_new] by blast
  obtain d2 where d2: "ZonedMemory_read 0 1 d1 = (Inr [1], d2)" "two_blocks d2 1 0 0"
    using two_blocks_ops(3) [OF d1(2)] by blast
  obtain d3 where d3: "ZonedMemory_append 1 [1] d2 = (Inr 1, d3)" "two_blocks d3 1 1 1"
    using two_blocks_ops(2) [OF d2(2)] by blast
  obtain d4 where d4: "ZonedMemory_write 0 [2] d3 = (Inr (), d4)" "two_blocks d4 2 1 1"
    using two_blocks_ops(1) [OF d3(2)] by blast
  obtain d5 where d5: "ZonedMemory_flush d4 = (Inr (), d5)" "two_blocks d5 2 1 1"
    using two_blocks_ops(5) [OF d4(2)] by blast
  obtain d6 where d6: "ZonedMemory_read 0 1 d4 = (Inr [2], d6)"
    using two_blocks_ops(3) [OF d4(2)] by blast
  have "zd_block_bytes d1 = 1" using d1(2) by (simp add: two_blocks_def)
  define m1 where "m1 = small_map\<lparr>zm_device := d1\<rparr>"
  define m2 where "m2 = m1\<lparr>zm_device := d3, zm_zones := [(1, Zone_fresh 1 State_Open)], zm_open := Some 1, zm_copies := [(0, 1)]\<rparr>"
  define m3 where "m3 = m2\<lparr>zm_device := d4\<rparr>"
  have "ZoneMap_write 0 [1] small_map = (Inr (), m1)"
    by (simp add: m1_def small_map_def ZoneMap_write_def on_device_def ZonedMemory_kind_of_def d1(1) del: One_nat_def)
  moreover have "ZoneMap_copy_forward 0 m1 = (Inr 1, m2)"
    by (simp add: m1_def m2_def small_map_def ZoneMap_copy_forward_def on_device_def try_then_def d2(1) d3(1)
        \<open>zd_block_bytes d1 = 1\<close> ZoneMap_append_somewhere_def ZoneMap_open_zone_def seal_open_def append_open_def
        set_state_def Zone_fresh_def del: One_nat_def)
  moreover have "ZoneMap_write 0 [2] m2 = (Inr (), m3)"
    by (simp add: m1_def m2_def m3_def small_map_def ZoneMap_write_def on_device_def ZonedMemory_kind_of_def d4(1) del: One_nat_def)
  moreover have "fst (ZoneMap_read 0 1 m3) = Inr [2]"
    by (simp add: m1_def m2_def m3_def small_map_def ZoneMap_read_def on_device_def d6 del: One_nat_def)
  moreover have "fst (ZoneMap_read 0 1 (snd (ZoneMap_commit_copies m3))) = Inr [1]"
    using two_blocks_ops(4) [OF d5(2)]
    by (auto simp add: m1_def m2_def m3_def small_map_def ZoneMap_read_def on_device_def ZoneMap_commit_copies_def try_then_def
        d5(1) commit_copy_def Let_def del: One_nat_def split: prod.splits)
  ultimately show ?thesis by blast
qed

end
