(* ===== verification/Zone_Queue.thy ===== *)
theory Zone_Queue
  imports Deadline Store_Format Ordered_Map "HOL-Library.Product_Lexorder" "HOL-Library.Multiset"
begin


record Entry =
  en_class :: u16
  en_deadline :: u64
  en_seq :: u64
  en_collector :: bool



record Queue =
  q_pending :: "Entry list"
  q_in_flight :: "Entry option"
  q_ahead :: "(u64, u32) BTreeMap"
  q_worst :: u32
  q_next :: u64



definition Queue_depth :: "Queue \<Rightarrow> nat" where
  "Queue_depth q = length (q_pending q)"




text \<open>\<open>min_by_key\<close> over the indices: the first of those with the least key.\<close>

fun min_by_key :: "('a \<Rightarrow> 'k::linorder) \<Rightarrow> 'a list \<Rightarrow> nat option" where
  "min_by_key f [] = None"
| "min_by_key f (x # xs) =
     (case min_by_key f xs of None \<Rightarrow> Some 0 | Some i \<Rightarrow> if f x \<le> f (xs ! i) then Some 0 else Some (Suc i))"





lemma min_by_key_None [simp]: "min_by_key f xs = None \<longleftrightarrow> xs = []"
  by (cases xs) (auto split: option.splits)







subsection \<open>The invariant\<close>


















subsection \<open>Runs of the queue\<close>











end
