(* ===== verification/Spec2Isabelle.thy ===== *)
theory Spec2Isabelle
  imports Cap_Theorems Deadline Admit Ring_Wakeup Ring_Service Layout_Theorems Supervisor Frame_Theorems Sha256 Zone_Map_Theorems
    Zone_Queue
begin

text \<open>
  \<^bold>\<open>F, a research operating system: a verification library of its core.\<close>

  The program is a capability kernel and the processes around it. A process holds capabilities in a
  table the kernel keeps; it buys memory out of untyped accounts; it is admitted with a reservation
  of cores, time, memory and partitions; it talks to others over channels, each a pair of rings in
  shared memory with a doorbell; requests carry a deadline class that is inherited along calls; a
  supervisor restarts what dies; below all of it a buddy allocator hands out physical frames; and
  what is stored lives, named by its hash, on a device of zones that are only appended to and reset.
  This library models those parts from the Rust sources under \<open>src/\<close> and proves what makes each
  correct.

  \<^bold>\<open>How code becomes definitions.\<close> A definition keeps the name of the Rust item it models, with
  \<open>Type::method\<close> written \<open>Type_method\<close>. A struct is a record whose fields carry a short prefix, an enum
  is a datatype, a method on \<open>&mut self\<close> returns its result together with the new state, and a
  \<open>Result\<close> is a sum with the error on the left (\<open>and_then\<close> is the question mark). Machine integers are
  words of their width (\<open>u8\<close>, \<open>u16\<close>, \<open>u32\<close>, \<open>u64\<close> of \<open>Prelude\<close>), so \<open>+\<close> wraps and the checked and
  saturating operations of Rust are the functions of those names; physical addresses are natural
  numbers with the bound \<open>2 ^ 64\<close> in the invariants. A loop is a function with a termination proof,
  or a partial function whose value is \<open>None\<close> when it does not return and of which the properties
  prove that it returns. No definition uses fuel.

  \<^bold>\<open>Parts, theories and sources.\<close>

  \<^item> \<open>Prelude\<close>: machine integers, checked and saturating arithmetic, results, single-bit tests,
    list lookups; the collection \<open>checked_arith\<close>.
  \<^item> Capability vocabulary. \<open>Abi_Cap\<close> models \<open>src/abi/src/cap.rs\<close> (types on the wire, rights, handles)
    and the error packing of \<open>src/abi/src/lib.rs\<close>; a packed error unpacks to what was packed.
  \<^item> Control channel. \<open>Control\<close> models \<open>src/abi/src/control.rs\<close>: pending notices coalesced per slot,
    the stop deadline, causes. The notices a slot owes are exactly those due from what happened to it
    and what was told; the stop deadline in force is the earliest asked for.
  \<^item> Untyped accounts. \<open>Watermark\<close> models \<open>src/kernel/src/watermark.rs\<close>.
  \<^item> Capability table. \<open>Cap_Table\<close> models \<open>src/kernel/src/cap.rs\<close>: the table's pages, placing,
    deriving, retyping, refunding, condemning, sweeping, relinquishing, clearing, growing, notices.
    \<open>Cap_Invariant\<close> is the well-formedness every operation keeps and how a slot may evolve;
    \<open>Cap_Revocation\<close> relates the marking loop to the derivation tree; \<open>Cap_Authority\<close> holds the locale
    \<open>authority\<close> for any table in which a refused handle stays refused, and the invariant that the
    tree stays a tree with narrowing rights; \<open>Cap_Steps\<close> is the step relation of all operations, on
    which the locale is interpreted; \<open>Cap_Theorems\<close> holds the properties.
  \<^item> Admission and reservation. \<open>Reserve\<close> models \<open>src/abi/src/reserve.rs\<close>, \<open>Admit\<close> models
    \<open>src/kernel/src/admit.rs\<close> with CPUID and the processor count as parameters. \<open>Reserve_Inv\<close> has the
    invariant, \<open>Reserve_Theorems\<close> the properties: exclusive cores, exact grants, justified refusals,
    release as the inverse of grant, the idle and deadline readers.
  \<^item> Deadline inheritance. \<open>Deadline\<close> models \<open>src/abi/src/deadline.rs\<close>: urgency is only ever lost along
    a chain of calls, and runs out at the depth bound.
  \<^item> Channel rings. \<open>Ring\<close> models \<open>src/ring/src/lib.rs\<close>, \<open>src/ring/src/doorbell.rs\<close>, the entries of
    \<open>src/abi/src/lib.rs\<close> and the serial sink of \<open>src/kernel/src/ring.rs\<close>. \<open>Ring_Fifo\<close> has the locale
    \<open>bounded_fifo\<close>, interpreted on the submission and on the completion ring; \<open>Ring_Theorems\<close> the queue
    refinements, batches, and containment of a hostile peer; \<open>Ring_Wakeup\<close> the doorbell protocol as a
    step relation over a machine with store buffers, and that no wakeup is lost; \<open>Ring_Service\<close> the
    execution of entries, with the locales \<open>sink_contract\<close> and \<open>blocking_sink\<close> interpreted on the serial
    port, and the drain loop.
  \<^item> Channel layout. \<open>Channel_Layout\<close> models the header and negotiation, \<open>src/abi/src/layout.rs\<close>,
    \<open>src/ring/src/mapping.rs\<close> and \<open>src/ring/src/adopt.rs\<close>; \<open>Layout_Theorems\<close> shows that an adopted mapping
    contains its regions whatever the peer wrote, and that describing and adopting are inverse.
  \<^item> Supervisor. \<open>Supervisor\<close> models \<open>src/user/supervisor/src/policy.rs\<close> and the restart fields of a
    manifest record: restarts are bounded per window, the answer about a row is exact.
  \<^item> Physical frame allocator. \<open>Frame_Alloc\<close> models \<open>src/kernel/src/mem.rs\<close>: orders, links kept in the
    free blocks and masked with a cookie, per-core shards, the frontier of untouched runs, adding a
    region, allocation plain and zeroed, freeing, coalescing, scrubbing, stealing. The abstraction is
    the multiset of free frames: \<open>Frame_Lists\<close> relates the linked lists in memory to it,
    \<open>Frame_Shard\<close>, \<open>Frame_Sort\<close>, \<open>Frame_Coalesce\<close> and \<open>Frame_Pool\<close> treat one shard and the frontier,
    \<open>Frame_System\<close>, \<open>Frame_Ops\<close>, \<open>Frame_Scrub\<close> and \<open>Frame_Region\<close> all cores and each operation,
    \<open>Frame_Memory\<close> what callers see of them, and \<open>Frame_Theorems\<close> the locale \<open>block_source\<close>, interpreted
    on the allocator, and the properties.
  \<^item> Hashing. \<open>Sha256\<close> models \<open>src/hash/src/lib.rs\<close>: streaming in any pieces equals the standard's
    function of the whole message, and the constants are the root bits of the first primes.
  \<^item> Records on the device. \<open>Store_Format\<close> models \<open>src/abi/src/store.rs\<close>: a decoder accepts exactly the
    encodings of valid records. \<open>Bytes\<close> has the byte fields, \<open>Ordered_Map\<close> the ordered collections of
    the standard library as sorted lists.
  \<^item> Zoned storage. \<open>Zone_Device\<close> models the zoned memory of \<open>src/zone/src/device.rs\<close>, \<open>Zone_Map\<close> the
    mapping of \<open>src/zone/src/map.rs\<close> over it. \<open>Zone_Map_Inv\<close> has the invariant and the abstraction to
    logical blocks, \<open>Zone_Map_Ops\<close> each operation, \<open>Zone_Map_Theorems\<close> that any mix of them keeps the
    invariant and implements a store of blocks. Copying the superblock's block 0 forward is left out
    of both: a rewrite between its copy and the commit is lost, which is shown there.
  \<^item> Collector queue. \<open>Zone_Queue\<close> models \<open>src/zone/src/queue.rs\<close>: an urgent read waits for one operation
    of the collector at most, and the collector's own operation always gets its turn.

  \<^bold>\<open>How the parts meet.\<close> The capability table answers errors of the vocabulary, draws accounts
  through the watermark and notices through the control channel's state machine. Admission uses
  the deadline classes. The rings carry the entries and errors of the vocabulary; a mapping that was
  adopted has tables of the power-of-two sizes the rings need, which is a premise of the ring
  properties and a conclusion of the layout ones. A supervisor decides on the causes of the control
  channel. The zone map runs on the zoned memory and the collector's queue ranks its entries by the
  deadline classes.

  \<^bold>\<open>Bounds.\<close> Orders are at most 18 and cores at most 8, as in the source. A free frame is a multiple of
  4096 below \<open>2 ^ 64\<close>, so there are at most \<open>2 ^ 52\<close> and no counter of frames saturates. Tables of
  capabilities, reservations and rings have the sizes of the source. Block and zone numbers are
  natural numbers, with the widths of the source as bounds in the invariant of the device; the
  queue's sequence numbers are words, and its property bounds the run so that they do not wrap.

  \<^bold>\<open>Assumptions.\<close> Each operation of the kernel is one step: the kernel runs its table and allocator
  operations to completion on one core, and the wakeup protocol is the only place where steps of two
  parties interleave inside an operation. Memory behaves as a function from addresses to words; a
  write is seen by the next read. The zone map is modelled over the zoned memory, not over an
  arbitrary device, so a device that refuses a flush or an append for reasons of its own is not
  covered. Blocks are freed to the frame allocator whole, as they were allocated. CPUID, the
  processor count and the device behind a sink are parameters.

  \<^bold>\<open>Not modelled\<close>, and why.
  \<^item> Boot self-tests, demonstrations and the deliberately broken variants they run against (the ends
    of \<open>mem.rs\<close> and \<open>cap.rs\<close>): test code; what they test is proved instead.
  \<^item> \<open>src/kernel/src/arch\<close> and the code of \<open>smp.rs\<close>, \<open>iommu.rs\<close>, \<open>main.rs\<close> that drives the processor and
    its devices: instruction sequences and device registers, of which the sources give no semantics.
  \<^item> \<open>component.rs\<close>, \<open>process.rs\<close>, \<open>compositor.rs\<close> and the drivers under \<open>src/user\<close>: glue between the parts
    above, page tables and device registers.
  \<^item> \<open>src/xtask\<close>, \<open>src/sim\<close>, \<open>src/bench\<close>, \<open>src/evals\<close>: tools that build, simulate and measure the system.
  \<^item> \<open>src/third_party\<close>: code of others, which no modelled part calls.
  \<^item> \<open>src/text\<close>, \<open>src/scene\<close>, \<open>src/interface\<close>, \<open>src/semantic\<close>, \<open>src/input\<close>: the user interface, self-contained
    and outside the kernel's guarantees; most of \<open>src/text\<close> is generated Unicode tables.
  \<^item> The fixed-buffer registry, heap and device helpers of \<open>src/ring\<close>: ownership that Rust's types
    enforce, and device registers.
  \<^item> \<open>src/blob\<close>, \<open>src/index\<close>, \<open>src/generation\<close> and, of \<open>src/zone\<close>, the collector, marking, root log and
    mount: stores built over the modelled records, hash and map; they are not part of this library.
\<close>

end
